(* ===== verification/Prelude.thy ===== *)
theory Prelude
  imports Main "HOL-Library.Word" "HOL-Library.Multiset"
begin

text \<open>
  What the component theories share: the ways a C++ call can end other than by returning, the
  sequencing of calls that may end that way, the integer types of the target (LP64, two's
  complement), the debug/release switch of \<open>assert\<close>, and generic facts on lists and multisets.

  A call that can fail has type \<open>'a cxx = fault + 'a\<close>: \<open>Inr\<close> is a normal return, \<open>Inl\<close> names
  the assertion, the call of \<open>std::abort\<close>, the exception, or the undefined behaviour that the
  call runs into. Undefined behaviour is a value of the model, never an unspecified HOL term, so
  that "the code has no undefined behaviour here" is a statement with content.
\<close>

named_theorems cxx_simps \<open>rewriting of sequenced calls\<close>

section \<open>How a call ends\<close>

datatype future_errc = No_state | Broken_promise | Future_already_retrieved | Promise_already_satisfied

datatype fault =
    Assert_failed                 \<comment> \<open>a failed \<open>assert\<close> of a debug build\<close>
  | Abort_called                  \<comment> \<open>\<open>std::abort\<close>\<close>
  | Undefined                     \<comment> \<open>undefined behaviour\<close>
  | System_error int              \<comment> \<open>\<open>throw std::system_error(code, ...)\<close>\<close>
  | Invalid_argument              \<comment> \<open>\<open>throw std::invalid_argument\<close>\<close>
  | Runtime_error                 \<comment> \<open>\<open>throw std::runtime_error\<close>\<close>
  | Future_error future_errc      \<comment> \<open>\<open>throw std::future_error\<close>\<close>
  | Bad_function_call             \<comment> \<open>\<open>throw std::bad_function_call\<close>\<close>
  | Callback_exception nat        \<comment> \<open>an exception a user callback throws\<close>

type_synonym 'a cxx = "fault + 'a"

definition cxx_bind :: "'a cxx \<Rightarrow> ('a \<Rightarrow> 'b cxx) \<Rightarrow> 'b cxx" where
  "cxx_bind m k = (case m of Inl e \<Rightarrow> Inl e | Inr x \<Rightarrow> k x)"

lemma cxx_bind_Inl [simp, cxx_simps]: "cxx_bind (Inl e) k = Inl e"
  by (simp add: cxx_bind_def)

lemma cxx_bind_Inr [simp, cxx_simps]: "cxx_bind (Inr x) k = k x"
  by (simp add: cxx_bind_def)

lemma cxx_bind_eq_Inr: "cxx_bind m k = Inr y \<longleftrightarrow> (\<exists>x. m = Inr x \<and> k x = Inr y)"
  by (cases m) simp_all

lemma cxx_bind_assoc [cxx_simps]: "cxx_bind (cxx_bind m f) g = cxx_bind m (\<lambda>x. cxx_bind (f x) g)"
  by (cases m) simp_all

text \<open>\<open>assert(b)\<close>: checked in a debug build, nothing under \<open>NDEBUG\<close>.\<close>

definition cxx_assert :: "bool \<Rightarrow> bool \<Rightarrow> unit cxx" where
  "cxx_assert debug b = (if debug \<and> \<not> b then Inl Assert_failed else Inr ())"

lemma cxx_assert_True [simp, cxx_simps]: "cxx_assert debug True = Inr ()"
  by (simp add: cxx_assert_def)

lemma cxx_assert_release [simp, cxx_simps]: "cxx_assert False b = Inr ()"
  by (simp add: cxx_assert_def)

lemma cxx_assert_debug_fails [simp, cxx_simps]: "cxx_assert True False = Inl Assert_failed"
  by (simp add: cxx_assert_def)

text \<open>A call that may also never return: \<open>None\<close>.\<close>

type_synonym 'a run = "'a cxx option"

definition cxx_then :: "'a cxx \<Rightarrow> ('a \<Rightarrow> 'b run) \<Rightarrow> 'b run" where
  "cxx_then m k = (case m of Inl e \<Rightarrow> Some (Inl e) | Inr x \<Rightarrow> k x)"

definition run_bind :: "'a run \<Rightarrow> ('a \<Rightarrow> 'b run) \<Rightarrow> 'b run" where
  "run_bind m k = (case m of None \<Rightarrow> None | Some x \<Rightarrow> cxx_then x k)"

lemma cxx_then_simps [simp, cxx_simps]:
  "cxx_then (Inl e) k = Some (Inl e)"
  "cxx_then (Inr x) k = k x"
  by (simp_all add: cxx_then_def)

lemma run_bind_simps [simp, cxx_simps]:
  "run_bind None k = None"
  "run_bind (Some x) k = cxx_then x k"
  by (simp_all add: run_bind_def)

section \<open>Integers of the target\<close>

type_synonym c_int = "32 word"
type_synonym c_uint = "32 word"
type_synonym u64 = "64 word"

text \<open>\<open>ptrdiff_t\<close> arithmetic of a \<open>std::atomic\<close> wraps around at 64 bits.\<close>

definition ptrdiff_wrap :: "int \<Rightarrow> int" where
  "ptrdiff_wrap x = (x + 2 ^ 63) mod 2 ^ 64 - 2 ^ 63"

abbreviation ptrdiff_range :: "int \<Rightarrow> bool" where
  "ptrdiff_range x \<equiv> - (2 ^ 63) \<le> x \<and> x < 2 ^ 63"

lemma ptrdiff_wrap_id [simp]: "ptrdiff_range x \<Longrightarrow> ptrdiff_wrap x = x"
  by (simp add: ptrdiff_wrap_def)

lemma ptrdiff_wrap_range: "ptrdiff_range (ptrdiff_wrap x)"
  by (simp add: ptrdiff_wrap_def pos_mod_bound
      order.strict_trans2 [OF pos_mod_bound [of "2 ^ 64"]])

section \<open>Lists\<close>

lemma takeWhile_eq_take_length: "take (length (takeWhile P xs)) xs = takeWhile P xs"
  by (induction xs) auto

lemma dropWhile_eq_drop_length: "drop (length (takeWhile P xs)) xs = dropWhile P xs"
  by (induction xs) auto

lemma length_takeWhile_less_iff:
  "length (takeWhile P xs) < length xs \<longleftrightarrow> (\<exists>x \<in> set xs. \<not> P x)"
  by (induction xs) auto

lemma mset_update_swap:
  "i < length xs \<Longrightarrow> mset (xs[i := y]) + {#xs ! i#} = mset xs + {#y#}"
  by (simp add: mset_update)

lemma sum_list_map_update:
  fixes f :: "'a \<Rightarrow> 'b::comm_monoid_add"
  assumes "i < length xs"
  shows "sum_list (map f (xs[i := y])) + f (xs ! i) = sum_list (map f xs) + f y"
  using assms
proof (induction xs arbitrary: i)
  case Nil
  then show ?case by simp
next
  case (Cons x xs)
  then show ?case by (cases i) (simp_all add: ac_simps)
qed

end
