(* ===== verification/Native_Result.thy ===== *)
theory Native_Result
  imports Prelude
begin

unbundle bit_operations_syntax

text \<open>
  \<open>include/tcx/native/result.hpp\<close> and \<open>native/handle.hpp\<close>: \<open>tcx::native::result<T>\<close>, the value
  or error code that every fallible call of the io_uring service returns, its \<open>void\<close>
  specialisation, and the \<open>syscall\<close> specialisation that decodes a raw return value.

  The storage of \<open>result<T>\<close> is an error code and a union member that may be uninitialised
  (\<open>None\<close>). Reading an uninitialised member is \<open>Undefined\<close>.
\<close>

section \<open>handle.hpp\<close>

type_synonym handle_type = c_int

definition invalid_handle :: handle_type where
  "invalid_handle = - 1"

section \<open>result<T>\<close>

record 'a result =
  res_first :: c_int
  res_second :: "'a option"

definition has_value :: "'a result \<Rightarrow> bool" where
  "has_value r \<longleftrightarrow> res_first r \<noteq> 0"

definition has_error :: "'a result \<Rightarrow> bool" where
  "has_error r \<longleftrightarrow> \<not> (res_first r \<noteq> 0)"

definition error :: "'a result \<Rightarrow> c_int" where
  "error r = res_first r"

definition read_member :: "'a option \<Rightarrow> 'a cxx" where
  "read_member m = (case m of None \<Rightarrow> Inl Undefined | Some v \<Rightarrow> Inr v)"

definition result_value :: "bool \<Rightarrow> 'a result \<Rightarrow> 'a cxx" where
  "result_value debug r =
     cxx_bind (cxx_assert debug (has_value r)) (\<lambda>_. read_member (res_second r))"

text \<open>
  \<open>from_error\<close>: for a default-constructible \<open>T\<close> and error 0 it default-constructs the union
  \<open>m_value.second\<close> itself, whose constructor leaves the member uninitialised; for any other
  \<open>T\<close> it asserts that the code is not 0.
\<close>

definition from_error :: "bool \<Rightarrow> bool \<Rightarrow> c_int \<Rightarrow> 'a result cxx" where
  "from_error debug default_constructible e =
     (if default_constructible then Inr \<lparr>res_first = e, res_second = None\<rparr>
      else cxx_bind (cxx_assert debug (e \<noteq> 0)) (\<lambda>_. Inr \<lparr>res_first = e, res_second = None\<rparr>))"

definition from_value :: "'a \<Rightarrow> 'a result" where
  "from_value v = \<lparr>res_first = 0, res_second = Some v\<rparr>"

text \<open>The move constructor: the member is moved when \<open>other.has_value()\<close>.\<close>

definition result_move :: "bool \<Rightarrow> 'a result \<Rightarrow> 'a result cxx" where
  "result_move debug other =
     (if has_value other
      then cxx_bind (result_value debug other)
             (\<lambda>v. Inr \<lparr>res_first = res_first other, res_second = Some v\<rparr>)
      else Inr \<lparr>res_first = res_first other, res_second = None\<rparr>)"

text \<open>
  The destructor for a \<open>T\<close> that is not trivially destructible: when \<open>has_value()\<close>, it destroys the
  union \<open>m_value.second\<close>, not its member, and the destructor of \<open>maybe_uninitialized<T>::type\<close> is
  empty. The result is the value destroyed, \<open>None\<close> when none is.
\<close>

definition union_destroy :: "'a option \<Rightarrow> 'a option" where
  "union_destroy m = None"

definition result_destroy :: "'a result \<Rightarrow> 'a option" where
  "result_destroy r = (if has_value r then union_destroy (res_second r) else None)"

section \<open>result<void>\<close>

type_synonym void_result = c_int

definition void_has_value :: "void_result \<Rightarrow> bool" where
  "void_has_value r \<longleftrightarrow> r \<noteq> 0"

definition void_has_error :: "void_result \<Rightarrow> bool" where
  "void_has_error r \<longleftrightarrow> \<not> void_has_value r"

definition void_value :: "bool \<Rightarrow> void_result \<Rightarrow> unit cxx" where
  "void_value debug r = cxx_assert debug (void_has_value r)"

definition void_error :: "void_result \<Rightarrow> c_int" where
  "void_error r = r"

definition void_from_error :: "c_int \<Rightarrow> void_result" where
  "void_from_error e = e"

definition void_from_value :: void_result where
  "void_from_value = 0"

section \<open>result<syscall<T>>\<close>

text \<open>
  The storage is \<open>std::common_type_t<int, T>\<close>: signed for a signed \<open>T\<close>, unsigned for an
  unsigned \<open>T\<close> or a pointer, so \<open>min_error <= m_value && m_value <= max_error\<close> is a signed or an
  unsigned comparison. Both are modelled, at any width.
\<close>

definition min_error :: "'w::len word" where
  "min_error = - (1024 * 4)"

definition max_error :: "'w::len word" where
  "max_error = - 1"

definition syscall_has_value :: "'w::len word \<Rightarrow> bool" where
  "syscall_has_value m \<longleftrightarrow> min_error \<le> m \<and> m \<le> max_error"

definition syscall_has_value_signed :: "'w::len word \<Rightarrow> bool" where
  "syscall_has_value_signed m \<longleftrightarrow>
     sint (min_error :: 'w word) \<le> sint m \<and> sint m \<le> sint (max_error :: 'w word)"

definition syscall_has_error :: "'w::len word \<Rightarrow> bool" where
  "syscall_has_error m \<longleftrightarrow> \<not> syscall_has_value m"

definition syscall_error :: "'w::len word \<Rightarrow> c_int" where
  "syscall_error m = (if syscall_has_error m then ucast m else 0)"

definition syscall_value :: "bool \<Rightarrow> 'w::len word \<Rightarrow> 'w word cxx" where
  "syscall_value debug m = cxx_bind (cxx_assert debug (syscall_has_value m)) (\<lambda>_. Inr m)"

section \<open>Lemmas: the raw system call value\<close>

lemma min_error_of_int: "(min_error :: 'w::len word) = word_of_int (- 4096)"
  by (simp add: min_error_def)

lemma uint_min_error:
  assumes "12 < LENGTH('w::len)"
  shows "uint (min_error :: 'w word) = 2 ^ LENGTH('w) - 4096"
proof -
  have le: "(2::int) ^ 13 \<le> 2 ^ LENGTH('w)"
    using assms by (intro power_increasing) auto
  have "uint (min_error :: 'w word) = (- 4096) mod 2 ^ LENGTH('w)"
    by (simp only: min_error_of_int uint_word_of_int)
  also have "\<dots> = (2 ^ LENGTH('w) - 4096) mod 2 ^ LENGTH('w)"
    by (metis add.commute diff_conv_add_uminus mod_add_self1)
  also have "\<dots> = 2 ^ LENGTH('w) - 4096"
    using le by (intro mod_pos_pos_trivial) auto
  finally show ?thesis .
qed

lemma sint_min_error:
  assumes "12 < LENGTH('w::len)"
  shows "sint (min_error :: 'w word) = - 4096"
proof -
  have le: "(2::int) ^ 12 \<le> 2 ^ (LENGTH('w) - 1)"
    using assms by (intro power_increasing) auto
  have two: "(2::int) ^ LENGTH('w) = 2 * 2 ^ (LENGTH('w) - 1)"
    by (metis One_nat_def len_gt_0 power_Suc Suc_pred)
  have "sint (min_error :: 'w word) = (- 4096 + 2 ^ (LENGTH('w) - 1)) mod 2 ^ LENGTH('w) - 2 ^ (LENGTH('w) - 1)"
    by (simp only: min_error_of_int int_word_sint)
  also have "(- 4096 + 2 ^ (LENGTH('w) - 1)) mod 2 ^ LENGTH('w) = - 4096 + (2::int) ^ (LENGTH('w) - 1)"
    using le two by (intro mod_pos_pos_trivial) auto
  finally show ?thesis by simp
qed

lemma syscall_has_value_iff:
  fixes m :: "'w::len word"
  assumes "12 < LENGTH('w)"
  shows "syscall_has_value m \<longleftrightarrow> 2 ^ LENGTH('w) - 4096 \<le> uint m"
proof -
  have "m \<le> max_error" by (simp add: max_error_def)
  then show ?thesis
    using assms by (simp add: syscall_has_value_def word_le_def [of min_error] uint_min_error)
qed

lemma syscall_has_value_signed_iff:
  fixes m :: "'w::len word"
  assumes "12 < LENGTH('w)"
  shows "syscall_has_value_signed m \<longleftrightarrow> - 4096 \<le> sint m \<and> sint m < 0"
  using assms by (auto simp: syscall_has_value_signed_def sint_min_error max_error_def)

lemma uint_of_sint:
  fixes m :: "'w::len word"
  shows "uint m = (if sint m < 0 then sint m + 2 ^ LENGTH('w) else sint m)"
proof -
  have two: "(2::int) ^ LENGTH('w) = 2 * 2 ^ (LENGTH('w) - 1)"
    by (metis One_nat_def len_gt_0 power_Suc Suc_pred)
  have "- (2 ^ (LENGTH('w) - 1)) \<le> sint m" "sint m < 2 ^ (LENGTH('w) - 1)"
    by (simp_all add: sint_greater_eq sint_less)
  moreover have "uint m = sint m mod 2 ^ LENGTH('w)"
    by (simp add: uint_sint take_bit_eq_mod)
  moreover have "(sint m + 2 ^ LENGTH('w)) mod 2 ^ LENGTH('w) = sint m mod 2 ^ LENGTH('w)"
    by simp
  ultimately show ?thesis
    using two by (smt (verit) mod_pos_pos_trivial)
qed

text \<open>
  For every storage width of at least 13 bits (the code instantiates 32 and 64) the signed and
  the unsigned reading of \<open>result<syscall<T>>::has_value\<close> agree, and both say that the raw value
  lies in the kernel's error band -4096..-1; so \<open>has_value\<close> is true exactly of the error returns.
\<close>

lemma syscall_has_value_error_band:
  fixes m :: "'w::len word"
  assumes "12 < LENGTH('w)"
  shows "syscall_has_value_signed m = syscall_has_value m
    \<and> (syscall_has_value m \<longleftrightarrow> - 4096 \<le> sint m \<and> sint m \<le> - 1)"
proof -
  have "- (2 ^ (LENGTH('w) - 1)) \<le> sint m" "sint m < 2 ^ (LENGTH('w) - 1)"
    by (simp_all add: sint_greater_eq sint_less)
  moreover have "(2::int) ^ 12 \<le> 2 ^ (LENGTH('w) - 1)"
    using assms by (intro power_increasing) auto
  moreover have two: "(2::int) ^ LENGTH('w) = 2 * 2 ^ (LENGTH('w) - 1)"
    by (metis One_nat_def len_gt_0 power_Suc Suc_pred)
  ultimately show ?thesis
    using assms by (auto simp: syscall_has_value_signed_iff syscall_has_value_iff uint_of_sint)
qed

lemma syscall_has_value_error_band_witness:
  "syscall_has_value_signed (- 4 :: 64 word) = syscall_has_value (- 4 :: 64 word)
    \<and> (syscall_has_value (- 4 :: 64 word) \<longleftrightarrow> - 4096 \<le> sint (- 4 :: 64 word) \<and> sint (- 4 :: 64 word) \<le> - 1)"
  by (rule syscall_has_value_error_band) simp

section \<open>Lemmas: what a result stores, and what its queries say\<close>

text \<open>The outcome a result stands for: an error code when it is not 0, the member otherwise.\<close>

definition stored :: "'a result \<Rightarrow> c_int + 'a option" where
  "stored r = (if res_first r = 0 then Inr (res_second r) else Inl (res_first r))"

lemma from_error_cases:
  "from_error debug dc e =
     (if dc \<or> \<not> debug \<or> e \<noteq> 0 then Inr \<lparr>res_first = e, res_second = None\<rparr> else Inl Assert_failed)"
  by (simp add: from_error_def cxx_assert_def)

lemma has_value_from_value [simp]: "\<not> has_value (from_value v)"
  by (simp add: has_value_def from_value_def)

lemma has_error_from_value [simp]: "has_error (from_value v)"
  by (simp add: has_error_def from_value_def)

lemma error_from_value [simp]: "error (from_value v) = 0"
  by (simp add: error_def from_value_def)

lemma has_error_iff_not_has_value: "has_error r \<longleftrightarrow> \<not> has_value r"
  by (simp add: has_error_def has_value_def)

lemma has_value_iff_stored_error: "has_value r \<longleftrightarrow> isl (stored r)"
  by (simp add: has_value_def stored_def)

lemma void_queries [simp]:
  "void_has_error (void_from_error e) \<longleftrightarrow> e = 0"
  "void_has_error void_from_value"
  "void_error (void_from_error e) = e"
  by (simp_all add: void_has_error_def void_has_value_def void_from_error_def void_from_value_def
      void_error_def)

text \<open>
  The queries of \<open>result<T>\<close> are the exact inverse of the outcome stored: \<open>has_value()\<close> holds
  of the results that store an error and of no other, so a result built by \<open>from_value\<close> reports
  an error with code 0, and one built by \<open>from_error\<close> from a code that is not 0 reports a value.
\<close>

lemma result_queries_inverted:
  fixes r :: "'a result" and v :: 'a
  assumes "e \<noteq> 0"
  shows "(has_value r \<longleftrightarrow> isl (stored r)) \<and> (has_error r \<longleftrightarrow> \<not> isl (stored r))
   \<and> stored (from_value v) = Inr (Some v)
   \<and> \<not> has_value (from_value v) \<and> has_error (from_value v) \<and> error (from_value v) = 0
   \<and> (\<exists>re :: 'a result. from_error debug dc e = Inr re \<and> stored re = Inl e
            \<and> has_value re \<and> \<not> has_error re \<and> error re = e)"
  using assms
  by (simp add: from_error_cases has_value_iff_stored_error has_error_iff_not_has_value error_def)
    (simp add: stored_def from_value_def)

lemma result_queries_inverted_witness:
  "has_error (from_value (7::nat))
   \<and> (\<exists>re :: nat result. from_error True False 9 = Inr re \<and> stored re = Inl 9
            \<and> has_value re \<and> \<not> has_error re \<and> error re = 9)"
  using result_queries_inverted [of 9 "from_value 7" "7::nat" True False] by simp

text \<open>
  Reading, moving and destroying a result. In a release build \<open>value()\<close> gives back the value
  stored by \<open>from_value\<close>, in a debug build its assertion fails; on a result that stores an error
  it reads an uninitialised member in either build. The move constructor drops the value of a
  result that has one and moves an uninitialised member out of a result that stores an error, and
  the destructor destroys no value at all.
\<close>

lemma result_value_lifecycle:
  fixes re :: "'a result" and v :: 'a
  assumes "e \<noteq> 0" and "from_error debug dc e = Inr re"
  shows "result_value False (from_value v) = Inr v
   \<and> result_value True (from_value v) = Inl Assert_failed
   \<and> result_value debug re = Inl Undefined
   \<and> result_move debug (from_value v) = Inr \<lparr>res_first = 0, res_second = None\<rparr>
   \<and> result_move debug re = Inl Undefined
   \<and> result_destroy (from_value v) = None \<and> result_destroy re = None"
proof -
  have re: "re = \<lparr>res_first = e, res_second = None\<rparr>"
    using assms by (simp add: from_error_cases)
  have hv: "has_value re"
    using assms(1) by (simp add: re has_value_def)
  then show ?thesis
    by (simp add: result_value_def result_move_def result_destroy_def union_destroy_def
        read_member_def)
      (simp add: re from_value_def read_member_def)
qed

lemma result_value_lifecycle_witness:
  "result_value False (from_value (5::nat)) = Inr 5
   \<and> result_value True (from_value (5::nat)) = Inl Assert_failed
   \<and> result_move True (\<lparr>res_first = 2, res_second = None\<rparr> :: nat result) = Inl Undefined"
  using result_value_lifecycle [of 2 True True "\<lparr>res_first = 2, res_second = None\<rparr>" "5::nat"]
  by (simp add: from_error_def)

end
