(* ===== verification/Clamp.thy ===== *)
theory Clamp
  imports Prelude
begin

text \<open>
  \<open>include/tcx/utilities/clamp.hpp\<close> and \<open>nonbool_integer.hpp\<close>. The two templates are generic in the
  integer types, so an integer type is a value here: its signedness and its width. A conversion
  between integer types is modular, as C++20 defines it; \<open>std::clamp\<close> is undefined when its lower
  bound exceeds its upper bound.
\<close>

record int_type =
  is_signed :: bool
  bits :: nat

definition int_min :: "int_type \<Rightarrow> int" where
  "int_min t = (if is_signed t then - (2 ^ (bits t - 1)) else 0)"

definition int_max :: "int_type \<Rightarrow> int" where
  "int_max t = (if is_signed t then 2 ^ (bits t - 1) - 1 else 2 ^ bits t - 1)"

text \<open>Conversion to an integer type: the value congruent modulo \<open>2 ^ bits\<close> that the type holds.\<close>

definition int_cast :: "int_type \<Rightarrow> int \<Rightarrow> int" where
  "int_cast t x = (x - int_min t) mod 2 ^ bits t + int_min t"

definition std_clamp :: "int \<Rightarrow> int \<Rightarrow> int \<Rightarrow> int cxx" where
  "std_clamp v lo hi =
     (if hi < lo then Inl Undefined else Inr (if v < lo then lo else if hi < v then hi else v))"

text \<open>\<open>clamp<Result>(I integral, Result low, Result high)\<close>: the bounds are converted to \<open>I\<close>.\<close>

definition clamp_to :: "int_type \<Rightarrow> int_type \<Rightarrow> int \<Rightarrow> int \<Rightarrow> int \<Rightarrow> int cxx" where
  "clamp_to R I integral low high =
     cxx_bind (std_clamp integral (int_cast I low) (int_cast I high)) (\<lambda>x. Inr (int_cast R x))"

text \<open>\<open>clamp<Result>(I integral)\<close>.\<close>

definition clamp :: "int_type \<Rightarrow> int_type \<Rightarrow> int \<Rightarrow> int cxx" where
  "clamp R I integral = clamp_to R I integral (int_min R) (int_max R)"

definition unsigned_t :: int_type where
  "unsigned_t = \<lparr>is_signed = False, bits = 32\<rparr>"

definition int_t :: int_type where
  "int_t = \<lparr>is_signed = True, bits = 32\<rparr>"

definition size_t :: int_type where
  "size_t = \<lparr>is_signed = False, bits = 64\<rparr>"

section \<open>Lemmas: ranges and conversions\<close>

definition in_type :: "int_type \<Rightarrow> int \<Rightarrow> bool" where
  "in_type t x \<longleftrightarrow> int_min t \<le> x \<and> x \<le> int_max t"

lemma int_max_min: "0 < bits t \<Longrightarrow> int_max t = int_min t + 2 ^ bits t - 1"
  by (cases "bits t") (auto simp: int_max_def int_min_def)

lemma int_cast_id: "0 < bits t \<Longrightarrow> in_type t x \<Longrightarrow> int_cast t x = x"
  by (simp add: int_cast_def in_type_def int_max_min)

lemma int_cast_in_type: "0 < bits t \<Longrightarrow> in_type t (int_cast t x)"
  by (simp add: int_cast_def in_type_def int_max_min)

lemma int_min_le_max: "0 < bits t \<Longrightarrow> int_min t \<le> int_max t"
  by (simp add: int_max_min)

lemma in_type_max_min:
  assumes "0 < bits R" and "in_type I (int_min R)" and "in_type I (int_max R)"
  shows "in_type R (max (int_min R) (min (int_max R) x))"
  using int_min_le_max [OF assms(1)] by (auto simp: in_type_def)

lemma clamp_to_range:
  assumes "0 < bits R" and "0 < bits I"
    and "in_type I (int_min R)" and "in_type I (int_max R)"
  shows "clamp R I x = Inr (max (int_min R) (min (int_max R) x))"
proof -
  let ?y = "max (int_min R) (min (int_max R) x)"
  have le: "int_min R \<le> int_max R"
    using assms(1) by (rule int_min_le_max)
  have y: "in_type R ?y"
    using assms by (intro in_type_max_min)
  have "std_clamp x (int_min R) (int_max R) = Inr ?y"
    using le by (auto simp: std_clamp_def)
  then have "clamp R I x = Inr (int_cast R ?y)"
    using assms by (simp add: clamp_def clamp_to_def int_cast_id)
  with y assms(1) show ?thesis
    by (simp add: int_cast_id)
qed

lemma clamp_length:
  "0 \<le> n \<Longrightarrow> clamp unsigned_t size_t n = Inr (min n (2 ^ 32 - 1))"
  by (simp add: clamp_def clamp_to_def std_clamp_def int_cast_def int_min_def int_max_def
      unsigned_t_def size_t_def)

section \<open>When the template is defined\<close>

text \<open>The pairs of types whose converted bounds cross.\<close>

definition bounds_cross :: "int_type \<Rightarrow> int_type \<Rightarrow> bool" where
  "bounds_cross R I \<longleftrightarrow>
     (if is_signed I then bits I < bits R \<or> (\<not> is_signed R \<and> bits I = bits R)
      else is_signed R \<and> bits R \<le> bits I)"

lemma int_cast_dvd:
  assumes "2 ^ bits I dvd d"
  shows "int_cast I (d + x) = int_cast I x"
proof -
  obtain k where "d = 2 ^ bits I * k"
    using assms by (elim dvdE)
  then have "d + x - int_min I = (x - int_min I) + k * 2 ^ bits I"
    by (simp add: algebra_simps)
  then have "(d + x - int_min I) mod 2 ^ bits I = (x - int_min I) mod 2 ^ bits I"
    by (metis mod_mult_self1)
  then show ?thesis
    by (simp add: int_cast_def)
qed

lemma two_power_Suc_minus: "0 < n \<Longrightarrow> (2::int) ^ n = 2 * 2 ^ (n - 1)"
  by (cases n) simp_all

lemma int_cast_zero: "0 < bits t \<Longrightarrow> int_cast t 0 = 0"
  by (intro int_cast_id) (auto simp: in_type_def int_min_def int_max_def)

lemma int_cast_minus_one:
  assumes "0 < bits t"
  shows "int_cast t (- 1) = (if is_signed t then - 1 else int_max t)"
proof (cases "is_signed t")
  case True
  have "(1::int) \<le> 2 ^ (bits t - 1)" by simp
  then have "in_type t (- 1)"
    using True unfolding in_type_def int_min_def int_max_def by (simp only: if_True) linarith
  with True assms show ?thesis
    by (simp add: int_cast_id)
next
  case False
  have "int_cast t (- 1) = int_cast t (- (2 ^ bits t) + int_max t)"
    using False by (simp add: int_max_def)
  also have "\<dots> = int_cast t (int_max t)"
    by (rule int_cast_dvd) simp
  also have "\<dots> = int_max t"
    using assms by (intro int_cast_id) (auto simp: in_type_def int_min_le_max)
  finally show ?thesis
    using False by simp
qed

lemma int_cast_wide_bounds:
  assumes "0 < bits I" and "bits I < bits R \<or> (\<not> is_signed R \<and> bits I \<le> bits R)"
  shows "int_cast I (int_min R) = 0" and "int_cast I (int_max R) = int_cast I (- 1)"
proof -
  let ?d = "if is_signed R then 2 ^ (bits R - 1) else 2 ^ bits R :: int"
  have d: "2 ^ bits I dvd ?d"
    using assms(2) by (auto intro: le_imp_power_dvd)
  have "int_cast I (int_min R) = int_cast I 0"
    using int_cast_dvd [of I "- ?d" 0] d by (auto simp: int_min_def)
  then show "int_cast I (int_min R) = 0"
    using assms(1) by (simp add: int_cast_zero)
  show "int_cast I (int_max R) = int_cast I (- 1)"
    using int_cast_dvd [of I ?d "- 1"] d by (auto simp: int_max_def)
qed

lemma clamp_crossed_signed:
  assumes "0 < bits I" and "is_signed I" and "bounds_cross R I"
  shows "clamp R I x = Inl Undefined"
  using assms int_cast_wide_bounds [of I R]
  by (auto simp: clamp_def clamp_to_def std_clamp_def bounds_cross_def int_cast_minus_one)

lemma clamp_crossed_unsigned:
  assumes "0 < bits R" and "0 < bits I" and "\<not> is_signed I" and "bounds_cross R I"
  shows "clamp R I x = Inl Undefined"
proof -
  have R: "is_signed R" "bits R \<le> bits I"
    using assms by (auto simp: bounds_cross_def)
  have le: "(2::int) ^ bits R \<le> 2 ^ bits I"
    using R(2) by (simp add: power_increasing)
  have half: "(2::int) ^ bits R = 2 * 2 ^ (bits R - 1)"
    using assms(1) by (rule two_power_Suc_minus)
  have pos: "(0::int) < 2 ^ (bits R - 1)"
    by simp
  have "int_cast I (int_min R) = int_cast I (2 ^ bits I + int_min R)"
    by (rule int_cast_dvd [symmetric]) simp
  also have "\<dots> = 2 ^ bits I + int_min R"
    using assms R le half pos
    by (intro int_cast_id) (simp_all add: in_type_def int_min_def int_max_def)
  finally have lo: "int_cast I (int_min R) = 2 ^ bits I - 2 ^ (bits R - 1)"
    using R by (simp add: int_min_def)
  have "in_type I (int_max R)"
    using assms(3) R(1) le half pos unfolding in_type_def int_min_def int_max_def
    by (simp only: if_True if_False) linarith
  then have hi: "int_cast I (int_max R) = 2 ^ (bits R - 1) - 1"
    using assms(2) R by (simp add: int_cast_id int_max_def)
  show ?thesis
    using lo hi le half by (simp add: clamp_def clamp_to_def std_clamp_def)
qed

lemma clamp_identity:
  assumes "0 < bits R" and "0 < bits I" and "\<not> is_signed I" and "bits I < bits R"
    and "in_type I x"
  shows "clamp R I x = Inr x" and "in_type R x"
proof -
  show R: "in_type R x"
  proof -
    have "(2::int) ^ bits I \<le> 2 ^ (bits R - 1)" "(2::int) ^ bits I \<le> 2 ^ bits R"
      using assms(4) by (simp_all add: power_increasing)
    moreover have "(0::int) \<le> 2 ^ (bits R - 1)" by simp
    ultimately show ?thesis
      using assms(3,5) unfolding in_type_def int_min_def int_max_def
      by (cases "is_signed R"; simp only: if_True if_False; linarith)
  qed
  show "clamp R I x = Inr x"
    using assms R int_cast_wide_bounds [of I R]
    by (auto simp: clamp_def clamp_to_def std_clamp_def int_cast_minus_one int_cast_id)
      (auto simp: in_type_def int_min_def)
qed

lemma in_type_bounds:
  assumes "0 < bits R" and "0 < bits I" and "\<not> bounds_cross R I" and "is_signed I \<or> bits R \<le> bits I"
  shows "in_type I (int_min R)" and "in_type I (int_max R)"
proof -
  have one: "(1::int) \<le> 2 ^ (bits R - 1)" "(1::int) \<le> 2 ^ (bits I - 1)" "(1::int) \<le> 2 ^ bits R"
    by simp_all
  have su: "bits R \<le> bits I - 1" if "is_signed I" "\<not> is_signed R"
    using assms(3) that by (simp add: bounds_cross_def) linarith
  have ss: "bits R - 1 \<le> bits I - 1" if "is_signed I" "is_signed R"
    using assms(3) that by (simp add: bounds_cross_def)
  have "in_type I (int_min R) \<and> in_type I (int_max R)"
  proof (cases "is_signed I")
    case I: True
    show ?thesis
    proof (cases "is_signed R")
      case True
      from power_increasing [OF ss [OF I True], of "2 :: int"] one I True show ?thesis
        unfolding in_type_def int_min_def int_max_def by (simp only: if_True) linarith
    next
      case False
      from power_increasing [OF su [OF I False], of "2 :: int"] one I False show ?thesis
        unfolding in_type_def int_min_def int_max_def by (simp only: if_True if_False) linarith
    qed
  next
    case I: False
    then have R: "\<not> is_signed R" and le: "bits R \<le> bits I"
      using assms(3,4) by (auto simp: bounds_cross_def)
    from power_increasing [OF le, of "2 :: int"] one I R show ?thesis
      unfolding in_type_def int_min_def int_max_def by (simp only: if_False) linarith
  qed
  then show "in_type I (int_min R)" and "in_type I (int_max R)"
    by auto
qed

text \<open>
  C34: the complete behaviour of \<open>clamp<Result>(I)\<close> on every pair of integer types: it is undefined
  exactly when the bounds of \<open>Result\<close> cross on conversion to \<open>I\<close> (for example between \<open>int\<close> and
  \<open>unsigned\<close>, in either direction), and for every other pair it is the clamp to the range of
  \<open>Result\<close>.
\<close>

theorem clamp_complete:
  assumes "0 < bits R" and "0 < bits I" and "in_type I x"
  shows "clamp R I x =
    (if bounds_cross R I then Inl Undefined else Inr (max (int_min R) (min (int_max R) x)))"
proof (cases "bounds_cross R I")
  case True
  then show ?thesis
    using assms clamp_crossed_signed [of I R x] clamp_crossed_unsigned [of R I x] by auto
next
  case cross: False
  show ?thesis
  proof (cases "is_signed I \<or> bits R \<le> bits I")
    case True
    then show ?thesis
      using cross assms clamp_to_range [of R I x] in_type_bounds [of R I] by simp
  next
    case False
    then have "clamp R I x = Inr x" "in_type R x"
      using assms clamp_identity [of R I x] by auto
    then show ?thesis
      using cross by (simp add: in_type_def)
  qed
qed

theorem clamp_complete_witness:
  "clamp unsigned_t int_t 5 = Inl Undefined \<and> clamp int_t unsigned_t 5 = Inl Undefined
   \<and> clamp size_t unsigned_t 5 = Inr 5"
  using clamp_complete [of unsigned_t int_t 5] clamp_complete [of int_t unsigned_t 5]
    clamp_complete [of size_t unsigned_t 5]
  by (simp add: unsigned_t_def int_t_def size_t_def in_type_def int_min_def int_max_def
      bounds_cross_def)

end
