(* ===== verification/Task_Queue.thy ===== *)
theory Task_Queue
  imports Prelude
begin

text \<open>
  The two interfaces through which the components of the library meet.

  \<open>task_queue\<close> is the contract of a container of callables: \<open>std::queue\<close> in
  \<open>unsynchronized_execution_context\<close>, \<open>tbb::concurrent_queue\<close> in
  \<open>synchronized_execution_context\<close>, \<open>moodycamel::ConcurrentQueue\<close> in \<open>basic_semaphore\<close>. The last
  two are third-party: the components that use them take the operations as arguments, and rely on
  nothing but this contract, which says that elements are neither lost, invented nor duplicated
  and says nothing about their order.

  \<open>executor\<close> is what every asynchronous operation asks of an execution context: \<open>post\<close> adds one
  callable to those waiting to run.
\<close>

locale task_queue =
  fixes put :: "'f \<Rightarrow> 'q \<Rightarrow> 'q"
    and take_one :: "'q \<Rightarrow> ('f \<times> 'q) option"
    and items :: "'q \<Rightarrow> 'f multiset"
  assumes items_put: "items (put f q) = add_mset f (items q)"
    and take_None: "take_one q = None \<Longrightarrow> items q = {#}"
    and take_Some: "take_one q = Some (f, q') \<Longrightarrow> items q = add_mset f (items q')"
begin

lemma take_None_iff: "take_one q = None \<longleftrightarrow> items q = {#}"
  using take_None take_Some by (cases "take_one q") force+

lemma take_Some_size: "take_one q = Some (f, q') \<Longrightarrow> size (items q) = Suc (size (items q'))"
  by (simp add: take_Some)

lemma take_nonempty: "items q \<noteq> {#} \<Longrightarrow> \<exists>f q'. take_one q = Some (f, q')"
  using take_None by (cases "take_one q") auto

lemma take_Some_in: "take_one q = Some (f, q') \<Longrightarrow> f \<in># items q"
  by (simp add: take_Some)

end

locale executor =
  fixes post :: "'f \<Rightarrow> 'e \<Rightarrow> 'e"
    and pending :: "'e \<Rightarrow> 'f multiset"
  assumes pending_post: "pending (post f e) = add_mset f (pending e)"
begin

lemma pending_post_all: "pending (fold post fs e) = mset fs + pending e"
  by (induction fs arbitrary: e) (simp_all add: pending_post)

lemma size_pending_post: "size (pending (post f e)) = Suc (size (pending e))"
  by (simp add: pending_post)

end

text \<open>An executor that also promises the order in which its callables are taken.\<close>

locale fifo_executor = executor post pending
  for post :: "'f \<Rightarrow> 'e \<Rightarrow> 'e" and pending :: "'e \<Rightarrow> 'f multiset" +
  fixes order :: "'e \<Rightarrow> 'f list"
  assumes pending_order: "pending e = mset (order e)"
    and order_post: "order (post f e) = order e @ [f]"
begin

lemma order_post_all: "order (fold post fs e) = order e @ fs"
  by (induction fs arbitrary: e) (simp_all add: order_post)

end

section \<open>std::queue\<close>

text \<open>
  \<open>std::queue\<close> is the language's own library: a list whose head is \<open>front()\<close>. \<open>emplace\<close> adds at
  the end; reading \<open>front()\<close> or calling \<open>pop()\<close> on an empty queue is undefined.
\<close>

definition queue_emplace :: "'f \<Rightarrow> 'f list \<Rightarrow> 'f list" where
  "queue_emplace f q = q @ [f]"

definition queue_empty :: "'f list \<Rightarrow> bool" where
  "queue_empty q \<longleftrightarrow> q = []"

definition queue_front :: "'f list \<Rightarrow> 'f cxx" where
  "queue_front q = (case q of [] \<Rightarrow> Inl Undefined | f # _ \<Rightarrow> Inr f)"

definition queue_pop :: "'f list \<Rightarrow> 'f list cxx" where
  "queue_pop q = (case q of [] \<Rightarrow> Inl Undefined | _ # q' \<Rightarrow> Inr q')"

definition queue_take :: "'f list \<Rightarrow> ('f \<times> 'f list) option" where
  "queue_take q = (case q of [] \<Rightarrow> None | f # q' \<Rightarrow> Some (f, q'))"

lemma queue_take_simps [simp]:
  "queue_take [] = None" "queue_take (f # q) = Some (f, q)"
  by (simp_all add: queue_take_def)

interpretation std_queue: task_queue queue_emplace queue_take mset
  by unfold_locales (auto simp: queue_emplace_def queue_take_def split: list.splits)

end
