(* ===== verification/Execution_Context.thy ===== *)
theory Execution_Context
  imports Task_Queue
begin

text \<open>
  \<open>unsynchronized_execution_context.hpp\<close>, \<open>synchronized_execution_context.hpp\<close> and
  \<open>src/execution_context.cpp\<close>: the two queues of callables and their \<open>run()\<close> loops.

  What a callable does is a parameter \<open>exec\<close>: it may change the context it runs on (by calling
  \<open>post\<close>, or \<open>run\<close> again) and the rest of the world, and may end by an exception. A \<open>run()\<close> whose
  callables keep posting does not return, so the loops are partial: \<open>None\<close> is "does not return".
\<close>

type_synonym ('f, 'q, 'w) exec = "'f \<Rightarrow> 'q \<times> 'w \<Rightarrow> ('q \<times> 'w) \<times> nat option"

section \<open>unsynchronized_execution_context\<close>

record 'f unsync_context =
  m_function_queue :: "'f list"

definition uec_init :: "'f unsync_context" where
  "uec_init = \<lparr>m_function_queue = []\<rparr>"

definition uec_post :: "'f \<Rightarrow> 'f unsync_context \<Rightarrow> 'f unsync_context" where
  "uec_post f ctx = ctx\<lparr>m_function_queue := queue_emplace f (m_function_queue ctx)\<rparr>"

definition uec_pending :: "'f unsync_context \<Rightarrow> nat" where
  "uec_pending ctx = length (m_function_queue ctx)"

text \<open>The loop of \<open>run()\<close>: \<open>front\<close>, \<open>pop\<close>, call, count.\<close>

partial_function (option) uec_run_loop ::
  "('f, 'f unsync_context, 'w) exec \<Rightarrow> nat \<Rightarrow> 'f unsync_context \<Rightarrow> 'w
     \<Rightarrow> (('f unsync_context \<times> 'w) \<times> nat cxx) option" where
  "uec_run_loop exec n ctx w =
     (if queue_empty (m_function_queue ctx) then Some ((ctx, w), Inr n)
      else case queue_front (m_function_queue ctx) of
        Inl e \<Rightarrow> Some ((ctx, w), Inl e)
      | Inr f \<Rightarrow>
          (case queue_pop (m_function_queue ctx) of
            Inl e \<Rightarrow> Some ((ctx, w), Inl e)
          | Inr q \<Rightarrow>
              (case exec f (ctx\<lparr>m_function_queue := q\<rparr>, w) of
                ((ctx', w'), Some x) \<Rightarrow> Some ((ctx', w'), Inl (Callback_exception x))
              | ((ctx', w'), None) \<Rightarrow> uec_run_loop exec (n + 1) ctx' w')))"

definition uec_run ::
  "('f, 'f unsync_context, 'w) exec \<Rightarrow> 'f unsync_context \<Rightarrow> 'w
     \<Rightarrow> (('f unsync_context \<times> 'w) \<times> nat cxx) option" where
  "uec_run exec ctx w = uec_run_loop exec 0 ctx w"

section \<open>synchronized_execution_context, one thread\<close>

text \<open>
  The queue is \<open>tbb::concurrent_queue\<close>, a parameter: \<open>emplace\<close> and \<open>try_pop\<close>. The callable popped
  is held in a variable that outlives the iteration.
\<close>

definition sec_post :: "('f \<Rightarrow> 'q \<Rightarrow> 'q) \<Rightarrow> 'f \<Rightarrow> 'q \<Rightarrow> 'q" where
  "sec_post emplace f q = emplace f q"

partial_function (option) sec_run_loop ::
  "('q \<Rightarrow> ('f \<times> 'q) option) \<Rightarrow> ('f, 'q, 'w) exec \<Rightarrow> nat \<Rightarrow> 'q \<Rightarrow> 'w
     \<Rightarrow> (('q \<times> 'w) \<times> nat cxx) option" where
  "sec_run_loop try_pop exec n q w =
     (case try_pop q of
        None \<Rightarrow> Some ((q, w), Inr n)
      | Some (f, q') \<Rightarrow>
          (case exec f (q', w) of
            ((q'', w'), Some x) \<Rightarrow> Some ((q'', w'), Inl (Callback_exception x))
          | ((q'', w'), None) \<Rightarrow> sec_run_loop try_pop exec (n + 1) q'' w'))"

definition sec_run ::
  "('q \<Rightarrow> ('f \<times> 'q) option) \<Rightarrow> ('f, 'q, 'w) exec \<Rightarrow> 'q \<Rightarrow> 'w
     \<Rightarrow> (('q \<times> 'w) \<times> nat cxx) option" where
  "sec_run try_pop exec q w = sec_run_loop try_pop exec 0 q w"

section \<open>The contexts as executors\<close>

definition uec_items :: "'f unsync_context \<Rightarrow> 'f multiset" where
  "uec_items ctx = mset (m_function_queue ctx)"

interpretation uec: fifo_executor uec_post uec_items m_function_queue
  by unfold_locales (simp_all add: uec_post_def uec_items_def queue_emplace_def)

interpretation sec_std: fifo_executor "sec_post queue_emplace" mset "\<lambda>q. q"
  by unfold_locales (simp_all add: sec_post_def queue_emplace_def)

context task_queue
begin

lemma sec_executor: "executor (sec_post put) items"
  by unfold_locales (simp add: sec_post_def items_put)

end

section \<open>Lemmas: the two loops are one\<close>

lemma uec_loop_empty:
  "m_function_queue ctx = [] \<Longrightarrow> uec_run_loop exec n ctx w = Some ((ctx, w), Inr n)"
  by (simp add: uec_run_loop.simps queue_empty_def)

lemma uec_loop_Cons:
  "m_function_queue ctx = f # q \<Longrightarrow>
   uec_run_loop exec n ctx w =
     (case exec f (ctx\<lparr>m_function_queue := q\<rparr>, w) of
        ((ctx', w'), Some x) \<Rightarrow> Some ((ctx', w'), Inl (Callback_exception x))
      | ((ctx', w'), None) \<Rightarrow> uec_run_loop exec (n + 1) ctx' w')"
  by (subst uec_run_loop.simps) (simp add: queue_empty_def queue_front_def queue_pop_def)

text \<open>Taking a callable from the context's own queue.\<close>

definition uec_take :: "'f unsync_context \<Rightarrow> ('f \<times> 'f unsync_context) option" where
  "uec_take ctx =
     (case m_function_queue ctx of [] \<Rightarrow> None | f # q \<Rightarrow> Some (f, ctx\<lparr>m_function_queue := q\<rparr>))"

interpretation uec_queue: task_queue uec_post uec_take uec_items
  by unfold_locales
    (auto simp: uec_post_def uec_take_def uec_items_def queue_emplace_def split: list.splits)

lemma uec_loop_unfold:
  "uec_run_loop exec n ctx w =
     (case uec_take ctx of
        None \<Rightarrow> Some ((ctx, w), Inr n)
      | Some (f, ctx') \<Rightarrow>
          (case exec f (ctx', w) of
            ((ctx'', w'), Some x) \<Rightarrow> Some ((ctx'', w'), Inl (Callback_exception x))
          | ((ctx'', w'), None) \<Rightarrow> uec_run_loop exec (n + 1) ctx'' w'))"
  by (cases "m_function_queue ctx") (simp_all add: uec_loop_empty uec_loop_Cons uec_take_def)

lemma sec_loop_of_uec_loop:
  assumes "uec_run_loop exec n ctx w = Some r"
  shows "sec_run_loop uec_take exec n ctx w = Some r"
proof (rule uec_run_loop.raw_induct
    [where P = "\<lambda>exec n ctx w r. sec_run_loop uec_take exec n ctx w = Some r", OF _ assms])
  fix loop exec n ctx w r
  assume IH: "\<And>exec n ctx w r. loop exec n ctx w = Some r
      \<Longrightarrow> sec_run_loop uec_take exec n ctx w = Some r"
    and eq: "(if queue_empty (m_function_queue ctx) then Some ((ctx, w), Inr n)
      else case queue_front (m_function_queue ctx) of
        Inl e \<Rightarrow> Some ((ctx, w), Inl e)
      | Inr f \<Rightarrow>
          (case queue_pop (m_function_queue ctx) of
            Inl e \<Rightarrow> Some ((ctx, w), Inl e)
          | Inr q \<Rightarrow>
              (case exec f (ctx\<lparr>m_function_queue := q\<rparr>, w) of
                ((ctx', w'), Some x) \<Rightarrow> Some ((ctx', w'), Inl (Callback_exception x))
              | ((ctx', w'), None) \<Rightarrow> loop exec (n + 1) ctx' w'))) = Some r"
  show "sec_run_loop uec_take exec n ctx w = Some r"
    using eq
    by (subst sec_run_loop.simps, cases "m_function_queue ctx")
      (auto simp: uec_take_def queue_empty_def queue_front_def queue_pop_def
        split: prod.splits option.splits intro!: IH)
qed

lemma uec_loop_of_sec_loop:
  assumes "sec_run_loop uec_take exec n ctx w = Some r"
  shows "uec_run_loop exec n ctx w = Some r"
proof -
  have "take = uec_take \<Longrightarrow> uec_run_loop exec n ctx w = Some r"
    if "sec_run_loop take exec n ctx w = Some r" for take
  proof (rule sec_run_loop.raw_induct
      [where P = "\<lambda>take exec n ctx w r. take = uec_take \<longrightarrow> uec_run_loop exec n ctx w = Some r",
        OF _ that, THEN mp])
    fix loop take exec n ctx w r
    assume IH: "\<And>take exec n ctx w r. loop take exec n ctx w = Some r
        \<Longrightarrow> take = uec_take \<longrightarrow> uec_run_loop exec n ctx w = Some r"
      and eq: "(case take ctx of
        None \<Rightarrow> Some ((ctx, w), Inr n)
      | Some (f, q') \<Rightarrow>
          (case exec f (q', w) of
            ((q'', w'), Some x) \<Rightarrow> Some ((q'', w'), Inl (Callback_exception x))
          | ((q'', w'), None) \<Rightarrow> loop take exec (n + 1) q'' w')) = Some r"
    show "take = uec_take \<longrightarrow> uec_run_loop exec n ctx w = Some r"
      using eq
      by (subst uec_loop_unfold)
        (auto split: prod.splits option.splits dest!: IH)
  qed
  with assms show ?thesis by blast
qed

lemma uec_loop_eq_sec_loop: "uec_run_loop exec n ctx w = sec_run_loop uec_take exec n ctx w"
proof (cases "uec_run_loop exec n ctx w")
  case None
  then have "sec_run_loop uec_take exec n ctx w \<noteq> Some r" for r
    using uec_loop_of_sec_loop [of exec n ctx w r] by auto
  with None show ?thesis by (cases "sec_run_loop uec_take exec n ctx w") auto
next
  case (Some r)
  then show ?thesis by (simp add: sec_loop_of_uec_loop)
qed

section \<open>Callables that only post\<close>

text \<open>
  The callables the library itself creates do one thing to the context they run on: they post
  further callables. \<open>ps f w\<close> are the callables \<open>f\<close> posts, in order, \<open>eff f w\<close> the world it leaves,
  \<open>exn f w\<close> the exception it ends with, if any.
\<close>

definition posting_exec ::
  "('f \<Rightarrow> 'q \<Rightarrow> 'q) \<Rightarrow> ('f \<Rightarrow> 'w \<Rightarrow> 'f list) \<Rightarrow> ('f \<Rightarrow> 'w \<Rightarrow> 'w) \<Rightarrow> ('f \<Rightarrow> 'w \<Rightarrow> nat option)
     \<Rightarrow> ('f, 'q, 'w) exec" where
  "posting_exec post ps eff exn f qw =
     ((fold post (ps f (snd qw)) (fst qw), eff f (snd qw)), exn f (snd qw))"

lemma sec_loop_Some_Inr:
  assumes "sec_run_loop tk exec n q w = Some ((q', w'), Inr k)"
  shows "tk q' = None \<and> n \<le> k"
proof -
  have "\<forall>q' w' k. r = ((q', w'), Inr k) \<longrightarrow> tk q' = None \<and> n \<le> k"
    if "sec_run_loop tk exec n q w = Some r" for r
  proof (rule sec_run_loop.raw_induct
      [where P = "\<lambda>tk exec n q w r. \<forall>q' w' k. r = ((q', w'), Inr k) \<longrightarrow> tk q' = None \<and> n \<le> k",
        OF _ that])
    fix loop tk exec q w r and n :: nat
    assume IH: "\<And>tk exec n q w r. loop tk exec n q w = Some r
        \<Longrightarrow> \<forall>q' w' k. r = ((q', w'), Inr k) \<longrightarrow> tk q' = None \<and> n \<le> k"
      and eq: "(case tk q of
        None \<Rightarrow> Some ((q, w), Inr n)
      | Some (f, q') \<Rightarrow>
          (case exec f (q', w) of
            ((q'', w'), Some x) \<Rightarrow> Some ((q'', w'), Inl (Callback_exception x))
          | ((q'', w'), None) \<Rightarrow> loop tk exec (n + 1) q'' w')) = Some r"
    show "\<forall>q' w' k. r = ((q', w'), Inr k) \<longrightarrow> tk q' = None \<and> n \<le> k"
    proof (cases "tk q")
      case None
      with eq show ?thesis by auto
    next
      case (Some fq)
      obtain f q1 where f: "tk q = Some (f, q1)" using Some by (cases fq) auto
      obtain q2 w2 e where e: "exec f (q1, w) = ((q2, w2), e)" by (metis prod.exhaust)
      show ?thesis
      proof (cases e)
        case None
        with eq f e have "loop tk exec (n + 1) q2 w2 = Some r" by simp
        then show ?thesis by (auto dest: IH)
      next
        case (Some x)
        with eq f e show ?thesis by auto
      qed
    qed
  qed
  with assms show ?thesis by blast
qed

context task_queue
begin

lemma items_put_all: "items (fold put fs q) = mset fs + items q"
  by (induction fs arbitrary: q) (simp_all add: items_put)

text \<open>
  When every callable posts only callables of a smaller rank, the multiset of the ranks waiting
  decreases with every call, so the loop returns.
\<close>

lemma ranks_decrease:
  fixes rank :: "'f \<Rightarrow> nat"
  assumes "take_one q = Some (f, q')" and "\<forall>p \<in> set fs. rank p < rank f"
  shows "(image_mset rank (items (fold put fs q')), image_mset rank (items q)) \<in> mult less_than"
proof -
  have "(image_mset rank (items q') + image_mset rank (mset fs),
         image_mset rank (items q') + {#rank f#}) \<in> mult less_than"
    using assms(2) by (intro one_step_implies_mult) auto
  then show ?thesis
    by (simp add: items_put_all take_Some [OF assms(1)] add.commute)
qed

lemma sec_loop_returns:
  fixes rank :: "'f \<Rightarrow> nat"
  assumes "\<forall>f w. \<forall>p \<in> set (ps f w). rank p < rank f"
  shows "\<exists>r. sec_run_loop take_one (posting_exec put ps eff exn) n q w = Some r"
proof -
  have wf: "wf (inv_image (mult (less_than :: nat rel)) (\<lambda>q. image_mset rank (items q)))"
    by (simp add: wf_mult)
  show ?thesis
  proof (induction q arbitrary: n w rule: wf_induct_rule [OF wf])
    case (1 q)
    show ?case
    proof (cases "take_one q")
      case None
      then show ?thesis by (simp add: sec_run_loop.simps)
    next
      case (Some fq)
      then obtain f q' where fq: "take_one q = Some (f, q')"
        by (cases fq) auto
      have "(image_mset rank (items (fold put (ps f w) q')), image_mset rank (items q)) \<in> mult less_than"
        using fq assms by (intro ranks_decrease) auto
      then obtain r where "sec_run_loop take_one (posting_exec put ps eff exn) (n + 1)
          (fold put (ps f w) q') (eff f w) = Some r"
        using "1.IH" by fastforce
      then show ?thesis
        by (subst sec_run_loop.simps) (cases "exn f w"; simp add: fq posting_exec_def)
    qed
  qed
qed

lemma sec_loop_drains:
  "sec_run_loop take_one exec n q w = Some ((q', w'), Inr k) \<Longrightarrow> items q' = {#} \<and> n \<le> k"
  by (drule sec_loop_Some_Inr) (simp add: take_None)

end

section \<open>Order\<close>

text \<open>
  The callables \<open>fs\<close> run one after the other from the world \<open>w\<close>: everything they post, and the
  world they leave; and whether one of them throws.
\<close>

fun run_all :: "('f \<Rightarrow> 'w \<Rightarrow> 'f list) \<Rightarrow> ('f \<Rightarrow> 'w \<Rightarrow> 'w) \<Rightarrow> 'f list \<Rightarrow> 'w \<Rightarrow> 'f list \<times> 'w" where
  "run_all ps eff [] w = ([], w)"
| "run_all ps eff (f # fs) w =
     (let (posted, w') = run_all ps eff fs (eff f w) in (ps f w @ posted, w'))"

fun none_throws :: "('f \<Rightarrow> 'w \<Rightarrow> 'w) \<Rightarrow> ('f \<Rightarrow> 'w \<Rightarrow> nat option) \<Rightarrow> 'f list \<Rightarrow> 'w \<Rightarrow> bool" where
  "none_throws eff exn [] w \<longleftrightarrow> True"
| "none_throws eff exn (f # fs) w \<longleftrightarrow> exn f w = None \<and> none_throws eff exn fs (eff f w)"

lemma uec_loop_batch:
  assumes "none_throws eff exn fs w"
  shows "uec_run_loop (posting_exec uec_post ps eff exn) n \<lparr>m_function_queue = fs @ gs\<rparr> w =
    (case run_all ps eff fs w of (posted, w') \<Rightarrow>
       uec_run_loop (posting_exec uec_post ps eff exn) (n + length fs)
         \<lparr>m_function_queue = gs @ posted\<rparr> w')"
  using assms
proof (induction fs arbitrary: gs n w)
  case Nil
  then show ?case by simp
next
  case (Cons f fs)
  have step: "fold uec_post ys \<lparr>m_function_queue = xs\<rparr> = \<lparr>m_function_queue = xs @ ys\<rparr>" for xs ys :: "'a list"
    by (induction ys arbitrary: xs) (simp_all add: uec_post_def queue_emplace_def)
  have "uec_run_loop (posting_exec uec_post ps eff exn) n \<lparr>m_function_queue = (f # fs) @ gs\<rparr> w =
     uec_run_loop (posting_exec uec_post ps eff exn) (n + 1)
       \<lparr>m_function_queue = fs @ (gs @ ps f w)\<rparr> (eff f w)"
    using Cons.prems by (subst uec_loop_Cons [where f = f and q = "fs @ gs"])
      (simp_all add: posting_exec_def step)
  also have "\<dots> = (case run_all ps eff fs (eff f w) of (posted, w') \<Rightarrow>
       uec_run_loop (posting_exec uec_post ps eff exn) (n + 1 + length fs)
         \<lparr>m_function_queue = (gs @ ps f w) @ posted\<rparr> w')"
    using Cons.prems by (intro Cons.IH) simp
  also have "\<dots> = (case run_all ps eff (f # fs) w of (posted, w') \<Rightarrow>
       uec_run_loop (posting_exec uec_post ps eff exn) (n + length (f # fs))
         \<lparr>m_function_queue = gs @ posted\<rparr> w')"
    by (simp split: prod.splits)
  finally show ?case .
qed

section \<open>Properties\<close>

text \<open>
  C6: \<open>unsynchronized_execution_context::run\<close> is a first-in first-out executor. Callables run in the
  order they were posted, what they post while they run goes behind everything already waiting,
  and running the first batch leaves \<open>run\<close> exactly where it would be on the remaining queue.
\<close>

theorem uec_run_fifo:
  assumes "none_throws eff exn fs w" and "run_all ps eff fs w = (posted, w')"
  shows "uec_run (posting_exec uec_post ps eff exn) \<lparr>m_function_queue = fs @ gs\<rparr> w =
    uec_run_loop (posting_exec uec_post ps eff exn) (length fs) \<lparr>m_function_queue = gs @ posted\<rparr> w'"
  using assms by (simp add: uec_run_def uec_loop_batch)

theorem uec_run_fifo_witness:
  "uec_run (posting_exec uec_post (\<lambda>f w. if f = 1 then [5] else []) (\<lambda>f w. w @ [f]) (\<lambda>f w. None))
      \<lparr>m_function_queue = [1, 2, 3 :: nat]\<rparr> [] =
   Some ((\<lparr>m_function_queue = []\<rparr>, [1, 2, 3, 5]), Inr 4)"
  using uec_run_fifo [of "\<lambda>f w. w @ [f]" "\<lambda>f w. None" "[1, 2, 3]" "[]"
      "\<lambda>f w. if f = (1 :: nat) then [5] else []" "[5]" "[1, 2, 3]" "[]"]
  by (simp add: uec_loop_Cons uec_loop_empty posting_exec_def)

text \<open>
  C31: \<open>run\<close> of the unsynchronized context returns whenever every callable posts only callables of a
  smaller rank, whatever it throws and however it changes the world; and whenever it returns a
  count, the queue it leaves is empty, so \<open>pending()\<close> is 0.
\<close>

theorem uec_run_returns:
  fixes rank :: "'f \<Rightarrow> nat"
  assumes "\<forall>f w. \<forall>p \<in> set (ps f w). rank p < rank f"
  shows "\<exists>ctx' w' res. uec_run (posting_exec uec_post ps eff exn) ctx w = Some ((ctx', w'), res)
    \<and> (\<forall>k. res = Inr k \<longrightarrow> uec_pending ctx' = 0)"
proof -
  obtain ctx' w' res where r:
    "uec_run_loop (posting_exec uec_post ps eff exn) 0 ctx w = Some ((ctx', w'), res)"
    using uec_queue.sec_loop_returns [OF assms, of eff exn 0 ctx w]
    by (auto simp: uec_loop_eq_sec_loop)
  moreover have "uec_pending ctx' = 0" if "res = Inr k" for k
    using r that uec_queue.sec_loop_drains [of _ 0 ctx w ctx' w' k]
    by (auto simp: uec_loop_eq_sec_loop uec_items_def uec_pending_def)
  ultimately show ?thesis
    by (auto simp: uec_run_def)
qed

theorem uec_run_returns_witness:
  "\<exists>ctx' w' res. uec_run (posting_exec uec_post (\<lambda>f w. if f = (2::nat) then [1, 0] else [])
       (\<lambda>f w. Suc w) (\<lambda>f w. None)) \<lparr>m_function_queue = [2]\<rparr> (0::nat) = Some ((ctx', w'), res)
    \<and> (\<forall>k. res = Inr k \<longrightarrow> uec_pending ctx' = 0)"
  by (rule uec_run_returns [of _ "\<lambda>f. f"]) simp

text \<open>
  A callable that posts itself again keeps \<open>run\<close> from returning: the loop has no bound of its
  own on the callables posted while it runs.
\<close>

lemma uec_run_self_post_diverges:
  "uec_run (posting_exec uec_post (\<lambda>f w. [f]) eff (\<lambda>f w. None)) \<lparr>m_function_queue = [f]\<rparr> w = None"
proof -
  let ?exec = "posting_exec uec_post (\<lambda>f w. [f]) eff (\<lambda>f w. None)"
  have no: "\<not> (tk = uec_take \<and> exec = ?exec \<and> q = \<lparr>m_function_queue = [f]\<rparr>)"
    if "sec_run_loop tk exec n q w = Some r" for tk exec n q w r
  proof (rule sec_run_loop.raw_induct
      [where P = "\<lambda>tk exec n q w r. \<not> (tk = uec_take \<and> exec = ?exec \<and> q = \<lparr>m_function_queue = [f]\<rparr>)",
        OF _ that])
    fix loop :: "('a unsync_context \<Rightarrow> ('a \<times> 'a unsync_context) option)
        \<Rightarrow> ('a, 'a unsync_context, 'b) exec \<Rightarrow> nat \<Rightarrow> 'a unsync_context \<Rightarrow> 'b
        \<Rightarrow> (('a unsync_context \<times> 'b) \<times> nat cxx) option"
    fix tk exec n q w r
    assume IH: "\<And>tk exec n q w r. loop tk exec n q w = Some r \<Longrightarrow>
        \<not> (tk = uec_take \<and> exec = ?exec \<and> q = \<lparr>m_function_queue = [f]\<rparr>)"
      and eq: "(case tk q of
        None \<Rightarrow> Some ((q, w), Inr n)
      | Some (f, q') \<Rightarrow>
          (case exec f (q', w) of
            ((q'', w'), Some x) \<Rightarrow> Some ((q'', w'), Inl (Callback_exception x))
          | ((q'', w'), None) \<Rightarrow> loop tk exec (n + 1) q'' w')) = Some r"
    show "\<not> (tk = uec_take \<and> exec = ?exec \<and> q = \<lparr>m_function_queue = [f]\<rparr>)"
    proof
      assume hyps: "tk = uec_take \<and> exec = ?exec \<and> q = \<lparr>m_function_queue = [f]\<rparr>"
      show False
        using eq IH [of uec_take ?exec "n + 1" "\<lparr>m_function_queue = [f]\<rparr>" "eff f w" r]
        by (simp add: hyps uec_take_def posting_exec_def uec_post_def queue_emplace_def)
    qed
  qed
  show ?thesis
    using no [of uec_take ?exec 0 "\<lparr>m_function_queue = [f]\<rparr>" w]
    by (cases "uec_run ?exec \<lparr>m_function_queue = [f]\<rparr> w")
      (auto simp: uec_run_def uec_loop_eq_sec_loop)
qed

text \<open>
  An exception of a callable leaves \<open>run\<close> at once: the callables before it have run, it is gone
  from the queue, and everything behind it, and everything posted so far, is still waiting.
\<close>

lemma uec_run_exception:
  assumes "none_throws eff exn fs w" and "run_all ps eff fs w = (posted, w')" and "exn f w' = Some x"
  shows "uec_run (posting_exec uec_post ps eff exn) \<lparr>m_function_queue = fs @ f # gs\<rparr> w =
    Some ((\<lparr>m_function_queue = gs @ posted @ ps f w'\<rparr>, eff f w'), Inl (Callback_exception x))"
proof -
  have step: "fold uec_post ys \<lparr>m_function_queue = xs\<rparr> = \<lparr>m_function_queue = xs @ ys\<rparr>" for xs ys :: "'a list"
    by (induction ys arbitrary: xs) (simp_all add: uec_post_def queue_emplace_def)
  show ?thesis
    using assms by (simp add: uec_run_def uec_loop_batch uec_loop_Cons posting_exec_def step)
qed

lemma uec_run_exception_witness:
  "uec_run (posting_exec uec_post (\<lambda>f w. if f = (1::nat) then [7] else []) (\<lambda>f w. w @ [f])
       (\<lambda>f w. if f = 2 then Some 9 else None)) \<lparr>m_function_queue = [1, 2, 3]\<rparr> [] =
   Some ((\<lparr>m_function_queue = [3, 7]\<rparr>, [1, 2]), Inl (Callback_exception 9))"
  using uec_run_exception [of "\<lambda>f w. w @ [f]" "\<lambda>f w. if f = 2 then Some 9 else None" "[1]" "[]"
      "\<lambda>f w. if f = (1::nat) then [7] else []" "[7]" "[1]" 2 9 "[3]"]
  by simp

end
