(* ===== verification/Sync_Context.thy ===== *)
theory Sync_Context
  imports Execution_Context
begin

text \<open>
  \<open>synchronized_execution_context\<close> under any number of threads (\<open>src/execution_context.cpp\<close>, the
  second \<open>run\<close>). Each call of \<open>run()\<close> is a worker that alternates between \<open>try_pop\<close> and the call of
  what it popped; \<open>try_pop\<close> and \<open>emplace\<close> are the atomic steps, everything else is local. Posts
  happen at any time, from outside or from a callable that is running. \<open>posted\<close> and \<open>finished\<close> are
  ghost fields: what was ever posted, and the calls that have ended.
\<close>

datatype 'f worker =
    Idle
  | At_pop nat
  | Calling 'f nat
  | Returned nat
  | Failed nat     \<comment> \<open>the callable threw after this many completed calls\<close>

record ('f, 'q) sync_state =
  tbb_queue :: 'q
  workers :: "'f worker list"
  posted :: "'f multiset"
  finished :: "'f multiset"

definition sync_init :: "'q \<Rightarrow> nat \<Rightarrow> ('f, 'q) sync_state" where
  "sync_init empty_queue n =
     \<lparr>tbb_queue = empty_queue, workers = replicate n Idle, posted = {#}, finished = {#}\<rparr>"

inductive sync_step ::
  "('f \<Rightarrow> 'q \<Rightarrow> 'q) \<Rightarrow> ('q \<Rightarrow> ('f \<times> 'q) option)
     \<Rightarrow> ('f, 'q) sync_state \<Rightarrow> ('f, 'q) sync_state \<Rightarrow> bool"
  for emplace :: "'f \<Rightarrow> 'q \<Rightarrow> 'q" and try_pop :: "'q \<Rightarrow> ('f \<times> 'q) option"
where
  post: "sync_step emplace try_pop s
     (s\<lparr>tbb_queue := sec_post emplace f (tbb_queue s), posted := add_mset f (posted s)\<rparr>)"
| enter: "i < length (workers s) \<Longrightarrow> workers s ! i = Idle \<Longrightarrow>
     sync_step emplace try_pop s (s\<lparr>workers := (workers s)[i := At_pop 0]\<rparr>)"
| pop: "i < length (workers s) \<Longrightarrow> workers s ! i = At_pop n \<Longrightarrow> try_pop (tbb_queue s) = Some (f, q) \<Longrightarrow>
     sync_step emplace try_pop s (s\<lparr>tbb_queue := q, workers := (workers s)[i := Calling f n]\<rparr>)"
| pop_fails: "i < length (workers s) \<Longrightarrow> workers s ! i = At_pop n \<Longrightarrow> try_pop (tbb_queue s) = None \<Longrightarrow>
     sync_step emplace try_pop s (s\<lparr>workers := (workers s)[i := Returned n]\<rparr>)"
| call: "i < length (workers s) \<Longrightarrow> workers s ! i = Calling f n \<Longrightarrow>
     sync_step emplace try_pop s
       (s\<lparr>workers := (workers s)[i := At_pop (n + 1)], finished := add_mset f (finished s)\<rparr>)"
| call_throws: "i < length (workers s) \<Longrightarrow> workers s ! i = Calling f n \<Longrightarrow>
     sync_step emplace try_pop s
       (s\<lparr>workers := (workers s)[i := Failed n], finished := add_mset f (finished s)\<rparr>)"

inductive sync_reachable ::
  "('f \<Rightarrow> 'q \<Rightarrow> 'q) \<Rightarrow> ('q \<Rightarrow> ('f \<times> 'q) option) \<Rightarrow> 'q \<Rightarrow> nat \<Rightarrow> ('f, 'q) sync_state \<Rightarrow> bool"
  for emplace :: "'f \<Rightarrow> 'q \<Rightarrow> 'q" and try_pop :: "'q \<Rightarrow> ('f \<times> 'q) option" and q0 :: 'q and n :: nat
where
  start: "sync_reachable emplace try_pop q0 n (sync_init q0 n)"
| step: "sync_reachable emplace try_pop q0 n s \<Longrightarrow> sync_step emplace try_pop s t \<Longrightarrow>
     sync_reachable emplace try_pop q0 n t"

section \<open>Conservation\<close>

text \<open>What a worker holds, and how many calls its \<open>run()\<close> has made.\<close>

fun in_flight :: "'f worker \<Rightarrow> 'f multiset" where
  "in_flight (Calling f n) = {#f#}"
| "in_flight _ = {#}"

fun calls_made :: "'f worker \<Rightarrow> nat" where
  "calls_made Idle = 0"
| "calls_made (At_pop n) = n"
| "calls_made (Calling f n) = n"
| "calls_made (Returned n) = n"
| "calls_made (Failed n) = n + 1"

definition sync_held :: "('f, 'q) sync_state \<Rightarrow> 'f multiset" where
  "sync_held s = sum_list (map in_flight (workers s))"

definition sync_calls :: "('f, 'q) sync_state \<Rightarrow> nat" where
  "sync_calls s = sum_list (map calls_made (workers s))"

lemma held_update:
  "i < length ws \<Longrightarrow>
   sum_list (map in_flight (ws[i := w])) + in_flight (ws ! i) = sum_list (map in_flight ws) + in_flight w"
  by (rule sum_list_map_update)

lemma calls_update:
  "i < length ws \<Longrightarrow>
   sum_list (map calls_made (ws[i := w])) + calls_made (ws ! i) = sum_list (map calls_made ws) + calls_made w"
  by (rule sum_list_map_update)

lemma sum_list_replicate_empty [simp]: "sum_list (replicate n {#}) = {#}"
  by (induction n) simp_all

context task_queue
begin

definition conserved :: "('f, 'q) sync_state \<Rightarrow> bool" where
  "conserved s \<longleftrightarrow> posted s = items (tbb_queue s) + sync_held s + finished s
     \<and> sync_calls s = size (finished s)"

lemma conserved_init: "items q0 = {#} \<Longrightarrow> conserved (sync_init q0 n)"
  by (simp add: conserved_def sync_init_def sync_held_def sync_calls_def)

lemma conserved_step: "sync_step put take_one s t \<Longrightarrow> conserved s \<Longrightarrow> conserved t"
proof (induction rule: sync_step.induct)
  case (post s f)
  then show ?case
    by (simp add: conserved_def sec_post_def items_put sync_held_def sync_calls_def)
next
  case (enter i s)
  then show ?case
    using held_update [of i "workers s" "At_pop 0"] calls_update [of i "workers s" "At_pop 0"]
    by (simp add: conserved_def sync_held_def sync_calls_def)
next
  case (pop i s n f q)
  then show ?case
    using held_update [of i "workers s" "Calling f n"] calls_update [of i "workers s" "Calling f n"]
    by (simp add: conserved_def sync_held_def sync_calls_def take_Some)
next
  case (pop_fails i s n)
  then show ?case
    using held_update [of i "workers s" "Returned n"] calls_update [of i "workers s" "Returned n"]
    by (simp add: conserved_def sync_held_def sync_calls_def)
next
  case (call i s f n)
  then show ?case
    using held_update [of i "workers s" "At_pop (n + 1)"] calls_update [of i "workers s" "At_pop (n + 1)"]
    by (simp add: conserved_def sync_held_def sync_calls_def)
next
  case (call_throws i s f n)
  then show ?case
    using held_update [of i "workers s" "Failed n"] calls_update [of i "workers s" "Failed n"]
    by (simp add: conserved_def sync_held_def sync_calls_def)
qed

lemma reachable_conserved:
  assumes "sync_reachable put take_one q0 n s" and "items q0 = {#}"
  shows "conserved s"
  using assms by (induction rule: sync_reachable.induct) (auto intro: conserved_init conserved_step)

end

text \<open>
  C8: in every state that any interleaving of \<open>post\<close> and \<open>run\<close> calls on a
  \<open>synchronized_execution_context\<close> can reach, over any concurrent queue that neither loses nor
  duplicates elements, every callable ever posted is still queued, or is held by exactly one
  \<open>run\<close> call, or has been called once; and the counts of the \<open>run\<close> calls add up to the number of
  calls that ended. The order of the queue does not matter.
\<close>

theorem sync_runs_each_once:
  assumes "task_queue emplace try_pop items" and "items q0 = {#}"
    and "sync_reachable emplace try_pop q0 n s"
  shows "posted s = items (tbb_queue s) + sync_held s + finished s
    \<and> sync_calls s = size (finished s)"
proof -
  have "task_queue.conserved items s"
    using assms by (intro task_queue.reachable_conserved)
  then show ?thesis
    using assms(1) by (simp add: task_queue.conserved_def)
qed

text \<open>A run with one worker: post, enter, pop, call, failed pop.\<close>

lemma sync_example_calling:
  "sync_reachable queue_emplace queue_take [] 1
     \<lparr>tbb_queue = [], workers = [Calling (7::nat) 0], posted = {#7#}, finished = {#}\<rparr>"
proof -
  let ?s0 = "sync_init [] 1 :: (nat, nat list) sync_state"
  let ?s1 = "\<lparr>tbb_queue = [7], workers = [Idle], posted = {#7#}, finished = {#}\<rparr>"
  let ?s2 = "\<lparr>tbb_queue = [7], workers = [At_pop 0], posted = {#7#}, finished = {#}\<rparr>"
  have "sync_step queue_emplace queue_take ?s0 ?s1"
    using sync_step.post [of queue_emplace queue_take ?s0 7]
    by (simp add: sync_init_def sec_post_def queue_emplace_def)
  moreover have "sync_step queue_emplace queue_take ?s1 ?s2"
    using sync_step.enter [of 0 ?s1] by simp
  moreover have "sync_step queue_emplace queue_take ?s2
     \<lparr>tbb_queue = [], workers = [Calling 7 0], posted = {#7#}, finished = {#}\<rparr>"
    using sync_step.pop [of 0 ?s2 0 queue_take 7 "[]"] by simp
  ultimately show ?thesis
    using sync_reachable.start by (metis sync_reachable.step)
qed

lemma sync_example_returned:
  "sync_reachable queue_emplace queue_take [] 1
     \<lparr>tbb_queue = [], workers = [Returned 1], posted = {#7::nat#}, finished = {#7#}\<rparr>"
proof -
  let ?s3 = "\<lparr>tbb_queue = [], workers = [Calling (7::nat) 0], posted = {#7#}, finished = {#}\<rparr>"
  let ?s4 = "\<lparr>tbb_queue = [], workers = [At_pop 1], posted = {#7::nat#}, finished = {#7#}\<rparr>"
  have "sync_step queue_emplace queue_take ?s3 ?s4"
    using sync_step.call [of 0 ?s3 7 0] by simp
  moreover have "sync_step queue_emplace queue_take ?s4
     \<lparr>tbb_queue = [], workers = [Returned 1], posted = {#7::nat#}, finished = {#7#}\<rparr>"
    using sync_step.pop_fails [of 0 ?s4 1 queue_take] by simp
  ultimately show ?thesis
    using sync_example_calling by (metis sync_reachable.step)
qed

theorem sync_runs_each_once_witness:
  "task_queue queue_emplace queue_take (mset :: nat list \<Rightarrow> nat multiset)
   \<and> (let s = \<lparr>tbb_queue = [], workers = [Calling (7::nat) 0], posted = {#7#}, finished = {#}\<rparr>
      in posted s = mset (tbb_queue s) + sync_held s + finished s)"
  using sync_runs_each_once [OF std_queue.task_queue_axioms _ sync_example_calling]
    std_queue.task_queue_axioms
  by (simp add: Let_def)

text \<open>
  Once every \<open>run\<close> call has returned, what was posted is exactly what was called plus what is
  still queued, and the returned counts add up to the number of calls.
\<close>

lemma sync_quiescent:
  assumes "task_queue emplace try_pop items" and "items q0 = {#}"
    and "sync_reachable emplace try_pop q0 n s"
    and "\<forall>w \<in> set (workers s). \<exists>k. w = Returned k"
  shows "posted s = items (tbb_queue s) + finished s
    \<and> sum_list (map calls_made (workers s)) = size (finished s)"
proof -
  have "sum_list (map in_flight ws) = {#}" if "\<forall>w \<in> set ws. \<exists>k. w = Returned k" for ws :: "'a worker list"
    using that by (induction ws) auto
  then have "sync_held s = {#}"
    using assms(4) by (simp add: sync_held_def)
  moreover have "task_queue.conserved items s"
    using assms by (intro task_queue.reachable_conserved)
  ultimately show ?thesis
    using assms(1) by (simp add: task_queue.conserved_def sync_calls_def)
qed

lemma sync_quiescent_witness:
  "task_queue queue_emplace queue_take (mset :: nat list \<Rightarrow> nat multiset)
   \<and> (let s = \<lparr>tbb_queue = [], workers = [Returned 1], posted = {#7::nat#}, finished = {#7#}\<rparr>
      in posted s = mset (tbb_queue s) + finished s
         \<and> sum_list (map calls_made (workers s)) = size (finished s))"
  using sync_quiescent [OF std_queue.task_queue_axioms _ sync_example_returned]
    std_queue.task_queue_axioms
  by (simp add: Let_def)

end
