(* ===== verification/Semaphore.thy ===== *)
theory Semaphore
  imports Execution_Context
begin

text \<open>
  \<open>include/tcx/semaphore.hpp\<close>: \<open>basic_semaphore\<close>, a counter, a queue of waiting completions and the
  executor they are posted to. The queue (\<open>moodycamel::ConcurrentQueue\<close>) and the executor are
  parameters, used through the interfaces of \<open>Task_Queue\<close>. The operations are modelled here one at
  a time; \<open>Semaphore_Concurrent\<close> interleaves them, one atomic access per step.

  The counter is a \<open>ptrdiff_t\<close>: the atomic operations wrap around, the signed arithmetic on the
  values they return is undefined when it overflows.
\<close>

section \<open>Operations\<close>

record ('q, 'e) semaphore =
  m_count :: int
  m_functions :: 'q
  m_executor :: 'e

definition semaphore_init :: "'q \<Rightarrow> 'e \<Rightarrow> int \<Rightarrow> ('q, 'e) semaphore" where
  "semaphore_init empty_queue ex desired =
     \<lparr>m_count = desired, m_functions = empty_queue, m_executor = ex\<rparr>"

definition async_acquire ::
  "('f \<Rightarrow> 'e \<Rightarrow> 'e) \<Rightarrow> ('f \<Rightarrow> 'q \<Rightarrow> 'q) \<Rightarrow> 'f \<Rightarrow> ('q, 'e) semaphore \<Rightarrow> ('q, 'e) semaphore cxx" where
  "async_acquire post enqueue f s =
     (let old = m_count s; s' = s\<lparr>m_count := ptrdiff_wrap (old - 1)\<rparr>; val = old - 1
      in if \<not> ptrdiff_range val then Inl Undefined
         else if 0 \<le> val then Inr (s'\<lparr>m_executor := post f (m_executor s')\<rparr>)
         else Inr (s'\<lparr>m_functions := enqueue f (m_functions s')\<rparr>))"

text \<open>\<open>try_acquire\<close> without interference: the first compare-exchange succeeds.\<close>

definition try_acquire :: "('q, 'e) semaphore \<Rightarrow> bool \<times> ('q, 'e) semaphore" where
  "try_acquire s =
     (let old = m_count s
      in if old \<le> 0 then (False, s) else (True, s\<lparr>m_count := old - 1\<rparr>))"

text \<open>
  The loop of \<open>release\<close>: \<open>k\<close> iterations, each posts what it dequeues. When the queue is empty the
  assertion fails in a debug build; in a release build the default-constructed, empty \<open>f\<close> is posted.
\<close>

fun release_loop ::
  "bool \<Rightarrow> ('f \<Rightarrow> 'e \<Rightarrow> 'e) \<Rightarrow> ('q \<Rightarrow> ('f \<times> 'q) option) \<Rightarrow> 'f \<Rightarrow> nat
     \<Rightarrow> ('q, 'e) semaphore \<Rightarrow> ('q, 'e) semaphore cxx" where
  "release_loop debug post try_dequeue empty_fn 0 s = Inr s"
| "release_loop debug post try_dequeue empty_fn (Suc k) s =
     (case try_dequeue (m_functions s) of
        Some (f, q) \<Rightarrow>
          release_loop debug post try_dequeue empty_fn k
            (s\<lparr>m_functions := q, m_executor := post f (m_executor s)\<rparr>)
      | None \<Rightarrow>
          cxx_bind (cxx_assert debug False) (\<lambda>_.
            release_loop debug post try_dequeue empty_fn k
              (s\<lparr>m_executor := post empty_fn (m_executor s)\<rparr>)))"

definition release ::
  "bool \<Rightarrow> ('f \<Rightarrow> 'e \<Rightarrow> 'e) \<Rightarrow> ('q \<Rightarrow> ('f \<times> 'q) option) \<Rightarrow> 'f \<Rightarrow> int
     \<Rightarrow> ('q, 'e) semaphore \<Rightarrow> ('q, 'e) semaphore cxx" where
  "release debug post try_dequeue empty_fn upd s =
     (let old = m_count s; s' = s\<lparr>m_count := ptrdiff_wrap (old + upd)\<rparr>
      in if \<not> ptrdiff_range (old + upd) then Inl Undefined
         else if old + upd > 0
           then release_loop debug post try_dequeue empty_fn (nat (- old)) s'
           else Inr s')"

definition semaphore_max :: "nat \<Rightarrow> int" where
  "semaphore_max sizeof_storage = (2 ^ 63 - 1) div int sizeof_storage"

text \<open>The destructor of a debug build.\<close>

definition semaphore_destroy :: "bool \<Rightarrow> ('q \<Rightarrow> nat) \<Rightarrow> ('q, 'e) semaphore \<Rightarrow> unit cxx" where
  "semaphore_destroy debug size_approx s = cxx_assert debug (size_approx (m_functions s) \<noteq> 0)"

section \<open>The semaphore over its two interfaces\<close>

locale semaphore_over =
  q: task_queue enqueue try_dequeue items + e: executor post pending
  for enqueue :: "'f \<Rightarrow> 'q \<Rightarrow> 'q" and try_dequeue :: "'q \<Rightarrow> ('f \<times> 'q) option"
    and items :: "'q \<Rightarrow> 'f multiset"
    and post :: "'f \<Rightarrow> 'e \<Rightarrow> 'e" and pending :: "'e \<Rightarrow> 'f multiset"
begin

text \<open>At least as many completions wait as the counter is below zero.\<close>

definition waiting_covers :: "('q, 'e) semaphore \<Rightarrow> bool" where
  "waiting_covers s \<longleftrightarrow> - m_count s \<le> int (size (items (m_functions s)))"

definition all_completions :: "('q, 'e) semaphore \<Rightarrow> 'f multiset" where
  "all_completions s = items (m_functions s) + pending (m_executor s)"

lemma acquire_covers:
  "async_acquire post enqueue f s = Inr s' \<Longrightarrow> waiting_covers s \<Longrightarrow> waiting_covers s'"
  by (auto simp: async_acquire_def Let_def waiting_covers_def q.items_put split: if_splits)

lemma acquire_completions:
  "async_acquire post enqueue f s = Inr s' \<Longrightarrow> all_completions s' = add_mset f (all_completions s)"
  by (auto simp: async_acquire_def Let_def all_completions_def q.items_put e.pending_post split: if_splits)

lemma release_loop_enough:
  "k \<le> size (items (m_functions s)) \<Longrightarrow>
   \<exists>s'. release_loop debug post try_dequeue empty_fn k s = Inr s' \<and> m_count s' = m_count s
     \<and> size (items (m_functions s')) = size (items (m_functions s)) - k
     \<and> size (pending (m_executor s')) = size (pending (m_executor s)) + k
     \<and> all_completions s' = all_completions s"
proof (induction k arbitrary: s)
  case 0
  then show ?case by simp
next
  case (Suc k)
  then have "items (m_functions s) \<noteq> {#}" by auto
  then obtain f q where t: "try_dequeue (m_functions s) = Some (f, q)"
    using q.take_nonempty by blast
  let ?s = "s\<lparr>m_functions := q, m_executor := post f (m_executor s)\<rparr>"
  have "k \<le> size (items (m_functions ?s))"
    using Suc.prems q.take_Some_size [OF t] by simp
  from Suc.IH [OF this] show ?case
    using q.take_Some [OF t] by (auto simp: t all_completions_def e.pending_post)
qed

lemma release_loop_all:
  assumes "size (items (m_functions s)) = k"
  shows "\<exists>s'. release_loop debug post try_dequeue empty_fn k s = Inr s' \<and> m_count s' = m_count s
     \<and> items (m_functions s') = {#} \<and> pending (m_executor s') = pending (m_executor s) + items (m_functions s)"
  using release_loop_enough [of k s debug empty_fn] assms
  by (auto simp: all_completions_def add.commute)

lemma release_covers:
  assumes "waiting_covers s" and "0 \<le> upd" and "ptrdiff_range (m_count s + upd)"
  shows "\<exists>s'. release debug post try_dequeue empty_fn upd s = Inr s' \<and> waiting_covers s'
    \<and> m_count s' = m_count s + upd \<and> all_completions s' = all_completions s"
proof (cases "m_count s + upd > 0")
  case True
  let ?s = "s\<lparr>m_count := m_count s + upd\<rparr>"
  have "nat (- m_count s) \<le> size (items (m_functions ?s))"
    using assms(1) by (simp add: waiting_covers_def)
  from release_loop_enough [OF this, of debug empty_fn] obtain s' where
    "release_loop debug post try_dequeue empty_fn (nat (- m_count s)) ?s = Inr s'"
    "m_count s' = m_count ?s" "all_completions s' = all_completions ?s"
    by auto
  with True assms(3) show ?thesis
    by (auto simp: release_def Let_def waiting_covers_def all_completions_def)
next
  case False
  with assms show ?thesis
    by (auto simp: release_def Let_def waiting_covers_def all_completions_def)
qed

end

interpretation sem_std: semaphore_over queue_emplace queue_take mset uec_post uec_items
  by unfold_locales

section \<open>Sequences of operations\<close>

datatype 'f sem_op = Acquire 'f | Try_acquire | Release int

fun sem_run ::
  "bool \<Rightarrow> ('f \<Rightarrow> 'e \<Rightarrow> 'e) \<Rightarrow> ('f \<Rightarrow> 'q \<Rightarrow> 'q) \<Rightarrow> ('q \<Rightarrow> ('f \<times> 'q) option) \<Rightarrow> 'f
     \<Rightarrow> 'f sem_op list \<Rightarrow> ('q, 'e) semaphore \<Rightarrow> ('q, 'e) semaphore cxx" where
  "sem_run debug post enqueue try_dequeue empty_fn [] s = Inr s"
| "sem_run debug post enqueue try_dequeue empty_fn (Acquire f # ops) s =
     cxx_bind (async_acquire post enqueue f s) (sem_run debug post enqueue try_dequeue empty_fn ops)"
| "sem_run debug post enqueue try_dequeue empty_fn (Try_acquire # ops) s =
     sem_run debug post enqueue try_dequeue empty_fn ops (snd (try_acquire s))"
| "sem_run debug post enqueue try_dequeue empty_fn (Release u # ops) s =
     cxx_bind (release debug post try_dequeue empty_fn u s)
       (sem_run debug post enqueue try_dequeue empty_fn ops)"

fun acquired :: "'f sem_op list \<Rightarrow> 'f multiset" where
  "acquired [] = {#}"
| "acquired (Acquire f # ops) = add_mset f (acquired ops)"
| "acquired (_ # ops) = acquired ops"

fun updates_nonneg :: "'f sem_op list \<Rightarrow> bool" where
  "updates_nonneg [] \<longleftrightarrow> True"
| "updates_nonneg (Release u # ops) \<longleftrightarrow> 0 \<le> u \<and> updates_nonneg ops"
| "updates_nonneg (_ # ops) \<longleftrightarrow> updates_nonneg ops"

context semaphore_over
begin

lemma try_acquire_covers: "waiting_covers s \<Longrightarrow> waiting_covers (snd (try_acquire s))"
  by (auto simp: try_acquire_def Let_def waiting_covers_def)

lemma try_acquire_completions: "all_completions (snd (try_acquire s)) = all_completions s"
  by (simp add: try_acquire_def Let_def all_completions_def)

lemma release_cases:
  assumes "waiting_covers s" and "0 \<le> u"
  shows "release debug post try_dequeue empty_fn u s = Inl Undefined
    \<or> (\<exists>s'. release debug post try_dequeue empty_fn u s = Inr s' \<and> waiting_covers s'
         \<and> all_completions s' = all_completions s)"
proof (cases "ptrdiff_range (m_count s + u)")
  case True
  then show ?thesis using release_covers [OF assms] by blast
next
  case False
  then show ?thesis by (simp add: release_def Let_def)
qed

lemma sem_run_cases:
  assumes "waiting_covers s" and "updates_nonneg ops"
  shows "sem_run debug post enqueue try_dequeue empty_fn ops s = Inl Undefined
    \<or> (\<exists>s'. sem_run debug post enqueue try_dequeue empty_fn ops s = Inr s' \<and> waiting_covers s'
         \<and> all_completions s' = acquired ops + all_completions s)"
  using assms
proof (induction ops arbitrary: s)
  case Nil
  then show ?case by simp
next
  case (Cons p ops)
  show ?case
  proof (cases p)
    case (Acquire f)
    show ?thesis
    proof (cases "async_acquire post enqueue f s")
      case (Inl e)
      then have "e = Undefined" by (auto simp: async_acquire_def Let_def split: if_splits)
      with Inl Acquire show ?thesis by simp
    next
      case (Inr s')
      from Cons.IH [OF acquire_covers [OF Inr Cons.prems(1)]] Cons.prems(2) Acquire Inr
      show ?thesis by (auto simp: acquire_completions [OF Inr])
    qed
  next
    case Try_acquire
    with Cons.IH [OF try_acquire_covers [OF Cons.prems(1)]] Cons.prems(2) show ?thesis
      by (simp add: try_acquire_completions)
  next
    case (Release u)
    with Cons.prems have u: "0 \<le> u" "updates_nonneg ops" by auto
    from release_cases [OF Cons.prems(1) u(1), of debug empty_fn] show ?thesis
      using Cons.IH u(2) Release by force
  qed
qed

text \<open>Releases on a counter that is not below zero never touch the queue.\<close>

lemma release_nonneg_count:
  assumes "0 \<le> m_count s"
  shows "release debug post try_dequeue empty_fn u s = Inl Undefined
    \<or> release debug post try_dequeue empty_fn u s = Inr (s\<lparr>m_count := m_count s + u\<rparr>)"
  using assms by (auto simp: release_def Let_def)

lemma releases_nonneg_count:
  assumes "0 \<le> m_count s" and "\<forall>u \<in> set us. 0 \<le> u"
    and "sem_run debug post enqueue try_dequeue empty_fn (map Release us) s = Inr s'"
  shows "m_functions s' = m_functions s \<and> m_executor s' = m_executor s"
  using assms
proof (induction us arbitrary: s)
  case Nil
  then show ?case by simp
next
  case (Cons u us)
  from release_nonneg_count [OF Cons.prems(1), of debug empty_fn u] Cons.prems(3)
  have "sem_run debug post enqueue try_dequeue empty_fn (map Release us) (s\<lparr>m_count := m_count s + u\<rparr>) = Inr s'"
    by auto
  from Cons.IH [OF _ _ this] Cons.prems show ?case by simp
qed

end

section \<open>Properties of the operations, one at a time\<close>

text \<open>
  C3: no sequence of \<open>async_acquire\<close>, \<open>try_acquire\<close> and \<open>release\<close> (with updates that are not
  negative) on a fresh semaphore runs into the "Queue appears to be empty??" assertion, and none
  loses or duplicates a completion: as long as the counter does not overflow, the completions
  waiting and those posted are exactly the ones acquired with.
\<close>

theorem sem_sequence_safe:
  assumes "semaphore_over enqueue try_dequeue items post pending"
    and "items q0 = {#}" and "0 \<le> desired" and "updates_nonneg ops"
  shows "sem_run debug post enqueue try_dequeue empty_fn ops (semaphore_init q0 ex desired) = Inl Undefined
    \<or> (\<exists>s. sem_run debug post enqueue try_dequeue empty_fn ops (semaphore_init q0 ex desired) = Inr s
        \<and> items (m_functions s) + pending (m_executor s) = acquired ops + pending ex
        \<and> - m_count s \<le> int (size (items (m_functions s))))"
proof -
  note so = assms(1)
  have "semaphore_over.waiting_covers items (semaphore_init q0 ex desired)"
    using assms by (simp add: semaphore_over.waiting_covers_def [OF so] semaphore_init_def)
  from semaphore_over.sem_run_cases [OF so this assms(4), of debug empty_fn] show ?thesis
    using assms(2)
    by (auto simp: semaphore_over.waiting_covers_def [OF so] semaphore_over.all_completions_def [OF so]
        semaphore_init_def)
qed

theorem sem_sequence_safe_witness:
  "\<exists>s. sem_run True uec_post queue_emplace queue_take (0::nat) [Acquire 1, Acquire 2, Release 2]
      (semaphore_init [] uec_init 1) = Inr s
    \<and> mset (m_functions s) + uec_items (m_executor s) = {#1, 2#}"
proof -
  have "sem_run True uec_post queue_emplace queue_take (0::nat) [Acquire 1, Acquire 2, Release 2]
      (semaphore_init [] uec_init 1) \<noteq> Inl Undefined"
    by (simp add: async_acquire_def release_def semaphore_init_def Let_def queue_emplace_def)
  then show ?thesis
    using sem_sequence_safe [OF sem_std.semaphore_over_axioms, of "[]" 1
        "[Acquire 1, Acquire 2, Release 2]" True "0::nat" uec_init]
    by (auto simp: uec_items_def uec_init_def)
qed

text \<open>
  A \<open>release\<close> that lifts the counter from below zero to above zero posts every waiting
  completion, when exactly as many wait as the counter is below zero.
\<close>

lemma release_wakes_all:
  assumes "semaphore_over enqueue try_dequeue items post pending"
    and "m_count s < 0" and "0 < m_count s + upd" and "ptrdiff_range (m_count s + upd)"
    and "int (size (items (m_functions s))) = - m_count s"
  shows "\<exists>s'. release debug post try_dequeue empty_fn upd s = Inr s'
    \<and> m_count s' = m_count s + upd \<and> items (m_functions s') = {#}
    \<and> pending (m_executor s') = pending (m_executor s) + items (m_functions s)"
proof -
  let ?s = "s\<lparr>m_count := m_count s + upd\<rparr>"
  have "size (items (m_functions ?s)) = nat (- m_count s)"
    using assms(5) by simp
  from semaphore_over.release_loop_all [OF assms(1) this, of debug empty_fn] assms(2-4) show ?thesis
    by (auto simp: release_def Let_def)
qed

lemma release_wakes_all_witness:
  "\<exists>s'. release True uec_post queue_take (0::nat) 3
      \<lparr>m_count = - 2, m_functions = [5, 6], m_executor = uec_init\<rparr> = Inr s'
    \<and> m_count s' = 1 \<and> m_functions s' = [] \<and> uec_items (m_executor s') = {#5, 6#}"
  using release_wakes_all [OF sem_std.semaphore_over_axioms,
      of "\<lparr>m_count = - 2, m_functions = [5, 6::nat], m_executor = uec_init\<rparr>" 3 True 0]
  by (auto simp: uec_items_def uec_init_def)

text \<open>
  The wake-up is lost when a release lifts the counter to zero or leaves it below: nothing is
  posted, and once the counter is zero no release, of whatever size, posts the completions that still
  wait, until an acquire lowers the counter again. With the default update of 1 this is what every release does to the last
  waiting completion, although a unit has been released for it.
\<close>

lemma release_lost_wakeup:
  assumes "semaphore_over enqueue try_dequeue items post pending"
    and "m_count s + upd \<le> 0" and "ptrdiff_range (m_count s + upd)"
  shows "release debug post try_dequeue empty_fn upd s = Inr (s\<lparr>m_count := m_count s + upd\<rparr>)
    \<and> (m_count s + upd = 0 \<longrightarrow> (\<forall>us s'. (\<forall>u \<in> set us. 0 \<le> u) \<longrightarrow>
          sem_run debug post enqueue try_dequeue empty_fn (map Release us)
            (s\<lparr>m_count := m_count s + upd\<rparr>) = Inr s' \<longrightarrow>
          m_functions s' = m_functions s \<and> m_executor s' = m_executor s))"
proof (intro conjI impI allI)
  show "release debug post try_dequeue empty_fn upd s = Inr (s\<lparr>m_count := m_count s + upd\<rparr>)"
    using assms(2,3) by (simp add: release_def Let_def)
next
  fix us s'
  assume "m_count s + upd = 0" "\<forall>u \<in> set us. 0 \<le> u"
    "sem_run debug post enqueue try_dequeue empty_fn (map Release us)
       (s\<lparr>m_count := m_count s + upd\<rparr>) = Inr s'"
  from semaphore_over.releases_nonneg_count [OF assms(1) _ this(2,3)] this(1)
  show "m_functions s' = m_functions s" and "m_executor s' = m_executor s"
    by simp_all
qed

lemma release_lost_wakeup_witness:
  "sem_run True uec_post queue_emplace queue_take (0::nat) [Acquire 7, Release 1, Release 1]
     (semaphore_init [] uec_init 0) =
   Inr \<lparr>m_count = 1, m_functions = [7], m_executor = uec_init\<rparr>"
  using release_lost_wakeup [OF sem_std.semaphore_over_axioms,
      of "\<lparr>m_count = - 1, m_functions = [7::nat], m_executor = uec_init\<rparr>" 1 True 0]
  by (simp add: async_acquire_def semaphore_init_def Let_def queue_emplace_def release_def)

text \<open>
  The sanity check of the destructor is the wrong way round: in a debug build destroying a
  semaphore with no completion waiting fails the assertion, and destroying one with completions
  waiting passes it.
\<close>

lemma semaphore_destroy_inverted:
  "(semaphore_destroy True size_approx s = Inl Assert_failed \<longleftrightarrow> size_approx (m_functions s) = 0)
   \<and> (semaphore_destroy True size_approx s = Inr () \<longleftrightarrow> size_approx (m_functions s) > 0)
   \<and> semaphore_destroy False size_approx s = Inr ()"
  by (simp add: semaphore_destroy_def cxx_assert_def)

end
