(* ===== verification/Semaphore_Exceptions.thy ===== *)
theory Semaphore_Exceptions
  imports Semaphore
begin

text \<open>
  \<open>include/tcx/semaphore.hpp\<close> when storing or posting a completion fails: wrapping the callable in a
  \<open>unique_function\<close> can throw, so can \<open>post\<close>, and \<open>enqueue\<close> of the concurrent queue returns false when it
  cannot allocate. \<open>Semaphore\<close> has the same operations over a queue and an executor that always accept.
  A failing \<open>post\<close> or \<open>enqueue\<close> leaves its container as it was.
\<close>

section \<open>Operations\<close>

text \<open>
  \<open>wrap\<close> is the constructor of \<open>function_storage\<close>; \<open>try_enqueue\<close> is \<open>None\<close> where \<open>enqueue\<close> returns false,
  which nobody looks at. The result is the exception, if any, with the semaphore as it is then.
\<close>

definition acquire_fallible ::
  "('f \<Rightarrow> 'e \<Rightarrow> 'e cxx) \<Rightarrow> ('f \<Rightarrow> 'f cxx) \<Rightarrow> ('f \<Rightarrow> 'q \<Rightarrow> 'q option) \<Rightarrow> 'f \<Rightarrow> ('q, 'e) semaphore \<Rightarrow>
   unit cxx \<times> ('q, 'e) semaphore" where
  "acquire_fallible try_post wrap try_enqueue f s =
     (let old = m_count s; s' = s\<lparr>m_count := ptrdiff_wrap (old - 1)\<rparr>; val = old - 1
      in if \<not> ptrdiff_range val then (Inl Undefined, s')
         else if 0 \<le> val then
           (case try_post f (m_executor s') of
              Inl e \<Rightarrow> (Inl e, s')
            | Inr ex \<Rightarrow> (Inr (), s'\<lparr>m_executor := ex\<rparr>))
         else
           (case wrap f of
              Inl e \<Rightarrow> (Inl e, s')
            | Inr g \<Rightarrow>
                (case try_enqueue g (m_functions s') of
                   None \<Rightarrow> (Inr (), s')
                 | Some q \<Rightarrow> (Inr (), s'\<lparr>m_functions := q\<rparr>))))"

text \<open>The completion that was dequeued is a local: an exception of \<open>post\<close> destroys it.\<close>

fun release_loop_fallible ::
  "bool \<Rightarrow> ('f \<Rightarrow> 'e \<Rightarrow> 'e cxx) \<Rightarrow> ('q \<Rightarrow> ('f \<times> 'q) option) \<Rightarrow> 'f \<Rightarrow> nat
     \<Rightarrow> ('q, 'e) semaphore \<Rightarrow> unit cxx \<times> ('q, 'e) semaphore" where
  "release_loop_fallible debug try_post try_dequeue empty_fn 0 s = (Inr (), s)"
| "release_loop_fallible debug try_post try_dequeue empty_fn (Suc k) s =
     (case try_dequeue (m_functions s) of
        Some (f, q) \<Rightarrow>
          (case try_post f (m_executor s) of
             Inl e \<Rightarrow> (Inl e, s\<lparr>m_functions := q\<rparr>)
           | Inr ex \<Rightarrow>
               release_loop_fallible debug try_post try_dequeue empty_fn k (s\<lparr>m_functions := q, m_executor := ex\<rparr>))
      | None \<Rightarrow>
          (case cxx_assert debug False of
             Inl e \<Rightarrow> (Inl e, s)
           | Inr _ \<Rightarrow>
               (case try_post empty_fn (m_executor s) of
                  Inl e \<Rightarrow> (Inl e, s)
                | Inr ex \<Rightarrow> release_loop_fallible debug try_post try_dequeue empty_fn k (s\<lparr>m_executor := ex\<rparr>))))"

definition release_fallible ::
  "bool \<Rightarrow> ('f \<Rightarrow> 'e \<Rightarrow> 'e cxx) \<Rightarrow> ('q \<Rightarrow> ('f \<times> 'q) option) \<Rightarrow> 'f \<Rightarrow> int
     \<Rightarrow> ('q, 'e) semaphore \<Rightarrow> unit cxx \<times> ('q, 'e) semaphore" where
  "release_fallible debug try_post try_dequeue empty_fn upd s =
     (let old = m_count s; s' = s\<lparr>m_count := ptrdiff_wrap (old + upd)\<rparr>
      in if \<not> ptrdiff_range (old + upd) then (Inl Undefined, s')
         else if old + upd > 0
           then release_loop_fallible debug try_post try_dequeue empty_fn (nat (- old)) s'
           else (Inr (), s'))"

section \<open>When nothing fails\<close>

text \<open>Over a queue and an executor that always accept, these are the operations of \<open>Semaphore\<close>.\<close>

definition outcome :: "unit cxx \<times> 's \<Rightarrow> 's cxx" where
  "outcome r = (case fst r of Inl e \<Rightarrow> Inl e | Inr _ \<Rightarrow> Inr (snd r))"

lemma outcome_simps [simp]: "outcome (Inl e, s) = Inl e" "outcome (Inr x, s) = Inr s"
  by (simp_all add: outcome_def)

lemma acquire_fallible_total:
  "outcome (acquire_fallible (\<lambda>f e. Inr (post f e)) Inr (\<lambda>f q. Some (enqueue f q)) f s) = async_acquire post enqueue f s"
  by (simp add: acquire_fallible_def async_acquire_def Let_def)

lemma release_loop_fallible_total:
  "outcome (release_loop_fallible debug (\<lambda>f e. Inr (post f e)) try_dequeue empty_fn k s) =
   release_loop debug post try_dequeue empty_fn k s"
  by (induction k arbitrary: s) (cases debug; auto split: option.split)+

lemma release_fallible_total:
  "outcome (release_fallible debug (\<lambda>f e. Inr (post f e)) try_dequeue empty_fn u s) =
   release debug post try_dequeue empty_fn u s"
  by (simp add: release_fallible_def release_def Let_def release_loop_fallible_total)

text \<open>With the counter above zero, a release only counts.\<close>

lemma releases_count:
  assumes "0 < m_count s" and "\<forall>u \<in> set us. 0 \<le> u" and "ptrdiff_range (m_count s + sum_list us)"
  shows "fold (\<lambda>u t. snd (release_fallible debug try_post try_dequeue empty_fn u t)) us s =
    s\<lparr>m_count := m_count s + sum_list us\<rparr>"
  using assms
proof (induction us arbitrary: s)
  case (Cons u us)
  have "0 \<le> sum_list us"
    using Cons.prems(2) by (intro sum_list_nonneg) simp
  with Cons.prems have "release_fallible debug try_post try_dequeue empty_fn u s = (Inr (), s\<lparr>m_count := m_count s + u\<rparr>)"
    by (simp add: release_fallible_def Let_def)
  with Cons.IH [of "s\<lparr>m_count := m_count s + u\<rparr>"] Cons.prems \<open>0 \<le> sum_list us\<close> show ?case
    by (simp add: add.assoc)
qed simp

text \<open>
  The completions that wait beyond those the counter stands for. No operation that succeeds reduces
  them: a release dequeues as many as the counter was below zero.
\<close>

context semaphore_over
begin

definition surplus :: "('q, 'e) semaphore \<Rightarrow> int" where
  "surplus s = int (size (items (m_functions s))) - int (nat (- m_count s))"

lemma acquire_surplus: "async_acquire post enqueue f s = Inr s' \<Longrightarrow> surplus s' = surplus s"
  by (auto simp: async_acquire_def Let_def surplus_def q.items_put split: if_splits)

lemma try_acquire_surplus: "surplus (snd (try_acquire s)) = surplus s"
  by (auto simp: try_acquire_def Let_def surplus_def)

lemma release_surplus:
  assumes "waiting_covers s" and "0 \<le> u" and "release debug post try_dequeue empty_fn u s = Inr s'"
  shows "surplus s \<le> surplus s'"
proof (cases "0 < m_count s + u")
  case True
  let ?s = "s\<lparr>m_count := m_count s + u\<rparr>"
  have "nat (- m_count s) \<le> size (items (m_functions ?s))"
    using assms(1) by (simp add: waiting_covers_def)
  from release_loop_enough [OF this, of debug empty_fn] True assms(3) show ?thesis
    by (auto simp: release_def Let_def surplus_def split: if_splits)
next
  case False
  then show ?thesis
    using assms(2,3) by (auto simp: release_def Let_def surplus_def split: if_splits)
qed

lemma sem_run_surplus:
  assumes "waiting_covers s" and "updates_nonneg ops"
    and "sem_run debug post enqueue try_dequeue empty_fn ops s = Inr t"
  shows "surplus s \<le> surplus t"
  using assms
proof (induction ops arbitrary: s)
  case (Cons op ops)
  show ?case
  proof (cases op)
    case (Acquire f)
    then obtain s' where s': "async_acquire post enqueue f s = Inr s'"
      "sem_run debug post enqueue try_dequeue empty_fn ops s' = Inr t"
      using Cons.prems(3) by (auto simp: cxx_bind_eq_Inr)
    then show ?thesis
      using Cons.IH [OF acquire_covers [OF s'(1) Cons.prems(1)]] Cons.prems(2) Acquire acquire_surplus [OF s'(1)]
      by simp
  next
    case Try_acquire
    then show ?thesis
      using Cons.IH [OF try_acquire_covers [OF Cons.prems(1)]] Cons.prems(2,3) by (simp add: try_acquire_surplus)
  next
    case (Release u)
    then obtain s' where s': "release debug post try_dequeue empty_fn u s = Inr s'"
      "sem_run debug post enqueue try_dequeue empty_fn ops s' = Inr t"
      using Cons.prems(3) by (auto simp: cxx_bind_eq_Inr)
    moreover have "0 \<le> u" "updates_nonneg ops"
      using Cons.prems(2) Release by simp_all
    moreover have "waiting_covers s'"
      using release_cases [OF Cons.prems(1) \<open>0 \<le> u\<close>, of debug empty_fn] s'(1) by auto
    ultimately show ?thesis
      using Cons.IH [of s'] release_surplus [OF Cons.prems(1), of u debug empty_fn s'] by simp
  qed
qed simp

end

section \<open>The semaphore over interfaces that fail\<close>

locale fallible_executor =
  fixes try_post :: "'f \<Rightarrow> 'e \<Rightarrow> 'e cxx" and pending :: "'e \<Rightarrow> 'f multiset"
  assumes pending_posted: "try_post f e = Inr e' \<Longrightarrow> pending e' = add_mset f (pending e)"

locale fallible_semaphore =
  q: task_queue enqueue try_dequeue items + e: fallible_executor try_post pending
  for enqueue :: "'f \<Rightarrow> 'q \<Rightarrow> 'q" and try_dequeue :: "'q \<Rightarrow> ('f \<times> 'q) option"
    and items :: "'q \<Rightarrow> 'f multiset"
    and try_post :: "'f \<Rightarrow> 'e \<Rightarrow> 'e cxx" and pending :: "'e \<Rightarrow> 'f multiset"
begin

definition completions :: "('q, 'e) semaphore \<Rightarrow> 'f multiset" where
  "completions s = items (m_functions s) + pending (m_executor s)"

text \<open>A loop with enough completions to take ends normally, or with one completion destroyed.\<close>

lemma release_loop_cases:
  assumes "k \<le> size (items (m_functions s))"
  shows "case release_loop_fallible debug try_post try_dequeue empty_fn k s of
      (Inr _, s') \<Rightarrow> m_count s' = m_count s \<and> completions s' = completions s
        \<and> size (items (m_functions s')) + k = size (items (m_functions s))
    | (Inl e, s') \<Rightarrow> m_count s' = m_count s \<and> (\<exists>f. completions s = add_mset f (completions s'))
        \<and> size (items (m_functions s)) \<le> size (items (m_functions s')) + k"
  using assms
proof (induction k arbitrary: s)
  case (Suc k)
  then have "items (m_functions s) \<noteq> {#}" by auto
  then obtain f q where t: "try_dequeue (m_functions s) = Some (f, q)"
    using q.take_nonempty by blast
  note taken = q.take_Some [OF t]
  show ?case
  proof (cases "try_post f (m_executor s)")
    case (Inl e)
    then show ?thesis
      using t taken by (simp add: completions_def)
  next
    case (Inr ex)
    let ?s = "s\<lparr>m_functions := q, m_executor := ex\<rparr>"
    have "k \<le> size (items (m_functions ?s))"
      using Suc.prems taken by simp
    from Suc.IH [OF this] show ?thesis
      using t taken Inr e.pending_posted [OF Inr]
      by (auto simp: completions_def split: prod.splits sum.splits)
  qed
qed simp

text \<open>One completion too few: the check fails, or an empty function is posted with the others.\<close>

lemma release_loop_short:
  assumes "size (items (m_functions s)) = k" and "\<And>f e. \<exists>e'. try_post f e = Inr e'"
  shows "fst (release_loop_fallible True try_post try_dequeue empty_fn (Suc k) s) = Inl Assert_failed
    \<and> (\<exists>s'. release_loop_fallible False try_post try_dequeue empty_fn (Suc k) s = (Inr (), s')
        \<and> m_count s' = m_count s \<and> items (m_functions s') = {#}
        \<and> pending (m_executor s') = add_mset empty_fn (completions s))"
  using assms(1)
proof (induction k arbitrary: s)
  case 0
  then have "try_dequeue (m_functions s) = None"
    using q.take_None_iff by simp
  moreover obtain ex where "try_post empty_fn (m_executor s) = Inr ex"
    using assms(2) by blast
  ultimately show ?case
    using 0 e.pending_posted by (auto simp: cxx_assert_def completions_def)
next
  case (Suc k)
  then have "items (m_functions s) \<noteq> {#}" by auto
  then obtain f q where t: "try_dequeue (m_functions s) = Some (f, q)"
    using q.take_nonempty by blast
  obtain ex where ex: "try_post f (m_executor s) = Inr ex"
    using assms(2) by blast
  let ?s = "s\<lparr>m_functions := q, m_executor := ex\<rparr>"
  have "size (items (m_functions ?s)) = k" "completions ?s = completions s"
    using Suc.prems q.take_Some [OF t] e.pending_posted [OF ex] by (simp_all add: completions_def)
  with Suc.IH [of ?s] show ?case
    by (simp add: t ex del: release_loop_fallible.simps(2)) (simp add: t ex)
qed

end

text \<open>The unsynchronised context where there is memory for \<open>n\<close> callables only.\<close>

definition bounded_post :: "nat \<Rightarrow> 'f \<Rightarrow> 'f unsync_context \<Rightarrow> 'f unsync_context cxx" where
  "bounded_post n f ctx =
     (if length (m_function_queue ctx) < n then Inr (uec_post f ctx) else Inl (Callback_exception 0))"

interpretation bounded: fallible_semaphore queue_emplace queue_take mset "bounded_post n" uec_items for n
  by unfold_locales (auto simp: bounded_post_def uec_items_def uec_post_def queue_emplace_def split: if_splits)



section \<open>Properties\<close>




text \<open>
  C5: A \<open>release\<close> in which posting throws, at any point of its loop, strands completions: the one it had
  dequeued is destroyed uncalled, and the counter is above zero while \<open>n\<close> others still wait. From then on
  and for good at least \<open>n\<close> completions wait beyond those the counter stands for: after any sequence of
  acquires, \<open>try_acquire\<close>s and releases in which posting succeeds and the counter does not overflow, no
  check fails, nothing else is lost, and no fewer than \<open>n\<close> wait even when units are free. Releases alone post nothing; after an acquire that
  waits, a release can post one of the stranded completions, but only in place of another one.
\<close>

theorem release_exception_strands:
  assumes "fallible_semaphore enqueue try_dequeue items try_post pending"
    and "- m_count s \<le> int (size (items (m_functions s)))" and "0 < m_count s + u" and "ptrdiff_range (m_count s + u)"
    and "release_fallible debug try_post try_dequeue empty_fn u s = (Inl e, s')"
    and "semaphore_over enqueue try_dequeue items post pending" and "updates_nonneg ops"
  shows "(\<exists>f. items (m_functions s) + pending (m_executor s) = add_mset f (items (m_functions s') + pending (m_executor s')))
    \<and> m_count s' = m_count s + u
    \<and> (case sem_run debug' post enqueue try_dequeue empty_fn ops s' of
         Inl err \<Rightarrow> err = Undefined
       | Inr t \<Rightarrow>
           items (m_functions t) + pending (m_executor t) =
             acquired ops + items (m_functions s') + pending (m_executor s')
         \<and> size (items (m_functions s')) + nat (- m_count t) \<le> size (items (m_functions t))
         \<and> (\<forall>us. ops = map Release us \<longrightarrow> m_functions t = m_functions s' \<and> m_executor t = m_executor s'))"
proof -
  note so = assms(6)
  let ?s = "s\<lparr>m_count := m_count s + u\<rparr>" and ?k = "nat (- m_count s)"
  have "?k \<le> size (items (m_functions ?s))"
    using assms(2) by simp
  note loop = fallible_semaphore.release_loop_cases [OF assms(1) this, of debug empty_fn]
  have "release_loop_fallible debug try_post try_dequeue empty_fn ?k ?s = (Inl e, s')"
    using assms(3-5) by (simp add: release_fallible_def Let_def)
  with loop have lost: "m_count s' = m_count s + u"
    "\<exists>f. items (m_functions s) + pending (m_executor s) = add_mset f (items (m_functions s') + pending (m_executor s'))"
    by (simp_all add: fallible_semaphore.completions_def [OF assms(1)])
  have covers: "semaphore_over.waiting_covers items s'"
    using lost(1) assms(3) by (simp add: semaphore_over.waiting_covers_def [OF so])
  have later: "items (m_functions t) + pending (m_executor t) = acquired ops + items (m_functions s') + pending (m_executor s')
      \<and> size (items (m_functions s')) + nat (- m_count t) \<le> size (items (m_functions t))
      \<and> (\<forall>us. ops = map Release us \<longrightarrow> m_functions t = m_functions s' \<and> m_executor t = m_executor s')"
    if t: "sem_run debug' post enqueue try_dequeue empty_fn ops s' = Inr t" for t
  proof (intro conjI allI impI)
    show "items (m_functions t) + pending (m_executor t) = acquired ops + items (m_functions s') + pending (m_executor s')"
      using semaphore_over.sem_run_cases [OF so covers assms(7), of debug' empty_fn] t
      by (simp add: semaphore_over.all_completions_def [OF so] ac_simps)
    show "size (items (m_functions s')) + nat (- m_count t) \<le> size (items (m_functions t))"
      using semaphore_over.sem_run_surplus [OF so covers assms(7) t] lost(1) assms(3)
      unfolding semaphore_over.surplus_def [OF so] by linarith
    fix us assume us: "ops = map Release us"
    have "\<forall>v \<in> set us. 0 \<le> v"
      using assms(7) unfolding us by (induction us) auto
    then show "m_functions t = m_functions s'" "m_executor t = m_executor s'"
      using semaphore_over.releases_nonneg_count [OF so, of s' us debug' empty_fn t] lost(1) assms(3) t us by simp_all
  qed
  show ?thesis
    using lost later semaphore_over.sem_run_cases [OF so covers assms(7), of debug' empty_fn]
    by (auto split: sum.split)
qed

theorem release_exception_strands_witness:
  "release_fallible True (bounded_post 1) queue_take (0 :: nat) 4
     \<lparr>m_count = - 3, m_functions = [5, 6, 7], m_executor = uec_init\<rparr> =
     (Inl (Callback_exception 0), \<lparr>m_count = 1, m_functions = [7], m_executor = \<lparr>m_function_queue = [5]\<rparr>\<rparr>)
   \<and> (\<exists>t. sem_run True uec_post queue_emplace queue_take (0 :: nat) [Acquire 8, Acquire 9, Release 2]
        \<lparr>m_count = 1, m_functions = [7], m_executor = \<lparr>m_function_queue = [5]\<rparr>\<rparr> = Inr t
      \<and> 1 \<le> length (m_functions t)
      \<and> mset (m_functions t) + uec_items (m_executor t) = {#5, 7, 8, 9#})"
proof -
  let ?s = "\<lparr>m_count = - 3, m_functions = [5, 6, 7], m_executor = uec_init\<rparr> :: (nat list, nat unsync_context) semaphore"
  let ?t = "\<lparr>m_count = 1, m_functions = [7], m_executor = \<lparr>m_function_queue = [5]\<rparr>\<rparr> :: (nat list, nat unsync_context) semaphore"
  let ?ops = "[Acquire 8, Acquire 9, Release 2] :: nat sem_op list"
  have thrown: "release_fallible True (bounded_post 1) queue_take 0 4 ?s = (Inl (Callback_exception 0), ?t)"
    by (simp add: release_fallible_def Let_def numeral_3_eq_3 bounded_post_def uec_init_def uec_post_def queue_emplace_def)
  obtain t where t: "sem_run True uec_post queue_emplace queue_take 0 ?ops ?t = Inr t"
    by (simp add: async_acquire_def release_def Let_def queue_emplace_def uec_post_def)
  show ?thesis
    using thrown t release_exception_strands [OF bounded.fallible_semaphore_axioms _ _ _ thrown
        sem_std.semaphore_over_axioms, of ?ops True]
    by (auto simp: uec_items_def)
qed

end
