(* ===== verification/Semaphore_Concurrent.thy ===== *)
theory Semaphore_Concurrent
  imports Semaphore
begin

text \<open>
  \<open>basic_semaphore\<close> (\<open>semaphore.hpp\<close>) with its operations interleaved. Every access to the atomic
  counter, to the concurrent queue and to the executor is one step; what a thread remembers between
  two of them is its program counter. The ghost field \<open>granted\<close> counts the units handed out: the
  completions posted and the successful \<open>try_acquire\<close> calls; \<open>released\<close> adds up the updates.

  Steps whose signed arithmetic would overflow are left out: the model covers executions in which
  the counter stays in the range of \<open>ptrdiff_t\<close>.
\<close>

datatype 'f sem_pc =
    Ready
  | Acq_post 'f           \<comment> \<open>after \<open>fetch_sub\<close>, the unit was there\<close>
  | Acq_enqueue 'f        \<comment> \<open>after \<open>fetch_sub\<close>, no unit\<close>
  | Try_loop int          \<comment> \<open>in \<open>try_acquire\<close>, with the value last seen\<close>
  | Rel_loop nat          \<comment> \<open>in \<open>release\<close>, with the iterations left\<close>
  | Sem_assert            \<comment> \<open>stopped at "Queue appears to be empty??"\<close>

record ('f, 'q, 'e) sem_sys =
  count :: int
  fns :: 'q
  ex :: 'e
  pcs :: "'f sem_pc list"
  granted :: nat
  released :: int

definition sem_sys_init :: "'q \<Rightarrow> 'e \<Rightarrow> int \<Rightarrow> nat \<Rightarrow> ('f, 'q, 'e) sem_sys" where
  "sem_sys_init empty_queue e desired n =
     \<lparr>count = desired, fns = empty_queue, ex = e, pcs = replicate n Ready, granted = 0, released = 0\<rparr>"

abbreviation at_pc :: "('f, 'q, 'e) sem_sys \<Rightarrow> nat \<Rightarrow> 'f sem_pc \<Rightarrow> bool" where
  "at_pc s i p \<equiv> i < length (pcs s) \<and> pcs s ! i = p"

abbreviation goto :: "nat \<Rightarrow> 'f sem_pc \<Rightarrow> ('f, 'q, 'e) sem_sys \<Rightarrow> ('f, 'q, 'e) sem_sys" where
  "goto i p s \<equiv> s\<lparr>pcs := (pcs s)[i := p]\<rparr>"

inductive sem_step ::
  "bool \<Rightarrow> ('f \<Rightarrow> 'e \<Rightarrow> 'e) \<Rightarrow> ('f \<Rightarrow> 'q \<Rightarrow> 'q) \<Rightarrow> ('q \<Rightarrow> ('f \<times> 'q) option) \<Rightarrow> 'f
     \<Rightarrow> ('f, 'q, 'e) sem_sys \<Rightarrow> ('f, 'q, 'e) sem_sys \<Rightarrow> bool"
  for debug :: bool and post :: "'f \<Rightarrow> 'e \<Rightarrow> 'e" and enqueue :: "'f \<Rightarrow> 'q \<Rightarrow> 'q"
    and try_dequeue :: "'q \<Rightarrow> ('f \<times> 'q) option" and empty_fn :: 'f
where
  acq_unit: "at_pc s i Ready \<Longrightarrow> ptrdiff_range (count s - 1) \<Longrightarrow> 0 \<le> count s - 1 \<Longrightarrow>
     sem_step debug post enqueue try_dequeue empty_fn s (goto i (Acq_post f) (s\<lparr>count := count s - 1\<rparr>))"
| acq_wait: "at_pc s i Ready \<Longrightarrow> ptrdiff_range (count s - 1) \<Longrightarrow> count s - 1 < 0 \<Longrightarrow>
     sem_step debug post enqueue try_dequeue empty_fn s (goto i (Acq_enqueue f) (s\<lparr>count := count s - 1\<rparr>))"
| acq_post: "at_pc s i (Acq_post f) \<Longrightarrow>
     sem_step debug post enqueue try_dequeue empty_fn s
       (goto i Ready (s\<lparr>ex := post f (ex s), granted := granted s + 1\<rparr>))"
| acq_enqueue: "at_pc s i (Acq_enqueue f) \<Longrightarrow>
     sem_step debug post enqueue try_dequeue empty_fn s (goto i Ready (s\<lparr>fns := enqueue f (fns s)\<rparr>))"
| try_load: "at_pc s i Ready \<Longrightarrow>
     sem_step debug post enqueue try_dequeue empty_fn s (goto i (Try_loop (count s)) s)"
| try_false: "at_pc s i (Try_loop old) \<Longrightarrow> old \<le> 0 \<Longrightarrow>
     sem_step debug post enqueue try_dequeue empty_fn s (goto i Ready s)"
| try_true: "at_pc s i (Try_loop old) \<Longrightarrow> 0 < old \<Longrightarrow> count s = old \<Longrightarrow>
     sem_step debug post enqueue try_dequeue empty_fn s
       (goto i Ready (s\<lparr>count := old - 1, granted := granted s + 1\<rparr>))"
| try_again: "at_pc s i (Try_loop old) \<Longrightarrow> 0 < old \<Longrightarrow> count s \<noteq> old \<Longrightarrow>
     sem_step debug post enqueue try_dequeue empty_fn s (goto i (Try_loop (count s)) s)"
| rel_wake: "at_pc s i Ready \<Longrightarrow> 0 \<le> u \<Longrightarrow> ptrdiff_range (count s + u) \<Longrightarrow> count s + u > 0 \<Longrightarrow>
     sem_step debug post enqueue try_dequeue empty_fn s
       (goto i (Rel_loop (nat (- count s))) (s\<lparr>count := count s + u, released := released s + u\<rparr>))"
| rel_quiet: "at_pc s i Ready \<Longrightarrow> 0 \<le> u \<Longrightarrow> ptrdiff_range (count s + u) \<Longrightarrow> \<not> count s + u > 0 \<Longrightarrow>
     sem_step debug post enqueue try_dequeue empty_fn s
       (goto i Ready (s\<lparr>count := count s + u, released := released s + u\<rparr>))"
| rel_done: "at_pc s i (Rel_loop 0) \<Longrightarrow>
     sem_step debug post enqueue try_dequeue empty_fn s (goto i Ready s)"
| rel_take: "at_pc s i (Rel_loop (Suc k)) \<Longrightarrow> try_dequeue (fns s) = Some (f, q) \<Longrightarrow>
     sem_step debug post enqueue try_dequeue empty_fn s
       (goto i (Rel_loop k) (s\<lparr>fns := q, ex := post f (ex s), granted := granted s + 1\<rparr>))"
| rel_assert: "at_pc s i (Rel_loop (Suc k)) \<Longrightarrow> try_dequeue (fns s) = None \<Longrightarrow> debug \<Longrightarrow>
     sem_step debug post enqueue try_dequeue empty_fn s (goto i Sem_assert s)"
| rel_empty: "at_pc s i (Rel_loop (Suc k)) \<Longrightarrow> try_dequeue (fns s) = None \<Longrightarrow> \<not> debug \<Longrightarrow>
     sem_step debug post enqueue try_dequeue empty_fn s
       (goto i (Rel_loop k) (s\<lparr>ex := post empty_fn (ex s)\<rparr>))"

inductive sem_reachable ::
  "bool \<Rightarrow> ('f \<Rightarrow> 'e \<Rightarrow> 'e) \<Rightarrow> ('f \<Rightarrow> 'q \<Rightarrow> 'q) \<Rightarrow> ('q \<Rightarrow> ('f \<times> 'q) option) \<Rightarrow> 'f
     \<Rightarrow> ('f, 'q, 'e) sem_sys \<Rightarrow> ('f, 'q, 'e) sem_sys \<Rightarrow> bool"
  for debug :: bool and post :: "'f \<Rightarrow> 'e \<Rightarrow> 'e" and enqueue :: "'f \<Rightarrow> 'q \<Rightarrow> 'q"
    and try_dequeue :: "'q \<Rightarrow> ('f \<times> 'q) option" and empty_fn :: 'f and s0 :: "('f, 'q, 'e) sem_sys"
where
  start: "sem_reachable debug post enqueue try_dequeue empty_fn s0 s0"
| step: "sem_reachable debug post enqueue try_dequeue empty_fn s0 s \<Longrightarrow>
     sem_step debug post enqueue try_dequeue empty_fn s t \<Longrightarrow>
     sem_reachable debug post enqueue try_dequeue empty_fn s0 t"

section \<open>The accounting invariant\<close>

text \<open>
  What a thread owes: a completion about to be posted for a unit it took, a completion about to
  join the queue, and completions a release has still to take from the queue.
\<close>

fun owes_post :: "'f sem_pc \<Rightarrow> int" where
  "owes_post (Acq_post f) = 1"
| "owes_post _ = 0"

fun owes_enqueue :: "'f sem_pc \<Rightarrow> int" where
  "owes_enqueue (Acq_enqueue f) = 1"
| "owes_enqueue _ = 0"

fun owes_dequeue :: "'f sem_pc \<Rightarrow> int" where
  "owes_dequeue (Rel_loop k) = int k"
| "owes_dequeue _ = 0"

definition to_post :: "('f, 'q, 'e) sem_sys \<Rightarrow> int" where
  "to_post s = sum_list (map owes_post (pcs s))"

definition to_enqueue :: "('f, 'q, 'e) sem_sys \<Rightarrow> int" where
  "to_enqueue s = sum_list (map owes_enqueue (pcs s))"

definition to_dequeue :: "('f, 'q, 'e) sem_sys \<Rightarrow> int" where
  "to_dequeue s = sum_list (map owes_dequeue (pcs s))"

lemma owes_nonneg: "0 \<le> owes_post p" "0 \<le> owes_enqueue p" "0 \<le> owes_dequeue p"
  by (cases p; simp)+

lemma to_nonneg: "0 \<le> to_post s" "0 \<le> to_enqueue s" "0 \<le> to_dequeue s"
  by (auto simp: to_post_def to_enqueue_def to_dequeue_def owes_nonneg intro!: sum_list_nonneg)

lemma owes_update:
  assumes "i < length ps"
  shows "sum_list (map owes_post (ps[i := p])) = sum_list (map owes_post ps) + owes_post p - owes_post (ps ! i)"
    and "sum_list (map owes_enqueue (ps[i := p])) =
      sum_list (map owes_enqueue ps) + owes_enqueue p - owes_enqueue (ps ! i)"
    and "sum_list (map owes_dequeue (ps[i := p])) =
      sum_list (map owes_dequeue ps) + owes_dequeue p - owes_dequeue (ps ! i)"
  using sum_list_map_update [OF assms, of owes_post p] sum_list_map_update [OF assms, of owes_enqueue p]
    sum_list_map_update [OF assms, of owes_dequeue p]
  by simp_all

lemmas to_defs = to_post_def to_enqueue_def to_dequeue_def

lemma to_init:
  "to_post (sem_sys_init q e d n) = 0" "to_enqueue (sem_sys_init q e d n) = 0"
  "to_dequeue (sem_sys_init q e d n) = 0"
  by (simp_all add: to_defs sem_sys_init_def sum_list_replicate)

context task_queue
begin

text \<open>
  The counter, what is owed and what was granted add up to the units put in; and the completions
  that wait, less those a release is about to take, cover the counter's deficit.
\<close>

definition sem_inv :: "int \<Rightarrow> ('f, 'q, 'e) sem_sys \<Rightarrow> bool" where
  "sem_inv desired s \<longleftrightarrow>
     count s + to_post s + to_enqueue s + int (size (items (fns s))) + int (granted s)
       = desired + released s
     \<and> 0 \<le> to_enqueue s + int (size (items (fns s))) - to_dequeue s
     \<and> - count s \<le> to_enqueue s + int (size (items (fns s))) - to_dequeue s"

lemma sem_inv_init: "items q0 = {#} \<Longrightarrow> 0 \<le> desired \<Longrightarrow> sem_inv desired (sem_sys_init q0 e desired n)"
  by (simp add: sem_inv_def to_init) (simp add: sem_sys_init_def)

lemma sem_inv_step:
  assumes "sem_step debug post put take_one empty_fn s t" and "sem_inv desired s"
  shows "sem_inv desired t"
  using assms
proof (induction rule: sem_step.induct)
  case (rel_take s i k f q)
  then show ?case
    by (simp add: sem_inv_def to_defs owes_update take_Some)
qed (simp_all add: sem_inv_def to_defs owes_update items_put)

lemma sem_reachable_inv:
  assumes "sem_reachable debug post put take_one empty_fn (sem_sys_init q0 e desired n) s"
    and "items q0 = {#}" and "0 \<le> desired"
  shows "sem_inv desired s"
  using assms(1)
  by (induction rule: sem_reachable.induct) (auto intro: sem_inv_init assms(2,3) sem_inv_step)

lemma sem_inv_granted: "sem_inv desired s \<Longrightarrow> int (granted s) \<le> desired + released s"
  using to_nonneg [of s] by (simp add: sem_inv_def)

end

section \<open>Properties under interleaving\<close>

text \<open>
  C2: safety of the semaphore under every interleaving of \<open>async_acquire\<close>, \<open>try_acquire\<close> and
  \<open>release\<close>, over any concurrent queue that neither loses nor invents elements: the units granted
  never exceed the initial counter plus the units released. Exactly, the counter, the completions
  on their way to the executor or to the queue, the completions waiting and the units granted add
  up to that sum.
\<close>

theorem sem_no_over_grant:
  assumes "task_queue enqueue try_dequeue items" and "items q0 = {#}" and "0 \<le> desired"
    and "sem_reachable debug post enqueue try_dequeue empty_fn (sem_sys_init q0 e desired n) s"
  shows "int (granted s) \<le> desired + released s
    \<and> count s + to_post s + to_enqueue s + int (size (items (fns s))) + int (granted s)
        = desired + released s"
proof -
  have "task_queue.sem_inv items desired s"
    using task_queue.sem_reachable_inv [OF assms(1,4,2,3)] .
  then show ?thesis
    using task_queue.sem_inv_granted [OF assms(1)] task_queue.sem_inv_def [OF assms(1)] by blast
qed

text \<open>
  Two threads on a fresh semaphore with counter 0: the first has decremented the counter and not
  yet stored its completion when the second releases two units.
\<close>

definition race_state :: "(nat, nat list, nat unsync_context) sem_sys" where
  "race_state = \<lparr>count = 1, fns = [], ex = uec_init, pcs = [Acq_enqueue 7, Rel_loop 1],
     granted = 0, released = 2\<rparr>"

lemma race_reachable:
  "sem_reachable debug uec_post queue_emplace queue_take 0 (sem_sys_init [] uec_init 0 2) race_state"
proof -
  let ?s0 = "sem_sys_init [] uec_init 0 2 :: (nat, nat list, nat unsync_context) sem_sys"
  let ?s1 = "\<lparr>count = - 1, fns = [], ex = uec_init, pcs = [Acq_enqueue 7, Ready], granted = 0, released = 0\<rparr>"
  let ?step = "sem_step debug uec_post queue_emplace queue_take 0"
  have "?step ?s0 ?s1"
    using sem_step.acq_wait [of 0 ?s0 debug uec_post queue_emplace queue_take 0 7]
    by (simp add: sem_sys_init_def numeral_2_eq_2)
  moreover have "?step ?s1 race_state"
    using sem_step.rel_wake [of 1 ?s1 2 debug uec_post queue_emplace queue_take 0]
    by (simp add: race_state_def)
  ultimately show ?thesis
    using sem_reachable.start by (metis sem_reachable.step)
qed

theorem sem_no_over_grant_witness:
  "task_queue queue_emplace queue_take (mset :: nat list \<Rightarrow> nat multiset)
   \<and> int (granted race_state) \<le> 0 + released race_state"
  using sem_no_over_grant [OF std_queue.task_queue_axioms _ _ race_reachable [of True]]
    std_queue.task_queue_axioms
  by simp

text \<open>
  C30: what holds for one operation at a time fails under interleaving, because the counter
  is decremented before the completion is stored. From a fresh semaphore two threads can reach,
  in a debug build, the failed assertion "Queue appears to be empty??", and in a release build a
  state in which an empty callable has been posted, all threads are done, the counter is positive
  and the completion is still waiting.
\<close>

theorem sem_release_race:
  "(\<exists>s. sem_reachable True uec_post queue_emplace queue_take (0::nat) (sem_sys_init [] uec_init 0 2) s
        \<and> Sem_assert \<in> set (pcs s))
   \<and> (\<exists>s. sem_reachable False uec_post queue_emplace queue_take (0::nat) (sem_sys_init [] uec_init 0 2) s
        \<and> m_function_queue (ex s) = [0] \<and> set (pcs s) = {Ready} \<and> 0 < count s \<and> fns s = [7])"
proof
  let ?a = "goto 1 Sem_assert race_state"
  have "sem_step True uec_post queue_emplace queue_take 0 race_state ?a"
    using sem_step.rel_assert [of 1 race_state 0] by (simp add: race_state_def)
  then have "sem_reachable True uec_post queue_emplace queue_take 0 (sem_sys_init [] uec_init 0 2) ?a"
    using race_reachable by (rule sem_reachable.step [rotated])
  moreover have "Sem_assert \<in> set (pcs ?a)"
    by (simp add: race_state_def)
  ultimately show "\<exists>s. sem_reachable True uec_post queue_emplace queue_take (0::nat)
      (sem_sys_init [] uec_init 0 2) s \<and> Sem_assert \<in> set (pcs s)"
    by blast
next
  let ?step = "sem_step False uec_post queue_emplace queue_take (0::nat)"
  let ?b = "\<lparr>count = 1, fns = [], ex = uec_post 0 uec_init, pcs = [Acq_enqueue (7::nat), Rel_loop 0],
     granted = 0, released = 2\<rparr>"
  let ?c = "\<lparr>count = 1, fns = [], ex = uec_post 0 uec_init, pcs = [Acq_enqueue (7::nat), Ready],
     granted = 0, released = 2\<rparr>"
  let ?d = "\<lparr>count = 1, fns = [7::nat], ex = uec_post 0 uec_init, pcs = [Ready, Ready],
     granted = 0, released = 2\<rparr>"
  have b: "?step race_state ?b"
    using sem_step.rel_empty [of 1 race_state 0 queue_take False uec_post queue_emplace 0]
    by (simp add: race_state_def)
  have c: "?step ?b ?c"
    using sem_step.rel_done [of 1 ?b False uec_post queue_emplace queue_take 0] by simp
  have d: "?step ?c ?d"
    using sem_step.acq_enqueue [of 0 ?c 7 False uec_post queue_emplace queue_take 0]
    by (simp add: queue_emplace_def)
  have "sem_reachable False uec_post queue_emplace queue_take 0 (sem_sys_init [] uec_init 0 2) ?d"
    by (rule sem_reachable.step [OF sem_reachable.step [OF sem_reachable.step [OF race_reachable b] c] d])
  then show "\<exists>s. sem_reachable False uec_post queue_emplace queue_take (0::nat) (sem_sys_init [] uec_init 0 2) s
        \<and> m_function_queue (ex s) = [0] \<and> set (pcs s) = {Ready} \<and> 0 < count s \<and> fns s = [7]"
    by (intro exI [of _ ?d]) (simp add: uec_post_def uec_init_def queue_emplace_def)
qed

end
