(* ===== verification/Locks.thy ===== *)
theory Locks
  imports Semaphore
begin

text \<open>
  \<open>include/tcx/async/locks/guard.hpp\<close>: \<open>unique_lock\<close>, the owner of one unit of a semaphore, with
  its three constructors, and \<open>async/locks/acquire.hpp\<close>, which hands such a lock to the completion
  of an \<open>async_acquire\<close>. Semaphores are objects of a store; a lock holds a pointer to one.

  The class declares a destructor and no copy operation, so C++ gives it an implicit copy
  constructor that copies both members.
\<close>

type_synonym ('q, 'e) sem_store = "nat \<Rightarrow> ('q, 'e) semaphore"

record unique_lock =
  m_sem :: "nat option"
  m_locked :: bool

definition lock_default :: unique_lock where
  "lock_default = \<lparr>m_sem = None, m_locked = False\<rparr>"

definition lock_adopt :: "nat \<Rightarrow> unique_lock" where
  "lock_adopt a = \<lparr>m_sem = Some a, m_locked = True\<rparr>"

definition lock_try :: "nat \<Rightarrow> ('q, 'e) sem_store \<Rightarrow> unique_lock \<times> ('q, 'e) sem_store" where
  "lock_try a st = (case try_acquire (st a) of (b, s) \<Rightarrow> (\<lparr>m_sem = Some a, m_locked = b\<rparr>, st(a := s)))"

definition lock_defer :: "nat \<Rightarrow> unique_lock" where
  "lock_defer a = \<lparr>m_sem = Some a, m_locked = False\<rparr>"

definition lock_copy :: "unique_lock \<Rightarrow> unique_lock" where
  "lock_copy l = \<lparr>m_sem = m_sem l, m_locked = m_locked l\<rparr>"

definition lock_semaphore :: "unique_lock \<Rightarrow> nat option" where
  "lock_semaphore l = m_sem l"

definition lock_release :: "unique_lock \<Rightarrow> nat option \<times> unique_lock" where
  "lock_release l = (m_sem l, l\<lparr>m_sem := None\<rparr>)"

definition owns_lock :: "unique_lock \<Rightarrow> bool" where
  "owns_lock l \<longleftrightarrow> m_sem l \<noteq> None \<and> m_locked l"

text \<open>\<open>rel\<close> is \<open>semaphore::release\<close> with its default update of 1.\<close>

definition unlock ::
  "(('q, 'e) semaphore \<Rightarrow> ('q, 'e) semaphore cxx) \<Rightarrow> unique_lock \<Rightarrow> ('q, 'e) sem_store
     \<Rightarrow> (unique_lock \<times> ('q, 'e) sem_store) cxx" where
  "unlock rel l st =
     (if owns_lock l
      then (case m_sem l of
              None \<Rightarrow> Inl Undefined
            | Some a \<Rightarrow> cxx_bind (rel (st a)) (\<lambda>s. Inr (l\<lparr>m_sem := None\<rparr>, st(a := s))))
      else Inr (l, st))"

definition lock_destroy ::
  "(('q, 'e) semaphore \<Rightarrow> ('q, 'e) semaphore cxx) \<Rightarrow> unique_lock \<Rightarrow> ('q, 'e) sem_store
     \<Rightarrow> ('q, 'e) sem_store cxx" where
  "lock_destroy rel l st = cxx_bind (unlock rel l st) (\<lambda>(l', st'). Inr st')"

text \<open>
  \<open>sempahore_acquire_operation::call\<close>: the callable stored in the semaphore remembers the user's
  completion and the semaphore; when it runs, the completion gets no error and an adopting lock.
\<close>

datatype 'h sem_callable = Acquire_completion 'h nat

definition acquire_call ::
  "('h sem_callable \<Rightarrow> 'e \<Rightarrow> 'e) \<Rightarrow> ('h sem_callable \<Rightarrow> 'q \<Rightarrow> 'q) \<Rightarrow> nat \<Rightarrow> 'h
     \<Rightarrow> ('q, 'e) sem_store \<Rightarrow> ('q, 'e) sem_store cxx" where
  "acquire_call post enqueue a f st =
     cxx_bind (async_acquire post enqueue (Acquire_completion f a) (st a)) (\<lambda>s. Inr (st(a := s)))"

fun acquire_invoke :: "'h sem_callable \<Rightarrow> 'h \<times> int \<times> unique_lock" where
  "acquire_invoke (Acquire_completion f a) = (f, 0, lock_adopt a)"

section \<open>Lemmas\<close>

lemma unlock_not_owning: "\<not> owns_lock l \<Longrightarrow> unlock rel l st = Inr (l, st)"
  by (simp add: unlock_def)

lemma unlock_owning:
  "m_sem l = Some a \<Longrightarrow> m_locked l \<Longrightarrow> rel (st a) = Inr s \<Longrightarrow>
   unlock rel l st = Inr (l\<lparr>m_sem := None\<rparr>, st(a := s))"
  by (simp add: unlock_def owns_lock_def)

lemma unlock_not_owns: "unlock rel l st = Inr (l', st') \<Longrightarrow> \<not> owns_lock l'"
  by (auto simp: unlock_def owns_lock_def cxx_bind_eq_Inr split: if_splits option.splits)

lemma release_one:
  "ptrdiff_range (m_count s + 1) \<Longrightarrow> 0 \<le> m_count s \<Longrightarrow>
   release debug post try_dequeue empty_fn 1 s = Inr (s\<lparr>m_count := m_count s + 1\<rparr>)"
  by (simp add: release_def Let_def)

text \<open>
  A lock gives back exactly the unit it took. Constructed with \<open>try_to_lock\<close> on a semaphore,
  whatever its counter, and destroyed, with or without an explicit \<open>unlock\<close> in between, it leaves
  every semaphore as it found it, and it owns the lock exactly if the counter was positive.
\<close>

lemma lock_try_balanced:
  assumes "ptrdiff_range (m_count (st a))"
  shows "case lock_try a st of (l, st1) \<Rightarrow>
    (owns_lock l \<longleftrightarrow> 0 < m_count (st a))
    \<and> lock_destroy (release debug post try_dequeue empty_fn 1) l st1 = Inr st
    \<and> cxx_bind (unlock (release debug post try_dequeue empty_fn 1) l st1)
        (\<lambda>(l', st'). lock_destroy (release debug post try_dequeue empty_fn 1) l' st') = Inr st"
proof (cases "0 < m_count (st a)")
  case True
  let ?l = "\<lparr>m_sem = Some a, m_locked = True\<rparr>" and ?st1 = "st(a := (st a)\<lparr>m_count := m_count (st a) - 1\<rparr>)"
  have l: "lock_try a st = (?l, ?st1)"
    using True by (simp add: lock_try_def try_acquire_def Let_def)
  have rel: "release debug post try_dequeue empty_fn 1 (?st1 a) = Inr (st a)"
    using True assms by (simp add: release_one)
  have u: "unlock (release debug post try_dequeue empty_fn 1) ?l ?st1 = Inr (?l\<lparr>m_sem := None\<rparr>, st)"
    using unlock_owning [of ?l a "release debug post try_dequeue empty_fn 1" ?st1 "st a", OF _ _ rel]
    by simp
  then show ?thesis
    using True by (simp add: l lock_destroy_def) (simp add: owns_lock_def unlock_def)
next
  case False
  then show ?thesis
    by (auto simp: lock_try_def try_acquire_def Let_def owns_lock_def lock_destroy_def unlock_def)
qed

lemma lock_try_balanced_witness:
  "case lock_try 0 (\<lambda>_. \<lparr>m_count = 2, m_functions = [] :: nat list, m_executor = uec_init\<rparr>) of (l, st1) \<Rightarrow>
     owns_lock l \<and> lock_destroy (release True uec_post queue_take 0 1) l st1 =
       Inr (\<lambda>_. \<lparr>m_count = 2, m_functions = [] :: nat list, m_executor = uec_init\<rparr>)"
  using lock_try_balanced [of "\<lambda>_. \<lparr>m_count = 2, m_functions = [] :: nat list, m_executor = uec_init\<rparr>" 0
      True uec_post queue_take 0]
  by auto

text \<open>
  The class does not enforce single ownership. The implicit copy of an owning lock owns the
  lock too, and destroying both releases two units for the one that was taken.
\<close>

lemma lock_copy_releases_twice:
  assumes "owns_lock l" and "m_sem l = Some a"
    and "0 \<le> m_count (st a)" and "ptrdiff_range (m_count (st a) + 2)"
  shows "owns_lock (lock_copy l)
    \<and> cxx_bind (lock_destroy (release debug post try_dequeue empty_fn 1) (lock_copy l) st)
        (lock_destroy (release debug post try_dequeue empty_fn 1) l) =
      Inr (st(a := (st a)\<lparr>m_count := m_count (st a) + 2\<rparr>))"
proof -
  let ?rel = "release debug post try_dequeue empty_fn 1"
  have locked: "m_locked l"
    using assms(1) by (simp add: owns_lock_def)
  have r1: "?rel (st a) = Inr ((st a)\<lparr>m_count := m_count (st a) + 1\<rparr>)"
    using assms(3,4) by (intro release_one) auto
  let ?st1 = "st(a := (st a)\<lparr>m_count := m_count (st a) + 1\<rparr>)"
  have "?rel (?st1 a) = Inr ((?st1 a)\<lparr>m_count := m_count (?st1 a) + 1\<rparr>)"
    using assms(3,4) by (intro release_one) auto
  then have r2: "?rel (?st1 a) = Inr ((st a)\<lparr>m_count := m_count (st a) + 2\<rparr>)"
    by simp
  have "unlock ?rel (lock_copy l) st = Inr ((lock_copy l)\<lparr>m_sem := None\<rparr>, ?st1)"
    using assms(2) locked by (intro unlock_owning r1) (simp_all add: lock_copy_def)
  moreover have "unlock ?rel l ?st1 =
      Inr (l\<lparr>m_sem := None\<rparr>, ?st1(a := (st a)\<lparr>m_count := m_count (st a) + 2\<rparr>))"
    using assms(2) locked r2 by (intro unlock_owning) auto
  ultimately show ?thesis
    using assms(1) by (simp add: lock_destroy_def lock_copy_def owns_lock_def)
qed

lemma lock_copy_releases_twice_witness:
  "(let st = (\<lambda>_::nat. \<lparr>m_count = 0, m_functions = [] :: nat list, m_executor = uec_init\<rparr>)
    in cxx_bind (lock_destroy (release True uec_post queue_take 0 1) (lock_copy (lock_adopt 0)) st)
         (lock_destroy (release True uec_post queue_take 0 1) (lock_adopt 0)) =
       Inr (st(0 := (st 0)\<lparr>m_count := 2\<rparr>)))"
  using lock_copy_releases_twice [of "lock_adopt 0" 0
      "\<lambda>_. \<lparr>m_count = 0, m_functions = [] :: nat list, m_executor = uec_init\<rparr>" True uec_post queue_take 0]
  by (simp add: Let_def owns_lock_def lock_adopt_def)

end
