(* ===== verification/Poll_Service.thy ===== *)
theory Poll_Service
  imports Prelude
begin

text \<open>
  \<open>include/tcx/services/poll_service.hpp\<close>: the service over \<open>poll(2)\<close>, a sorted vector of
  descriptors and a vector of completions kept beside it. The system call is a parameter, and so
  is what a completion does when it is called: it gets the service, since it may register again.
  Indexing a vector past its end and erasing its end iterator are \<open>Undefined\<close>.
\<close>

section \<open>Operations\<close>

record pollfd =
  fd :: int
  events :: int
  revents :: int

record 'f poll_service =
  m_fds :: "pollfd list"
  m_completions :: "'f list"


text \<open>\<open>std::lower_bound\<close> with the comparator \<open>entry.fd < fd\<close>: the length of the prefix below.\<close>

definition lower_bound :: "pollfd list \<Rightarrow> int \<Rightarrow> nat" where
  "lower_bound fds d = length (takeWhile (\<lambda>entry. fd entry < d) fds)"


definition vector_erase :: "nat \<Rightarrow> 'a list \<Rightarrow> 'a list cxx" where
  "vector_erase i xs = (if length xs \<le> i then Inl Undefined else Inr (take i xs @ drop (Suc i) xs))"

definition vector_at :: "nat \<Rightarrow> 'a list \<Rightarrow> 'a cxx" where
  "vector_at i xs = (if length xs \<le> i then Inl Undefined else Inr (xs ! i))"


text \<open>
  One iteration of the loop of \<open>poll()\<close>, for index \<open>i\<close> of the polled copy \<open>fds\<close>. \<open>moved\<close> is what a
  moved-from \<open>unique_function\<close> is left as.
\<close>

definition poll_deliver ::
  "('f \<Rightarrow> int \<Rightarrow> 'f poll_service \<Rightarrow> 'f poll_service cxx) \<Rightarrow> 'f \<Rightarrow> pollfd list \<Rightarrow> nat
     \<Rightarrow> 'f poll_service \<Rightarrow> 'f poll_service cxx" where
  "poll_deliver call moved fds i s =
     cxx_bind (vector_at i fds) (\<lambda>p.
       let it = lower_bound (m_fds s) (fd p); index = length (m_fds s) - it
       in cxx_bind (vector_erase it (m_fds s)) (\<lambda>fds'.
          cxx_bind (vector_at i (m_completions s)) (\<lambda>f.
          cxx_bind (vector_erase index ((m_completions s)[i := moved])) (\<lambda>cs.
          call f (revents p) (s\<lparr>m_fds := fds', m_completions := cs\<rparr>)))))"

fun poll_loop ::
  "('f \<Rightarrow> int \<Rightarrow> 'f poll_service \<Rightarrow> 'f poll_service cxx) \<Rightarrow> 'f \<Rightarrow> pollfd list \<Rightarrow> nat \<Rightarrow> nat
     \<Rightarrow> 'f poll_service \<Rightarrow> 'f poll_service cxx" where
  "poll_loop call moved fds 0 i s = Inr s"
| "poll_loop call moved fds (Suc k) i s =
     cxx_bind (poll_deliver call moved fds i s) (poll_loop call moved fds k (Suc i))"

text \<open>\<open>os_poll\<close> gives the return value of \<open>::poll\<close>, \<open>errno\<close>, and the descriptors with \<open>revents\<close> set.\<close>

definition poll ::
  "(pollfd list \<Rightarrow> int \<times> int \<times> pollfd list)
     \<Rightarrow> ('f \<Rightarrow> int \<Rightarrow> 'f poll_service \<Rightarrow> 'f poll_service cxx) \<Rightarrow> 'f
     \<Rightarrow> 'f poll_service \<Rightarrow> 'f poll_service cxx" where
  "poll os_poll call moved s =
     (case os_poll (m_fds s) of (res, errno, fds) \<Rightarrow>
        if res < 0 then Inl (System_error errno)
        else poll_loop call moved fds (nat res) 0 s)"

section \<open>The pairing of descriptors and completions\<close>

text \<open>
  The descriptors are strictly increasing and there is one completion for each; the completion at
  distance \<open>i\<close> from the end belongs to the descriptor at index \<open>i\<close>.
\<close>

definition poll_inv :: "'f poll_service \<Rightarrow> bool" where
  "poll_inv s \<longleftrightarrow> sorted_wrt (<) (map fd (m_fds s)) \<and> length (m_completions s) = length (m_fds s)"


















section \<open>Properties\<close>







text \<open>
  C35: \<open>poll()\<close> cannot deliver an event. Whatever the system call reports as ready (a positive count,
  for the descriptors it was given), the first iteration erases the end iterator of the completions,
  because the index is measured from the end of the vector: on a well-formed service with any
  descriptor registered, the call is undefined.
\<close>

theorem poll_delivery_undefined:
  assumes "poll_inv s" and "m_fds s \<noteq> []"
    and "os_poll (m_fds s) = (res, errno, fds)" and "0 < res"
    and "map fd fds = map fd (m_fds s)"
  shows "poll os_poll call moved s = Inl Undefined"
proof -
  obtain k where k: "nat res = Suc k"
    using assms(4) by (cases "nat res") auto
  obtain p ps where p: "m_fds s = p # ps"
    using assms(2) by (cases "m_fds s") auto
  obtain p' ps' where p': "fds = p' # ps'" "fd p' = fd p"
    using assms(5) p by (cases fds) auto
  have "lower_bound (m_fds s) (fd p) = 0"
    by (simp add: p lower_bound_def)
  moreover have "length (m_completions s) = length (m_fds s)"
    using assms(1) by (simp add: poll_inv_def)
  ultimately have "poll_deliver call moved fds 0 s = Inl Undefined"
    by (simp add: poll_deliver_def vector_at_def vector_erase_def p p' Let_def)
  then show ?thesis
    using assms(3,4) by (simp add: poll_def k)
qed

theorem poll_delivery_undefined_witness:
  "poll (\<lambda>fds. (1, 0, map (\<lambda>p. p\<lparr>revents := 1\<rparr>) fds)) (\<lambda>f r s. Inr s) ''moved''
     \<lparr>m_fds = [\<lparr>fd = 3, events = 1, revents = 0\<rparr>], m_completions = [''cb'']\<rparr> = Inl Undefined"
  by (rule poll_delivery_undefined
      [where res = 1 and errno = 0 and fds = "[\<lparr>fd = 3, events = 1, revents = 1\<rparr>]"])
    (simp_all add: poll_inv_def)

lemma poll_error:
  "os_poll (m_fds s) = (res, errno, fds) \<Longrightarrow> res < 0 \<Longrightarrow>
   poll os_poll call moved s = Inl (System_error errno)"
  by (simp add: poll_def)

end
