(* ===== verification/Unique_Function.thy ===== *)
theory Unique_Function
  imports Prelude
begin

text \<open>
  \<open>include/tcx/unique_function.hpp\<close>: a move-only owner of a callable, with a 40-byte inline buffer.
  The memory is explicit. A place holds at most one object, at a byte offset: the buffer of the
  \<open>unique_function\<close> number \<open>i\<close>, the temporary buffer of \<open>swap\<close>, or a heap block. Constructing over a
  live object, destroying or moving from a place without one, freeing a block twice and calling
  through a null pointer are \<open>Undefined\<close>; so the theorems that exclude \<open>Undefined\<close> say that no
  callable is destroyed twice, leaked by overwriting, or used after its end.

  Two constructors can seldom be used. The one for a \<open>std::reference_wrapper<F>\<close> calls the referent as
  a \<open>typename F::type\<close>: it does not compile for an \<open>F\<close> without such a member type, which is what most
  callables are, calls the referent when the member type names \<open>F\<close> itself, and accesses it as an object
  of another type otherwise. The one for what converts to a function pointer is ambiguous with the one
  for callables, whose requirement a function pointer and a lambda without captures satisfy as well: it
  is left for a function given by its name, and for a type with such a conversion that cannot be
  constructed from the argument, as for an lvalue of a class that cannot be copied. Both are modelled as what they do where they are chosen.

  \<open>mv\<close> is what moving a callable leaves behind.
\<close>

section \<open>Memory\<close>

datatype place = Storage nat | Tmp | Heap nat

datatype ptr =
    Null
  | In_object place nat   \<comment> \<open>to the object at this byte offset of the place\<close>
  | External nat          \<comment> \<open>a referent or a function, not owned\<close>

datatype vtable = Vt_inline | Vt_heap

datatype call =
    Call_ref        \<comment> \<open>of a reference to an \<open>F\<close> whose \<open>F::type\<close> is \<open>F\<close>\<close>
  | Call_ref_other  \<comment> \<open>of a reference to an \<open>F\<close> whose \<open>F::type\<close> is another type\<close>
  | Call_fn
  | Call_obj

record virtual_state =
  vtable :: "vtable option"
  call :: "call option"
  data :: ptr

record 'c mem =
  funs :: "nat \<Rightarrow> virtual_state"
  objs :: "place \<Rightarrow> (nat \<times> 'c) option"
  allocated :: "nat set"
  next_block :: nat

definition construct_at :: "place \<Rightarrow> nat \<Rightarrow> 'c \<Rightarrow> 'c mem \<Rightarrow> 'c mem cxx" where
  "construct_at p off c m =
     (case objs m p of
        Some _ \<Rightarrow> Inl Undefined
      | None \<Rightarrow> Inr (m\<lparr>objs := (objs m)(p := Some (off, c))\<rparr>))"

definition object_at :: "ptr \<Rightarrow> 'c mem \<Rightarrow> (place \<times> 'c) cxx" where
  "object_at d m =
     (case d of
        In_object p off \<Rightarrow>
          (case objs m p of
             Some (off', c) \<Rightarrow> if off = off' then Inr (p, c) else Inl Undefined
           | None \<Rightarrow> Inl Undefined)
      | _ \<Rightarrow> Inl Undefined)"

definition destroy_at :: "ptr \<Rightarrow> 'c mem \<Rightarrow> 'c mem cxx" where
  "destroy_at d m =
     cxx_bind (object_at d m) (\<lambda>(p, c). Inr (m\<lparr>objs := (objs m)(p := None)\<rparr>))"

definition delete_at :: "ptr \<Rightarrow> 'c mem \<Rightarrow> 'c mem cxx" where
  "delete_at d m =
     (case d of
        In_object (Heap h) 0 \<Rightarrow>
          if h \<in> allocated m
          then cxx_bind (destroy_at d m) (\<lambda>m'. Inr (m'\<lparr>allocated := allocated m' - {h}\<rparr>))
          else Inl Undefined
      | _ \<Rightarrow> Inl Undefined)"

section \<open>The two virtual tables\<close>

definition vt_move_construct ::
  "('c \<Rightarrow> 'c) \<Rightarrow> vtable option \<Rightarrow> place \<Rightarrow> nat \<Rightarrow> ptr \<Rightarrow> 'c mem \<Rightarrow> 'c mem cxx" where
  "vt_move_construct mv vt p off src m =
     (case vt of
        None \<Rightarrow> Inl Undefined
      | Some _ \<Rightarrow>
          cxx_bind (object_at src m) (\<lambda>(sp, c).
          cxx_bind (construct_at p off c m) (\<lambda>m'.
          Inr (m'\<lparr>objs := (objs m')(sp := map_option (\<lambda>(o', c). (o', mv c)) (objs m' sp))\<rparr>))))"

definition vt_destroy :: "vtable option \<Rightarrow> ptr \<Rightarrow> 'c mem \<Rightarrow> 'c mem cxx" where
  "vt_destroy vt d m =
     (case vt of
        None \<Rightarrow> Inl Undefined
      | Some Vt_inline \<Rightarrow> destroy_at d m
      | Some Vt_heap \<Rightarrow> delete_at d m)"

section \<open>Constructors\<close>

definition empty_state :: virtual_state where
  "empty_state = \<lparr>vtable = None, call = None, data = Null\<rparr>"

definition set_fun :: "nat \<Rightarrow> virtual_state \<Rightarrow> 'c mem \<Rightarrow> 'c mem" where
  "set_fun i v m = m\<lparr>funs := (funs m)(i := v)\<rparr>"

definition construct_default :: "nat \<Rightarrow> 'c mem \<Rightarrow> 'c mem" where
  "construct_default i m = set_fun i empty_state m"

text \<open>From a \<open>std::reference_wrapper<F>\<close>; \<open>same\<close> says that \<open>F::type\<close> is \<open>F\<close>.\<close>

definition construct_ref :: "bool \<Rightarrow> nat \<Rightarrow> nat \<Rightarrow> 'c mem \<Rightarrow> 'c mem" where
  "construct_ref same i r m =
     set_fun i \<lparr>vtable = None, call = Some (if same then Call_ref else Call_ref_other), data = External r\<rparr> m"

definition construct_fn :: "nat \<Rightarrow> nat \<Rightarrow> 'c mem \<Rightarrow> 'c mem" where
  "construct_fn i f m = set_fun i \<lparr>vtable = None, call = Some Call_fn, data = External f\<rparr> m"

text \<open>The sizes of a 64-bit target: \<open>sizeof(virtual_state)\<close> and of the buffer.\<close>

definition sizeof_state :: nat where
  "sizeof_state = 24"

definition storage_size :: nat where
  "storage_size = 64 - sizeof_state"

text \<open>\<open>std::align\<close>: the offset of the first aligned address of the space, if the size fits after it.\<close>

definition std_align :: "nat \<Rightarrow> nat \<Rightarrow> nat \<Rightarrow> nat \<Rightarrow> nat option" where
  "std_align al sz address space =
     (let pad = (al - address mod al) mod al in if sz + pad \<le> space then Some pad else None)"

text \<open>
  The in-place constructor for a type of this alignment and size: \<open>base\<close> is the address of the
  \<open>unique_function\<close> object, \<open>nothrow_move\<close> the type trait.
\<close>

definition inline_offset :: "bool \<Rightarrow> nat \<Rightarrow> nat \<Rightarrow> nat \<Rightarrow> nat option" where
  "inline_offset nothrow_move al sz base =
     (if nothrow_move then std_align al sz (base + sizeof_state) storage_size else None)"

definition construct_in_place ::
  "bool \<Rightarrow> nat \<Rightarrow> nat \<Rightarrow> nat \<Rightarrow> nat \<Rightarrow> 'c \<Rightarrow> 'c mem \<Rightarrow> 'c mem cxx" where
  "construct_in_place nothrow_move al sz base i c m =
     (case inline_offset nothrow_move al sz base of
        Some off \<Rightarrow>
          cxx_bind (construct_at (Storage i) off c m) (\<lambda>m'.
          Inr (set_fun i \<lparr>vtable = Some Vt_inline, call = Some Call_obj,
                 data = In_object (Storage i) off\<rparr> m'))
      | None \<Rightarrow>
          let h = next_block m;
              m1 = m\<lparr>allocated := insert h (allocated m), next_block := Suc h\<rparr>
          in cxx_bind (construct_at (Heap h) 0 c m1) (\<lambda>m'.
             Inr (set_fun i \<lparr>vtable = Some Vt_heap, call = Some Call_obj,
                    data = In_object (Heap h) 0\<rparr> m')))"

section \<open>Swap, moves, destruction, call\<close>

text \<open>The test \<open>begin(m_storage) <= data && data < end(m_storage)\<close>: the offset when it holds.\<close>

definition inline_at :: "nat \<Rightarrow> 'c mem \<Rightarrow> nat option" where
  "inline_at i m =
     (case data (funs m i) of
        In_object (Storage i') off \<Rightarrow> if i' = i \<and> off < storage_size then Some off else None
      | _ \<Rightarrow> None)"

definition swap_both_inline ::
  "('c \<Rightarrow> 'c) \<Rightarrow> nat \<Rightarrow> nat \<Rightarrow> nat \<Rightarrow> nat \<Rightarrow> 'c mem \<Rightarrow> 'c mem cxx" where
  "swap_both_inline mv i j off1 off2 m =
     (let first_index = sizeof_state + off1; second_index = sizeof_state + off2;
          vt1 = vtable (funs m i); vt2 = vtable (funs m j);
          d1 = data (funs m i); d2 = data (funs m j)
      in cxx_bind (vt_move_construct mv vt1 Tmp first_index d1 m) (\<lambda>m1.
         cxx_bind (vt_destroy vt1 d1 m1) (\<lambda>m2.
         cxx_bind (vt_move_construct mv vt2 (Storage i) (second_index - sizeof_state) d2 m2) (\<lambda>m3.
         cxx_bind (vt_destroy vt2 d2 m3) (\<lambda>m4.
         cxx_bind (vt_move_construct mv vt1 (Storage j) (first_index - sizeof_state)
                     (In_object Tmp first_index) m4) (\<lambda>m5.
         cxx_bind (vt_destroy vt1 (In_object Tmp first_index) m5) (\<lambda>m6.
         let f = funs m6 i; s = funs m6 j
         in Inr (set_fun j (s\<lparr>vtable := vtable f, call := call f,
                              data := In_object (Storage j) (first_index - sizeof_state)\<rparr>)
              (set_fun i (f\<lparr>vtable := vtable s, call := call s,
                            data := In_object (Storage i) (second_index - sizeof_state)\<rparr>) m6)))))))))"

definition swap_first_inline :: "('c \<Rightarrow> 'c) \<Rightarrow> nat \<Rightarrow> nat \<Rightarrow> nat \<Rightarrow> 'c mem \<Rightarrow> 'c mem cxx" where
  "swap_first_inline mv i j first_index m =
     cxx_bind (vt_move_construct mv (vtable (funs m i)) (Storage j) first_index (data (funs m i)) m) (\<lambda>m1.
     cxx_bind (vt_destroy (vtable (funs m i)) (data (funs m i)) m1) (\<lambda>m2.
     let f = funs m2 i; s = funs m2 j
     in Inr (set_fun j (s\<lparr>vtable := vtable f, call := call f, data := In_object (Storage j) first_index\<rparr>)
          (set_fun i (f\<lparr>vtable := vtable s, call := call s, data := data s\<rparr>) m2))))"

text \<open>
  \<open>swap(first, second)\<close>. In the third branch the code calls itself with the arguments exchanged,
  which takes the second branch.
\<close>

definition swap :: "('c \<Rightarrow> 'c) \<Rightarrow> nat \<Rightarrow> nat \<Rightarrow> 'c mem \<Rightarrow> 'c mem cxx" where
  "swap mv i j m =
     (case (inline_at i m, inline_at j m) of
        (Some off1, Some off2) \<Rightarrow> swap_both_inline mv i j off1 off2 m
      | (Some off1, None) \<Rightarrow> swap_first_inline mv i j off1 m
      | (None, Some off2) \<Rightarrow> swap_first_inline mv j i off2 m
      | (None, None) \<Rightarrow>
          let f = funs m i; s = funs m j
          in Inr (set_fun j (s\<lparr>vtable := vtable f, call := call f, data := data f\<rparr>)
               (set_fun i (f\<lparr>vtable := vtable s, call := call s, data := data s\<rparr>) m)))"

definition construct_move :: "('c \<Rightarrow> 'c) \<Rightarrow> nat \<Rightarrow> nat \<Rightarrow> 'c mem \<Rightarrow> 'c mem cxx" where
  "construct_move mv i other m = swap mv i other (construct_default i m)"

definition assign_move :: "('c \<Rightarrow> 'c) \<Rightarrow> nat \<Rightarrow> nat \<Rightarrow> 'c mem \<Rightarrow> 'c mem cxx" where
  "assign_move mv i other m = swap mv i other m"

definition destroy_fun :: "nat \<Rightarrow> 'c mem \<Rightarrow> 'c mem cxx" where
  "destroy_fun i m =
     cxx_bind (if vtable (funs m i) \<noteq> None \<and> data (funs m i) \<noteq> Null
               then vt_destroy (vtable (funs m i)) (data (funs m i)) m else Inr m)
       (\<lambda>m'. Inr (set_fun i empty_state m'))"

definition fun_bool :: "nat \<Rightarrow> 'c mem \<Rightarrow> bool" where
  "fun_bool i m \<longleftrightarrow> call (funs m i) \<noteq> None"

text \<open>
  \<open>operator()\<close>: \<open>run\<close> is what an owned callable does, which may change its own state; \<open>ext\<close> what a
  referent or a function returns. The lambda for a reference to an \<open>F\<close> with another \<open>F::type\<close> uses the
  referent as an object of that type, which is undefined.
\<close>

definition invoke ::
  "('c \<Rightarrow> 'r \<times> 'c) \<Rightarrow> (nat \<Rightarrow> 'r) \<Rightarrow> nat \<Rightarrow> 'c mem \<Rightarrow> ('r \<times> 'c mem) cxx" where
  "invoke run ext i m =
     (case call (funs m i) of
        None \<Rightarrow> Inl Undefined
      | Some Call_obj \<Rightarrow>
          cxx_bind (object_at (data (funs m i)) m) (\<lambda>(p, c).
          Inr (fst (run c), m\<lparr>objs := (objs m)(p := map_option (\<lambda>(o', _). (o', snd (run c))) (objs m p))\<rparr>))
      | Some Call_ref_other \<Rightarrow> Inl Undefined
      | Some _ \<Rightarrow>
          (case data (funs m i) of External r \<Rightarrow> Inr (ext r, m) | _ \<Rightarrow> Inl Undefined))"

section \<open>Well-formed memory and what a function holds\<close>

datatype 'c held = Nothing | Ref nat | Ref_other nat | Fn nat | Obj 'c

definition holds :: "'c mem \<Rightarrow> nat \<Rightarrow> 'c held" where
  "holds m i =
     (case call (funs m i) of
        None \<Rightarrow> Nothing
      | Some Call_ref \<Rightarrow> (case data (funs m i) of External r \<Rightarrow> Ref r | _ \<Rightarrow> Nothing)
      | Some Call_ref_other \<Rightarrow> (case data (funs m i) of External r \<Rightarrow> Ref_other r | _ \<Rightarrow> Nothing)
      | Some Call_fn \<Rightarrow> (case data (funs m i) of External r \<Rightarrow> Fn r | _ \<Rightarrow> Nothing)
      | Some Call_obj \<Rightarrow> (case data (funs m i) of
            In_object p off \<Rightarrow> (case objs m p of Some (off', c) \<Rightarrow> Obj c | None \<Rightarrow> Nothing)
          | _ \<Rightarrow> Nothing))"

text \<open>The four shapes of a \<open>unique_function\<close>: empty, not owning, inline, on the heap.\<close>

definition is_empty_at :: "'c mem \<Rightarrow> nat \<Rightarrow> bool" where
  "is_empty_at m i \<longleftrightarrow> funs m i = empty_state"

definition is_external_at :: "'c mem \<Rightarrow> nat \<Rightarrow> bool" where
  "is_external_at m i \<longleftrightarrow>
     (\<exists>k r. k \<noteq> Call_obj \<and> funs m i = \<lparr>vtable = None, call = Some k, data = External r\<rparr>)"

definition is_inline_at :: "'c mem \<Rightarrow> nat \<Rightarrow> nat \<Rightarrow> 'c \<Rightarrow> bool" where
  "is_inline_at m i off c \<longleftrightarrow> off < storage_size \<and> objs m (Storage i) = Some (off, c)
     \<and> funs m i = \<lparr>vtable = Some Vt_inline, call = Some Call_obj, data = In_object (Storage i) off\<rparr>"

definition is_heap_at :: "'c mem \<Rightarrow> nat \<Rightarrow> nat \<Rightarrow> 'c \<Rightarrow> bool" where
  "is_heap_at m i h c \<longleftrightarrow> h \<in> allocated m \<and> objs m (Heap h) = Some (0, c)
     \<and> funs m i = \<lparr>vtable = Some Vt_heap, call = Some Call_obj, data = In_object (Heap h) 0\<rparr>"

definition shaped_at :: "'c mem \<Rightarrow> nat \<Rightarrow> bool" where
  "shaped_at m i \<longleftrightarrow> is_empty_at m i \<or> is_external_at m i
     \<or> (\<exists>off c. is_inline_at m i off c) \<or> (\<exists>h c. is_heap_at m i h c)"

text \<open>
  Every function has one of the shapes, every live object is owned by exactly one function, every
  heap block holds a live object, and the temporary buffer is free.
\<close>

definition wf_mem :: "'c mem \<Rightarrow> bool" where
  "wf_mem m \<longleftrightarrow> (\<forall>i. shaped_at m i)
     \<and> objs m Tmp = None
     \<and> (\<forall>i. objs m (Storage i) \<noteq> None \<longrightarrow> (\<exists>off c. is_inline_at m i off c))
     \<and> (\<forall>h. objs m (Heap h) \<noteq> None \<longrightarrow> (\<exists>i c. is_heap_at m i h c))
     \<and> (\<forall>h i j c d. is_heap_at m i h c \<longrightarrow> is_heap_at m j h d \<longrightarrow> i = j)
     \<and> (\<forall>h \<in> allocated m. h < next_block m \<and> objs m (Heap h) \<noteq> None)"

lemmas shape_defs = is_empty_at_def is_external_at_def is_inline_at_def is_heap_at_def

lemma inline_at_inline: "is_inline_at m i off c \<Longrightarrow> inline_at i m = Some off"
  by (simp add: is_inline_at_def inline_at_def)

lemma inline_at_other:
  "is_empty_at m i \<or> is_external_at m i \<or> (\<exists>h c. is_heap_at m i h c) \<Longrightarrow> inline_at i m = None"
  by (auto simp: shape_defs inline_at_def empty_state_def)

lemma shaped_cases:
  assumes "shaped_at m i"
  obtains (inline) off c where "is_inline_at m i off c"
    | (other) "inline_at i m = None" "is_empty_at m i \<or> is_external_at m i \<or> (\<exists>h c. is_heap_at m i h c)"
  using assms inline_at_other [of m i] by (auto simp: shaped_at_def)

lemma not_inline: "inline_at i m = None \<Longrightarrow> \<not> is_inline_at m i off c"
  using inline_at_inline by force

lemma wf_shaped: "wf_mem m \<Longrightarrow> shaped_at m i"
  by (simp add: wf_mem_def)

lemma wf_tmp: "wf_mem m \<Longrightarrow> objs m Tmp = None"
  by (simp add: wf_mem_def)

lemma wf_storage: "wf_mem m \<Longrightarrow> objs m (Storage i) \<noteq> None \<Longrightarrow> \<exists>off c. is_inline_at m i off c"
  unfolding wf_mem_def by (elim conjE) metis

lemma wf_heap: "wf_mem m \<Longrightarrow> objs m (Heap h) \<noteq> None \<Longrightarrow> \<exists>i c. is_heap_at m i h c"
  unfolding wf_mem_def by (elim conjE) metis

lemma wf_heap_unique: "wf_mem m \<Longrightarrow> is_heap_at m i h c \<Longrightarrow> is_heap_at m j h d \<Longrightarrow> i = j"
  unfolding wf_mem_def by (elim conjE) metis

lemma wf_allocated: "wf_mem m \<Longrightarrow> h \<in> allocated m \<Longrightarrow> h < next_block m \<and> objs m (Heap h) \<noteq> None"
  unfolding wf_mem_def by (elim conjE) (rule bspec)

lemma storage_free: "wf_mem m \<Longrightarrow> inline_at i m = None \<Longrightarrow> objs m (Storage i) = None"
  by (rule ccontr) (drule (1) wf_storage, elim exE, simp add: not_inline)

section \<open>Swap\<close>

text \<open>The memory after a swap, in each of the three cases.\<close>

lemma state_update_all:
  "(v :: virtual_state)\<lparr>vtable := a, call := b, data := d\<rparr> = \<lparr>vtable = a, call = b, data = d\<rparr>"
  by (rule virtual_state.equality) simp_all

lemma state_copy [simp]:
  "(v :: virtual_state)\<lparr>vtable := vtable w, call := call w, data := data w\<rparr> = w"
  by (rule virtual_state.equality) simp_all

text \<open>Moving an object to a free place and destroying the source relocates it.\<close>

lemma relocate:
  assumes "objs m sp = Some (o', c)" and "objs m p = None"
  shows "cxx_bind (vt_move_construct mv (Some Vt_inline) p off (In_object sp o') m) (\<lambda>m1.
      cxx_bind (vt_destroy (Some Vt_inline) (In_object sp o') m1) k) =
    k (m\<lparr>objs := (objs m)(sp := None, p := Some (off, c))\<rparr>)"
proof -
  have ne: "p \<noteq> sp" using assms by auto
  then have upd: "(objs m)(p := Some (off, c), sp := None) = (objs m)(sp := None, p := Some (off, c))"
    by (simp add: fun_upd_twist)
  show ?thesis
    using assms ne by (simp add: vt_move_construct_def vt_destroy_def destroy_at_def object_at_def
        construct_at_def upd)
qed

lemma swap_neither:
  "inline_at i m = None \<Longrightarrow> inline_at j m = None \<Longrightarrow>
   swap mv i j m = Inr (m\<lparr>funs := (funs m)(i := funs m j, j := funs m i)\<rparr>)"
  by (simp add: swap_def Let_def set_fun_def)

lemma swap_first_inline_result:
  assumes "is_inline_at m i off c" and "i \<noteq> j" and "objs m (Storage j) = None"
  shows "swap_first_inline mv i j off m =
    Inr (m\<lparr>funs := (funs m)(i := funs m j,
             j := \<lparr>vtable = Some Vt_inline, call = Some Call_obj, data = In_object (Storage j) off\<rparr>),
           objs := (objs m)(Storage i := None, Storage j := Some (off, c))\<rparr>)"
  using assms by (simp add: swap_first_inline_def is_inline_at_def relocate set_fun_def Let_def
      state_update_all)

lemma swap_both_result:
  assumes "is_inline_at m i off1 c1" and "is_inline_at m j off2 c2" and "i \<noteq> j" and "objs m Tmp = None"
  shows "swap_both_inline mv i j off1 off2 m =
    Inr (m\<lparr>funs := (funs m)
             (i := \<lparr>vtable = Some Vt_inline, call = Some Call_obj, data = In_object (Storage i) off2\<rparr>,
              j := \<lparr>vtable = Some Vt_inline, call = Some Call_obj, data = In_object (Storage j) off1\<rparr>),
           objs := (objs m)(Storage i := Some (off2, c2), Storage j := Some (off1, c1))\<rparr>)"
proof -
  have "(objs m)(Storage i := None, Tmp := Some (sizeof_state + off1, c1), Storage j := None,
      Storage i := Some (off2, c2), Tmp := None, Storage j := Some (off1, c1)) =
    (objs m)(Storage i := Some (off2, c2), Storage j := Some (off1, c1))"
    using assms(3,4) by (auto simp: fun_eq_iff)
  then show ?thesis
    using assms by (simp add: swap_both_inline_def is_inline_at_def relocate set_fun_def Let_def
        state_update_all)
qed

text \<open>
  \<open>m'\<close> holds at \<open>k\<close> what \<open>m\<close> holds at \<open>\<tau> k\<close>: an inline object at the same offset of the new buffer,
  every other state word for word.
\<close>

definition transposed :: "nat \<Rightarrow> nat \<Rightarrow> nat \<Rightarrow> nat" where
  "transposed i j k = (if k = i then j else if k = j then i else k)"

lemma transposed_involution [simp]: "transposed i j (transposed i j k) = k"
  by (simp add: transposed_def)

definition relocated :: "(nat \<Rightarrow> nat) \<Rightarrow> 'c mem \<Rightarrow> 'c mem \<Rightarrow> bool" where
  "relocated \<tau> m m' \<longleftrightarrow>
     (\<forall>k. (\<exists>off c. is_inline_at m (\<tau> k) off c \<and> is_inline_at m' k off c)
        \<or> (inline_at (\<tau> k) m = None \<and> objs m' (Storage k) = None \<and> funs m' k = funs m (\<tau> k)))
     \<and> (\<forall>h. objs m' (Heap h) = objs m (Heap h)) \<and> objs m' Tmp = None
     \<and> allocated m' = allocated m \<and> next_block m' = next_block m"

lemma relocated_cases:
  assumes "relocated \<tau> m m'"
  obtains (inline) off c where "is_inline_at m (\<tau> k) off c" "is_inline_at m' k off c"
    | (other) "inline_at (\<tau> k) m = None" "objs m' (Storage k) = None" "funs m' k = funs m (\<tau> k)"
proof -
  have "(\<exists>off c. is_inline_at m (\<tau> k) off c \<and> is_inline_at m' k off c)
      \<or> (inline_at (\<tau> k) m = None \<and> objs m' (Storage k) = None \<and> funs m' k = funs m (\<tau> k))"
    using assms unfolding relocated_def by (elim conjE) (erule spec)
  then show ?thesis
    using inline other by metis
qed

lemma relocated_rest:
  assumes "relocated \<tau> m m'"
  shows "objs m' (Heap h) = objs m (Heap h)" "objs m' Tmp = None" "allocated m' = allocated m"
    "next_block m' = next_block m"
  using assms by (simp_all add: relocated_def)

lemma relocated_shapes:
  assumes r: "relocated \<tau> m m'"
  shows "is_heap_at m' k h c \<longleftrightarrow> is_heap_at m (\<tau> k) h c"
    and "is_empty_at m' k \<longleftrightarrow> is_empty_at m (\<tau> k)"
    and "is_external_at m' k \<longleftrightarrow> is_external_at m (\<tau> k)"
    and "is_inline_at m (\<tau> k) off c \<longleftrightarrow> is_inline_at m' k off c"
proof -
  show "is_heap_at m' k h c \<longleftrightarrow> is_heap_at m (\<tau> k) h c"
    using r by (cases rule: relocated_cases [of _ _ _ k])
      (simp_all add: is_inline_at_def is_heap_at_def relocated_rest [OF r])
  show "is_empty_at m' k \<longleftrightarrow> is_empty_at m (\<tau> k)"
    using r by (cases rule: relocated_cases [of _ _ _ k])
      (simp_all add: is_inline_at_def is_empty_at_def empty_state_def)
  show "is_external_at m' k \<longleftrightarrow> is_external_at m (\<tau> k)"
    using r by (cases rule: relocated_cases [of _ _ _ k])
      (simp_all add: is_inline_at_def is_external_at_def)
  show "is_inline_at m (\<tau> k) off c \<longleftrightarrow> is_inline_at m' k off c"
    using r
  proof (cases rule: relocated_cases [of _ _ _ k])
    case (inline off' c')
    then show ?thesis by (auto simp: is_inline_at_def)
  next
    case other
    then show ?thesis using not_inline [OF other(1)] by (simp add: is_inline_at_def)
  qed
qed

lemma relocated_wf:
  assumes r: "relocated \<tau> m m'" and inv: "\<And>k. \<tau> (\<tau> k) = k" and wf: "wf_mem m"
  shows "wf_mem m'"
proof -
  note sh = relocated_shapes [OF r]
  have shaped: "shaped_at m' k" for k
    using wf_shaped [OF wf, of "\<tau> k"] by (simp add: shaped_at_def sh)
  have storage: "\<exists>off c. is_inline_at m' k off c" if "objs m' (Storage k) \<noteq> None" for k
    using relocated_cases [OF r, of k] that by metis
  have heap: "\<exists>i c. is_heap_at m' i h c" if "objs m' (Heap h) \<noteq> None" for h
  proof -
    have "objs m (Heap h) \<noteq> None"
      using r that by (simp add: relocated_def)
    then obtain i c where "is_heap_at m i h c"
      using wf_heap [OF wf] by blast
    then have "is_heap_at m' (\<tau> i) h c"
      by (simp add: sh inv)
    then show ?thesis by blast
  qed
  have unique: "i = j" if "is_heap_at m' i h c" "is_heap_at m' j h d" for h i j c d
  proof -
    have "\<tau> i = \<tau> j"
      using that wf_heap_unique [OF wf] unfolding sh(1) by blast
    then have "\<tau> (\<tau> i) = \<tau> (\<tau> j)"
      by (rule arg_cong)
    then show ?thesis
      by (simp only: inv)
  qed
  have alloc: "h < next_block m' \<and> objs m' (Heap h) \<noteq> None" if "h \<in> allocated m'" for h
    using wf_allocated [OF wf, of h] r that by (simp add: relocated_def)
  have "objs m' Tmp = None"
    using r by (simp add: relocated_def)
  with shaped storage heap unique alloc show ?thesis
    unfolding wf_mem_def by blast
qed

lemma holds_inline: "is_inline_at m i off c \<Longrightarrow> holds m i = Obj c"
  by (simp add: is_inline_at_def holds_def)

lemma holds_heap: "is_heap_at m i h c \<Longrightarrow> holds m i = Obj c"
  by (simp add: is_heap_at_def holds_def)

lemma holds_empty: "is_empty_at m i \<Longrightarrow> holds m i = Nothing"
  by (simp add: is_empty_at_def holds_def empty_state_def)

lemma holds_external:
  assumes "is_external_at m i"
  shows "holds m i \<noteq> Nothing" "funs m' k = funs m i \<Longrightarrow> holds m' k = holds m i"
proof -
  obtain q r where "q \<noteq> Call_obj" "funs m i = \<lparr>vtable = None, call = Some q, data = External r\<rparr>"
    using assms by (auto simp: is_external_at_def)
  then show "holds m i \<noteq> Nothing" "funs m' k = funs m i \<Longrightarrow> holds m' k = holds m i"
    by (cases q; simp add: holds_def)+
qed

lemma relocated_holds:
  assumes r: "relocated \<tau> m m'" and wf: "wf_mem m"
  shows "holds m' k = holds m (\<tau> k)"
proof (cases "\<exists>off c. is_inline_at m (\<tau> k) off c")
  case True
  then show ?thesis
    using relocated_shapes(4) [OF r] holds_inline by metis
next
  case False
  then have f: "funs m' k = funs m (\<tau> k)"
    using relocated_cases [OF r, of k "funs m' k = funs m (\<tau> k)"] by blast
  note heap = relocated_rest(1) [OF r]
  from False wf_shaped [OF wf, of "\<tau> k"]
  consider "is_empty_at m (\<tau> k)" | "is_external_at m (\<tau> k)" | h c where "is_heap_at m (\<tau> k) h c"
    by (auto simp: shaped_at_def)
  then show ?thesis
  proof cases
    case 1
    then show ?thesis using f by (simp add: is_empty_at_def empty_state_def holds_def)
  next
    case 2
    then show ?thesis using f by (rule holds_external)
  next
    case 3
    then show ?thesis using f heap by (simp add: is_heap_at_def holds_def)
  qed
qed

text \<open>Each of the three cases of a swap exchanges what the two functions hold.\<close>

lemma swap_neither_relocated:
  assumes "wf_mem m" "inline_at i m = None" "inline_at j m = None"
  shows "relocated (transposed i j) m (m\<lparr>funs := (funs m)(i := funs m j, j := funs m i)\<rparr>)"
    (is "relocated _ _ ?m'")
proof -
  have "(\<exists>off c. is_inline_at m (transposed i j k) off c \<and> is_inline_at ?m' k off c)
      \<or> (inline_at (transposed i j k) m = None \<and> objs ?m' (Storage k) = None
         \<and> funs ?m' k = funs m (transposed i j k))" for k
  proof (cases "k = i \<or> k = j")
    case True
    then show ?thesis
      using assms storage_free [OF assms(1,2)] storage_free [OF assms(1,3)]
      by (auto simp: transposed_def)
  next
    case False
    then have k: "transposed i j k = k" "funs ?m' k = funs m k"
      by (simp_all add: transposed_def)
    from wf_shaped [OF assms(1), of k] show ?thesis
    proof (cases rule: shaped_cases)
      case (inline off c)
      then have "is_inline_at ?m' k off c" using k(2) by (simp add: is_inline_at_def)
      with inline k show ?thesis by auto
    next
      case other
      then show ?thesis using k storage_free [OF assms(1)] by simp
    qed
  qed
  then show ?thesis
    using wf_tmp [OF assms(1)] by (simp add: relocated_def)
qed

text \<open>
  What a case has to show at the two functions it exchanges, when it leaves every other place but
  the two buffers alone.
\<close>

lemma relocated_two:
  assumes wf: "wf_mem m" and ij: "i \<noteq> j"
    and rest: "\<And>k. k \<noteq> i \<Longrightarrow> k \<noteq> j \<Longrightarrow> funs m' k = funs m k"
      "\<And>p. p \<noteq> Storage i \<Longrightarrow> p \<noteq> Storage j \<Longrightarrow> objs m' p = objs m p"
      "allocated m' = allocated m" "next_block m' = next_block m"
    and at: "\<And>k l. (k, l) = (i, j) \<or> (k, l) = (j, i) \<Longrightarrow>
        (\<exists>off c. is_inline_at m l off c \<and> is_inline_at m' k off c)
        \<or> (inline_at l m = None \<and> objs m' (Storage k) = None \<and> funs m' k = funs m l)"
  shows "relocated (transposed i j) m m'"
proof -
  have "(\<exists>off c. is_inline_at m (transposed i j k) off c \<and> is_inline_at m' k off c)
      \<or> (inline_at (transposed i j k) m = None \<and> objs m' (Storage k) = None
         \<and> funs m' k = funs m (transposed i j k))" for k
  proof (cases "k = i \<or> k = j")
    case True
    then show ?thesis using at [of i j] at [of j i] ij by (auto simp: transposed_def)
  next
    case False
    then have k: "transposed i j k = k" "funs m' k = funs m k" "objs m' (Storage k) = objs m (Storage k)"
      using rest by (simp_all add: transposed_def)
    from wf_shaped [OF wf, of k] show ?thesis
    proof (cases rule: shaped_cases)
      case (inline off c)
      then have "is_inline_at m' k off c" using k by (simp add: is_inline_at_def)
      with inline k show ?thesis by auto
    next
      case other
      then show ?thesis using k storage_free [OF wf] by simp
    qed
  qed
  then show ?thesis
    using rest wf_tmp [OF wf] by (simp add: relocated_def)
qed

lemma swap_first_relocated:
  assumes wf: "wf_mem m" and i: "is_inline_at m i off c" and j: "inline_at j m = None"
  shows "\<exists>m'. swap_first_inline mv i j off m = Inr m' \<and> relocated (transposed i j) m m'"
proof -
  have ij: "i \<noteq> j" using inline_at_inline [OF i] j by auto
  let ?m' = "m\<lparr>funs := (funs m)(i := funs m j,
             j := \<lparr>vtable = Some Vt_inline, call = Some Call_obj, data = In_object (Storage j) off\<rparr>),
           objs := (objs m)(Storage i := None, Storage j := Some (off, c))\<rparr>"
  have "is_inline_at ?m' j off c"
    using i by (simp add: is_inline_at_def)
  then have "relocated (transposed i j) m ?m'"
    using i j ij by (intro relocated_two [OF wf ij]) auto
  with swap_first_inline_result [OF i ij storage_free [OF wf j]] show ?thesis
    by blast
qed

lemma swap_both_relocated:
  assumes wf: "wf_mem m" and i: "is_inline_at m i off1 c1" and j: "is_inline_at m j off2 c2"
    and ij: "i \<noteq> j"
  shows "\<exists>m'. swap_both_inline mv i j off1 off2 m = Inr m' \<and> relocated (transposed i j) m m'"
proof -
  let ?m' = "m\<lparr>funs := (funs m)
             (i := \<lparr>vtable = Some Vt_inline, call = Some Call_obj, data = In_object (Storage i) off2\<rparr>,
              j := \<lparr>vtable = Some Vt_inline, call = Some Call_obj, data = In_object (Storage j) off1\<rparr>),
           objs := (objs m)(Storage i := Some (off2, c2), Storage j := Some (off1, c1))\<rparr>"
  have "is_inline_at ?m' i off2 c2" "is_inline_at ?m' j off1 c1"
    using i j ij by (simp_all add: is_inline_at_def)
  then have "relocated (transposed i j) m ?m'"
    using i j ij by (intro relocated_two [OF wf ij]) auto
  with swap_both_result [OF i j ij wf_tmp [OF wf]] show ?thesis
    by blast
qed

lemma transposed_commute: "transposed i j = transposed j i"
  by (auto simp: transposed_def fun_eq_iff)

lemma swap_relocated:
  assumes wf: "wf_mem m" and ij: "i \<noteq> j"
  shows "\<exists>m'. swap mv i j m = Inr m' \<and> relocated (transposed i j) m m'"
  using wf_shaped [OF wf, of i]
proof (cases rule: shaped_cases)
  case i: (inline off1 c1)
  show ?thesis
    using wf_shaped [OF wf, of j]
  proof (cases rule: shaped_cases)
    case j: (inline off2 c2)
    then show ?thesis
      using swap_both_relocated [OF wf i j ij] inline_at_inline [OF i] inline_at_inline [OF j]
      by (simp add: swap_def)
  next
    case j: other
    then show ?thesis
      using swap_first_relocated [OF wf i j(1)] inline_at_inline [OF i] by (simp add: swap_def)
  qed
next
  case i: other
  show ?thesis
    using wf_shaped [OF wf, of j]
  proof (cases rule: shaped_cases)
    case j: (inline off2 c2)
    then show ?thesis
      using swap_first_relocated [OF wf j i(1)] inline_at_inline [OF j] i(1)
      by (simp add: swap_def transposed_commute)
  next
    case j: other
    then show ?thesis
      using swap_neither [OF i(1) j(1)] swap_neither_relocated [OF wf i(1) j(1)] by blast
  qed
qed

lemma swap_spec:
  assumes "wf_mem m" and "i \<noteq> j"
  obtains m' where "swap mv i j m = Inr m'" "wf_mem m'"
    "holds m' = (holds m)(i := holds m j, j := holds m i)"
    "allocated m' = allocated m"
proof -
  obtain m' where m': "swap mv i j m = Inr m'" and r: "relocated (transposed i j) m m'"
    using swap_relocated [OF assms] by blast
  have "holds m' = (holds m)(i := holds m j, j := holds m i)"
    using relocated_holds [OF r assms(1)] assms(2) by (simp add: fun_eq_iff transposed_def)
  with m' relocated_wf [OF r _ assms(1)] relocated_rest(3) [OF r] that show ?thesis
    by simp
qed

section \<open>Operations on one function\<close>

definition owns_block :: "'c mem \<Rightarrow> nat \<Rightarrow> nat \<Rightarrow> bool" where
  "owns_block m i h \<longleftrightarrow> (\<exists>c. is_heap_at m i h c)"

lemma owns_block_unique: "wf_mem m \<Longrightarrow> owns_block m i h \<Longrightarrow> owns_block m j h \<Longrightarrow> i = j"
  unfolding owns_block_def by (elim exE) (rule wf_heap_unique)

lemma owns_block_iff:
  assumes "wf_mem m"
  shows "owns_block m i h \<longleftrightarrow>
    funs m i = \<lparr>vtable = Some Vt_heap, call = Some Call_obj, data = In_object (Heap h) 0\<rparr>"
  using wf_shaped [OF assms, of i]
  by (auto simp: owns_block_def shaped_at_def shape_defs empty_state_def)

lemma not_empty_shapes:
  "is_empty_at m i \<Longrightarrow> \<not> owns_block m i h"
  "is_empty_at m i \<Longrightarrow> inline_at i m = None"
  "is_external_at m i \<Longrightarrow> \<not> owns_block m i h"
  "is_external_at m i \<Longrightarrow> inline_at i m = None"
  by (auto simp: owns_block_def shape_defs empty_state_def inline_at_def)

text \<open>A step that only concerns the function \<open>i\<close>, its buffer and its heap block keeps the memory well formed.\<close>

lemma wf_replace:
  assumes wf: "wf_mem m" and tmp: "objs m' Tmp = None" and shaped: "shaped_at m' i"
    and stor: "objs m' (Storage i) \<noteq> None \<Longrightarrow> \<exists>off c. is_inline_at m' i off c"
    and funs: "\<And>k. k \<noteq> i \<Longrightarrow> funs m' k = funs m k"
    and stors: "\<And>k. k \<noteq> i \<Longrightarrow> objs m' (Storage k) = objs m (Storage k)"
    and same: "\<And>h. \<not> owns_block m i h \<Longrightarrow> \<not> owns_block m' i h \<Longrightarrow>
        objs m' (Heap h) = objs m (Heap h) \<and> (h \<in> allocated m' \<longleftrightarrow> h \<in> allocated m)"
    and gone: "\<And>h. owns_block m i h \<Longrightarrow> \<not> owns_block m' i h \<Longrightarrow>
        objs m' (Heap h) = None \<and> h \<notin> allocated m'"
    and new: "\<And>h. owns_block m' i h \<Longrightarrow>
        (owns_block m i h \<or> objs m (Heap h) = None) \<and> h < next_block m'"
    and nxt: "next_block m \<le> next_block m'"
  shows "wf_mem m'" "\<And>k. k \<noteq> i \<Longrightarrow> holds m' k = holds m k"
proof -
  have heap_iff: "is_heap_at m' k h c \<longleftrightarrow> is_heap_at m k h c" if k: "k \<noteq> i" for k h c
  proof (cases "owns_block m k h")
    case True
    then have "\<not> owns_block m i h"
      using owns_block_unique [OF wf] k by blast
    moreover have "objs m (Heap h) \<noteq> None"
      using True by (auto simp: owns_block_def is_heap_at_def)
    ultimately have "\<not> owns_block m' i h"
      using new [of h] by metis
    with same [of h] \<open>\<not> owns_block m i h\<close> funs [OF k] show ?thesis
      by (simp add: is_heap_at_def)
  next
    case False
    then have "\<not> is_heap_at m k h c" by (auto simp: owns_block_def)
    moreover have "\<not> is_heap_at m' k h c"
      using False funs [OF k] by (simp add: owns_block_iff [OF wf] is_heap_at_def)
    ultimately show ?thesis by blast
  qed
  have inline_iff: "is_inline_at m' k off c \<longleftrightarrow> is_inline_at m k off c" if "k \<noteq> i" for k off c
    using funs [OF that] stors [OF that] by (simp add: is_inline_at_def)
  have sh: "shaped_at m' k" for k
    using shaped wf_shaped [OF wf, of k] funs [of k]
    by (cases "k = i") (auto simp: shaped_at_def heap_iff inline_iff is_empty_at_def is_external_at_def)
  have st: "\<exists>off c. is_inline_at m' k off c" if "objs m' (Storage k) \<noteq> None" for k
    using that stor stors [of k] wf_storage [OF wf, of k] by (cases "k = i") (auto simp: inline_iff)
  have hp: "\<exists>k c. is_heap_at m' k h c" if h: "objs m' (Heap h) \<noteq> None" for h
  proof (cases "owns_block m' i h")
    case True
    then show ?thesis by (auto simp: owns_block_def)
  next
    case False
    with h gone [of h] have no: "\<not> owns_block m i h" by metis
    with same [OF _ False] h have "objs m (Heap h) \<noteq> None" by simp
    then obtain k c where k: "is_heap_at m k h c" using wf_heap [OF wf] by blast
    with no have "k \<noteq> i" by (auto simp: owns_block_def)
    with k heap_iff show ?thesis by blast
  qed
  have un: "k = l" if k: "is_heap_at m' k h c" and l: "is_heap_at m' l h d" for h k l c d
  proof -
    have other: "False" if "is_heap_at m' i h c" "is_heap_at m' k h d" "k \<noteq> i" for k c d
    proof -
      have "is_heap_at m k h d" using that heap_iff by blast
      then have "owns_block m k h" "objs m (Heap h) \<noteq> None"
        by (auto simp: owns_block_def is_heap_at_def)
      moreover have "owns_block m' i h" using that by (auto simp: owns_block_def)
      ultimately have "owns_block m i h" using new [of h] by metis
      with \<open>owns_block m k h\<close> owns_block_unique [OF wf] that(3) show False by blast
    qed
    show ?thesis
    proof (cases "k = i \<or> l = i")
      case True
      then show ?thesis using other k l by blast
    next
      case False
      then show ?thesis using k l heap_iff wf_heap_unique [OF wf] by blast
    qed
  qed
  have al: "h < next_block m' \<and> objs m' (Heap h) \<noteq> None" if h: "h \<in> allocated m'" for h
  proof (cases "owns_block m' i h")
    case True
    then show ?thesis using new [of h] by (auto simp: owns_block_def is_heap_at_def)
  next
    case False
    then have "\<not> owns_block m i h" using gone [of h] h by metis
    then show ?thesis using same [OF _ False] h wf_allocated [OF wf, of h] nxt by simp
  qed
  show "wf_mem m'"
    unfolding wf_mem_def using sh tmp st hp un al by blast
  show "holds m' k = holds m k" if k: "k \<noteq> i" for k
  proof -
    note f = funs [OF k]
    consider "is_empty_at m k" | "is_external_at m k" | off c where "is_inline_at m k off c"
      | h c where "is_heap_at m k h c"
      using wf_shaped [OF wf, of k] unfolding shaped_at_def by blast
    then show ?thesis
    proof cases
      case 1
      then show ?thesis using f by (simp add: holds_empty is_empty_at_def)
    next
      case 2
      then show ?thesis using f by (rule holds_external)
    next
      case 3
      then show ?thesis using holds_inline inline_iff [OF k] by metis
    next
      case 4
      then show ?thesis using holds_heap heap_iff [OF k] by metis
    qed
  qed
qed

lemma wf_replace_holds:
  assumes "wf_mem m" "objs m' Tmp = None" "shaped_at m' i"
    and "objs m' (Storage i) \<noteq> None \<Longrightarrow> \<exists>off c. is_inline_at m' i off c"
    and "\<And>k. k \<noteq> i \<Longrightarrow> funs m' k = funs m k"
    and "\<And>k. k \<noteq> i \<Longrightarrow> objs m' (Storage k) = objs m (Storage k)"
    and "\<And>h. \<not> owns_block m i h \<Longrightarrow> \<not> owns_block m' i h \<Longrightarrow>
        objs m' (Heap h) = objs m (Heap h) \<and> (h \<in> allocated m' \<longleftrightarrow> h \<in> allocated m)"
    and "\<And>h. owns_block m i h \<Longrightarrow> \<not> owns_block m' i h \<Longrightarrow>
        objs m' (Heap h) = None \<and> h \<notin> allocated m'"
    and "\<And>h. owns_block m' i h \<Longrightarrow>
        (owns_block m i h \<or> objs m (Heap h) = None) \<and> h < next_block m'"
    and "next_block m \<le> next_block m'"
  shows "wf_mem m' \<and> holds m' = (holds m)(i := holds m' i)"
  using wf_replace [OF assms] by (simp add: fun_eq_iff)

lemma holds_nothing: "wf_mem m \<Longrightarrow> holds m i = Nothing \<longleftrightarrow> is_empty_at m i"
proof (rule iffI)
  assume wf: "wf_mem m" and n: "holds m i = Nothing"
  then show "is_empty_at m i"
    using wf_shaped [OF wf, of i] holds_external(1) [of m i] holds_inline holds_heap
    unfolding shaped_at_def by force
qed (rule holds_empty)

lemma external_heap:
  "\<not> owns_block (set_fun i v m) i h" if "vtable v = None"
  using that by (auto simp: owns_block_def is_heap_at_def set_fun_def)

fun external_held :: "call \<Rightarrow> nat \<Rightarrow> 'c held" where
  "external_held Call_ref r = Ref r"
| "external_held Call_ref_other r = Ref_other r"
| "external_held Call_fn r = Fn r"
| "external_held Call_obj r = Nothing"

lemma set_external:
  assumes wf: "wf_mem m" and e: "is_empty_at m i"
    and v: "v = \<lparr>vtable = None, call = Some k, data = External r\<rparr>" "k \<noteq> Call_obj"
  shows "wf_mem (set_fun i v m)"
    and "holds (set_fun i v m) = (holds m)(i := external_held k r)"
proof -
  have sh: "shaped_at (set_fun i v m) i"
    using v by (simp add: shaped_at_def is_external_at_def set_fun_def)
  have st: "objs (set_fun i v m) (Storage i) = None"
    using storage_free [OF wf not_empty_shapes(2) [OF e]] by (simp add: set_fun_def)
  have ext: "\<not> owns_block (set_fun i v m) i h" for h
    using v by (simp add: external_heap)
  have "wf_mem (set_fun i v m) \<and> holds (set_fun i v m) = (holds m)(i := holds (set_fun i v m) i)"
    by (rule wf_replace_holds [OF wf _ sh])
      (use st ext wf_tmp [OF wf] not_empty_shapes(1) [OF e] in \<open>auto simp: set_fun_def\<close>)
  moreover have "holds (set_fun i v m) i = external_held k r"
    using v by (cases k) (simp_all add: holds_def set_fun_def)
  ultimately show "wf_mem (set_fun i v m)"
      "holds (set_fun i v m) = (holds m)(i := external_held k r)"
    by simp_all
qed

lemma std_align_bound: "std_align al sz a sp = Some off \<Longrightarrow> 0 < sz \<Longrightarrow> off < sp"
  by (auto simp: std_align_def Let_def split: if_splits)

lemma inline_offset_bound: "inline_offset nm al sz base = Some off \<Longrightarrow> 0 < sz \<Longrightarrow> off < storage_size"
  by (auto simp: inline_offset_def split: if_splits dest: std_align_bound)

lemma construct_in_place_spec:
  assumes wf: "wf_mem m" and e: "is_empty_at m i" and sz: "0 < sz"
  shows "\<exists>m'. construct_in_place nm al sz base i c m = Inr m' \<and> wf_mem m'
    \<and> holds m' = (holds m)(i := Obj c)"
proof (cases "inline_offset nm al sz base")
  case (Some off)
  let ?m' = "set_fun i \<lparr>vtable = Some Vt_inline, call = Some Call_obj,
                 data = In_object (Storage i) off\<rparr> (m\<lparr>objs := (objs m)(Storage i := Some (off, c))\<rparr>)"
  have c: "construct_in_place nm al sz base i c m = Inr ?m'"
    using Some storage_free [OF wf not_empty_shapes(2) [OF e]]
    by (simp add: construct_in_place_def construct_at_def)
  have inl: "is_inline_at ?m' i off c"
    using inline_offset_bound [OF Some sz] by (simp add: is_inline_at_def set_fun_def)
  then have sh: "shaped_at ?m' i" by (auto simp: shaped_at_def)
  have no: "\<not> owns_block ?m' i h" for h
    by (simp add: owns_block_def is_heap_at_def set_fun_def)
  have "wf_mem ?m' \<and> holds ?m' = (holds m)(i := holds ?m' i)"
    by (rule wf_replace_holds [OF wf _ sh])
      (use inl no wf_tmp [OF wf] not_empty_shapes(1) [OF e] in \<open>auto simp: set_fun_def\<close>)
  moreover have "holds ?m' i = Obj c" by (rule holds_inline [OF inl])
  ultimately show ?thesis using c by simp
next
  case None
  let ?h = "next_block m"
  let ?m' = "set_fun i \<lparr>vtable = Some Vt_heap, call = Some Call_obj, data = In_object (Heap ?h) 0\<rparr>
     (m\<lparr>allocated := insert ?h (allocated m), next_block := Suc ?h,
        objs := (objs m)(Heap ?h := Some (0, c))\<rparr>)"
  have fresh: "objs m (Heap ?h) = None"
  proof (rule ccontr)
    assume "objs m (Heap ?h) \<noteq> None"
    then obtain k d where "is_heap_at m k ?h d" using wf_heap [OF wf] by blast
    then show False using wf_allocated [OF wf, of ?h] by (simp add: is_heap_at_def)
  qed
  then have c: "construct_in_place nm al sz base i c m = Inr ?m'"
    using None by (simp add: construct_in_place_def construct_at_def Let_def)
  have hp: "is_heap_at ?m' i ?h c" by (simp add: is_heap_at_def set_fun_def)
  then have sh: "shaped_at ?m' i" by (auto simp: shaped_at_def)
  have own: "owns_block ?m' i h \<longleftrightarrow> h = ?h" for h
    by (auto simp: owns_block_def is_heap_at_def set_fun_def)
  have st: "objs ?m' (Storage i) = None"
    using storage_free [OF wf not_empty_shapes(2) [OF e]] by (simp add: set_fun_def)
  have "wf_mem ?m' \<and> holds ?m' = (holds m)(i := holds ?m' i)"
    by (rule wf_replace_holds [OF wf _ sh])
      (use st own fresh wf_tmp [OF wf] not_empty_shapes(1) [OF e] in \<open>auto simp: set_fun_def\<close>)
  moreover have "holds ?m' i = Obj c" by (rule holds_heap [OF hp])
  ultimately show ?thesis using c by simp
qed

lemma destroy_fun_spec:
  assumes wf: "wf_mem m"
  shows "\<exists>m'. destroy_fun i m = Inr m' \<and> wf_mem m' \<and> holds m' = (holds m)(i := Nothing)"
proof -
  have e: "shaped_at (set_fun i empty_state m') i" "is_empty_at (set_fun i empty_state m') i" for m' :: "'c mem"
    by (simp_all add: shaped_at_def is_empty_at_def set_fun_def)
  have fin: "wf_mem (set_fun i empty_state m') \<and>
      holds (set_fun i empty_state m') = (holds m)(i := Nothing)"
    if "objs m' (Storage i) = None" "objs m' Tmp = None" "funs m' = funs m"
      "\<And>k. k \<noteq> i \<Longrightarrow> objs m' (Storage k) = objs m (Storage k)"
      "\<And>h. \<not> owns_block m i h \<Longrightarrow> objs m' (Heap h) = objs m (Heap h)
          \<and> (h \<in> allocated m' \<longleftrightarrow> h \<in> allocated m)"
      "\<And>h. owns_block m i h \<Longrightarrow> objs m' (Heap h) = None \<and> h \<notin> allocated m'"
      "next_block m' = next_block m" for m'
  proof -
    have no: "\<not> owns_block (m'\<lparr>funs := (funs m)(i := empty_state)\<rparr>) i h" for h
      by (simp add: owns_block_def is_heap_at_def empty_state_def)
    have "wf_mem (set_fun i empty_state m') \<and>
        holds (set_fun i empty_state m') = (holds m)(i := holds (set_fun i empty_state m') i)"
      by (rule wf_replace_holds [OF wf _ e(1)])
        (use that in \<open>simp_all add: no set_fun_def\<close>)
    then show ?thesis
      using holds_empty [OF e(2)] by metis
  qed
  consider (other) "is_empty_at m i \<or> is_external_at m i" | (inline) off c where "is_inline_at m i off c"
    | (heap) h c where "is_heap_at m i h c"
    using wf_shaped [OF wf, of i] unfolding shaped_at_def by blast
  then show ?thesis
  proof cases
    case other
    then have "destroy_fun i m = Inr (set_fun i empty_state m)"
      by (auto simp: destroy_fun_def shape_defs empty_state_def)
    moreover have "inline_at i m = None" "\<And>h. \<not> owns_block m i h"
      using other not_empty_shapes by blast+
    ultimately show ?thesis
      using fin [of m] storage_free [OF wf] wf_tmp [OF wf] by simp
  next
    case inline
    let ?m' = "m\<lparr>objs := (objs m)(Storage i := None)\<rparr>"
    have "destroy_fun i m = Inr (set_fun i empty_state ?m')"
      using inline by (simp add: destroy_fun_def is_inline_at_def vt_destroy_def destroy_at_def object_at_def)
    moreover have "\<And>h. \<not> owns_block m i h"
      using inline by (simp add: owns_block_def is_heap_at_def is_inline_at_def)
    ultimately show ?thesis
      using fin [of ?m'] wf_tmp [OF wf] by simp
  next
    case (heap h c)
    let ?m' = "m\<lparr>objs := (objs m)(Heap h := None), allocated := allocated m - {h}\<rparr>"
    have "destroy_fun i m = Inr (set_fun i empty_state ?m')"
      using heap by (simp add: destroy_fun_def is_heap_at_def vt_destroy_def delete_at_def destroy_at_def
          object_at_def)
    moreover have "\<And>h'. owns_block m i h' \<longleftrightarrow> h' = h"
      using heap by (auto simp: owns_block_def is_heap_at_def)
    moreover have "inline_at i m = None"
      by (rule inline_at_other) (use heap in blast)
    ultimately show ?thesis
      using fin [of ?m'] storage_free [OF wf] wf_tmp [OF wf] by simp
  qed
qed

text \<open>What a call returns, and what it leaves in the function.\<close>

fun call_result :: "('c \<Rightarrow> 'r \<times> 'c) \<Rightarrow> (nat \<Rightarrow> 'r) \<Rightarrow> 'c held \<Rightarrow> ('r \<times> 'c held) option" where
  "call_result run ext Nothing = None"
| "call_result run ext (Ref r) = Some (ext r, Ref r)"
| "call_result run ext (Ref_other r) = None"
| "call_result run ext (Fn r) = Some (ext r, Fn r)"
| "call_result run ext (Obj c) = Some (fst (run c), Obj (snd (run c)))"

lemma set_object:
  assumes wf: "wf_mem m" and o: "is_inline_at m i off c \<and> p = Storage i \<or> is_heap_at m i h c \<and> p = Heap h \<and> off = 0"
  shows "wf_mem (m\<lparr>objs := (objs m)(p := Some (off, d))\<rparr>)" (is "wf_mem ?m'")
    and "holds (m\<lparr>objs := (objs m)(p := Some (off, d))\<rparr>) = (holds m)(i := Obj d)"
proof -
  have own: "owns_block ?m' i h' \<longleftrightarrow> owns_block m i h'" for h'
    using o by (auto simp: owns_block_def is_heap_at_def is_inline_at_def)
  have at: "is_inline_at ?m' i off d \<or> is_heap_at ?m' i h d"
    using o by (auto simp: is_inline_at_def is_heap_at_def)
  then have sh: "shaped_at ?m' i" by (auto simp: shaped_at_def)
  have st: "\<exists>off c. is_inline_at ?m' i off c" if "objs ?m' (Storage i) \<noteq> None"
  proof (cases "is_inline_at ?m' i off d")
    case False
    with at o have "is_heap_at m i h c" "p = Heap h" by (auto simp: is_heap_at_def is_inline_at_def)
    then have "objs m (Storage i) = None"
      using storage_free [OF wf] inline_at_other [of m i] by blast
    with that \<open>p = Heap h\<close> show ?thesis by simp
  qed blast
  have heap: "objs ?m' (Heap h') = objs m (Heap h')" if "\<not> owns_block m i h'" for h'
    using that o by (auto simp: owns_block_def)
  have blk: "h' < next_block m" if "owns_block m i h'" for h'
    using that wf_allocated [OF wf, of h'] by (auto simp: owns_block_def is_heap_at_def)
  have others: "k \<noteq> i \<Longrightarrow> objs ?m' (Storage k) = objs m (Storage k)" and tmp: "objs ?m' Tmp = None" for k
    using o wf_tmp [OF wf] by auto
  have "wf_mem ?m' \<and> holds ?m' = (holds m)(i := holds ?m' i)"
    by (rule wf_replace_holds [OF wf tmp sh st _ others]) (use own heap blk in auto)
  moreover have "holds ?m' i = Obj d"
    using at by (elim disjE) (erule holds_inline, erule holds_heap)
  ultimately show "wf_mem ?m'" "holds ?m' = (holds m)(i := Obj d)"
    by simp_all
qed

lemma invoke_spec:
  assumes wf: "wf_mem m"
  shows "case call_result run ext (holds m i) of
      None \<Rightarrow> invoke run ext i m = Inl Undefined
    | Some (r, h) \<Rightarrow> \<exists>m'. invoke run ext i m = Inr (r, m') \<and> wf_mem m' \<and> holds m' = (holds m)(i := h)"
proof -
  consider (empty) "is_empty_at m i" | (ext) "is_external_at m i"
    | (inline) off c where "is_inline_at m i off c" | (heap) h c where "is_heap_at m i h c"
    using wf_shaped [OF wf, of i] unfolding shaped_at_def by blast
  then show ?thesis
  proof cases
    case empty
    then show ?thesis by (simp add: holds_empty invoke_def is_empty_at_def empty_state_def)
  next
    case ext
    then obtain q r where q: "q \<noteq> Call_obj"
        "funs m i = \<lparr>vtable = None, call = Some q, data = External r\<rparr>"
      by (auto simp: is_external_at_def)
    have "holds m = (holds m)(i := holds m i)" by simp
    with q wf show ?thesis by (cases q) (auto simp: holds_def invoke_def)
  next
    case (inline off c)
    then have "invoke run ext i m =
        Inr (fst (run c), m\<lparr>objs := (objs m)(Storage i := Some (off, snd (run c)))\<rparr>)"
      by (simp add: invoke_def is_inline_at_def object_at_def)
    with set_object [OF wf, of i off c] inline show ?thesis by (simp add: holds_inline)
  next
    case (heap h c)
    then have "invoke run ext i m =
        Inr (fst (run c), m\<lparr>objs := (objs m)(Heap h := Some (0, snd (run c)))\<rparr>)"
      by (simp add: invoke_def is_heap_at_def object_at_def)
    with set_object [OF wf, of i 0 c "Heap h" h] heap show ?thesis by (simp add: holds_heap)
  qed
qed

section \<open>Programs over functions\<close>

text \<open>
  A client's operations. The abstract machine keeps only what each function holds, and stops
  (\<open>None\<close>) at a use the class does not allow: constructing over a function that still holds
  something, a move from itself, a call of an empty function or through a reference to an \<open>F\<close> whose
  \<open>F::type\<close> is another type.
\<close>

datatype 'c fun_op =
    Op_ref bool nat nat
  | Op_fn nat nat
  | Op_emplace bool nat nat nat nat 'c  \<comment> \<open>the arguments of \<open>construct_in_place\<close>\<close>
  | Op_move nat nat
  | Op_assign nat nat
  | Op_destroy nat
  | Op_call nat

fun held_op :: "('c \<Rightarrow> 'r \<times> 'c) \<Rightarrow> (nat \<Rightarrow> 'r) \<Rightarrow> 'c fun_op \<Rightarrow> (nat \<Rightarrow> 'c held) \<Rightarrow>
    ('r list \<times> (nat \<Rightarrow> 'c held)) option" where
  "held_op run ext (Op_ref same i r) h =
     (if h i = Nothing then Some ([], h(i := if same then Ref r else Ref_other r)) else None)"
| "held_op run ext (Op_fn i f) h = (if h i = Nothing then Some ([], h(i := Fn f)) else None)"
| "held_op run ext (Op_emplace nm al sz base i c) h =
     (if h i = Nothing \<and> 0 < sz then Some ([], h(i := Obj c)) else None)"
| "held_op run ext (Op_move i j) h =
     (if h i = Nothing \<and> i \<noteq> j then Some ([], h(i := h j, j := Nothing)) else None)"
| "held_op run ext (Op_assign i j) h =
     (if i \<noteq> j then Some ([], h(i := h j, j := h i)) else None)"
| "held_op run ext (Op_destroy i) h = Some ([], h(i := Nothing))"
| "held_op run ext (Op_call i) h =
     map_option (\<lambda>(r, x). ([r], h(i := x))) (call_result run ext (h i))"

fun mem_op :: "('c \<Rightarrow> 'c) \<Rightarrow> ('c \<Rightarrow> 'r \<times> 'c) \<Rightarrow> (nat \<Rightarrow> 'r) \<Rightarrow> 'c fun_op \<Rightarrow> 'c mem \<Rightarrow>
    ('r list \<times> 'c mem) cxx" where
  "mem_op mv run ext (Op_ref same i r) m = Inr ([], construct_ref same i r m)"
| "mem_op mv run ext (Op_fn i f) m = Inr ([], construct_fn i f m)"
| "mem_op mv run ext (Op_emplace nm al sz base i c) m =
     cxx_bind (construct_in_place nm al sz base i c m) (\<lambda>m'. Inr ([], m'))"
| "mem_op mv run ext (Op_move i j) m = cxx_bind (construct_move mv i j m) (\<lambda>m'. Inr ([], m'))"
| "mem_op mv run ext (Op_assign i j) m = cxx_bind (assign_move mv i j m) (\<lambda>m'. Inr ([], m'))"
| "mem_op mv run ext (Op_destroy i) m = cxx_bind (destroy_fun i m) (\<lambda>m'. Inr ([], m'))"
| "mem_op mv run ext (Op_call i) m = cxx_bind (invoke run ext i m) (\<lambda>(r, m'). Inr ([r], m'))"

fun held_run :: "('c \<Rightarrow> 'r \<times> 'c) \<Rightarrow> (nat \<Rightarrow> 'r) \<Rightarrow> 'c fun_op list \<Rightarrow> (nat \<Rightarrow> 'c held) \<Rightarrow>
    ('r list \<times> (nat \<Rightarrow> 'c held)) option" where
  "held_run run ext [] h = Some ([], h)"
| "held_run run ext (a # as) h =
     Option.bind (held_op run ext a h) (\<lambda>(rs, h').
     map_option (\<lambda>(rs', h''). (rs @ rs', h'')) (held_run run ext as h'))"

fun mem_run :: "('c \<Rightarrow> 'c) \<Rightarrow> ('c \<Rightarrow> 'r \<times> 'c) \<Rightarrow> (nat \<Rightarrow> 'r) \<Rightarrow> 'c fun_op list \<Rightarrow> 'c mem \<Rightarrow>
    ('r list \<times> 'c mem) cxx" where
  "mem_run mv run ext [] m = Inr ([], m)"
| "mem_run mv run ext (a # as) m =
     cxx_bind (mem_op mv run ext a m) (\<lambda>(rs, m').
     cxx_bind (mem_run mv run ext as m') (\<lambda>(rs', m''). Inr (rs @ rs', m'')))"

definition empty_mem :: "'c mem" where
  "empty_mem = \<lparr>funs = (\<lambda>_. empty_state), objs = (\<lambda>_. None), allocated = {}, next_block = 0\<rparr>"

lemma empty_mem_wf: "wf_mem empty_mem"
  by (simp add: wf_mem_def empty_mem_def shaped_at_def is_empty_at_def is_heap_at_def)

lemma empty_mem_holds: "holds empty_mem = (\<lambda>_. Nothing)"
  by (simp add: fun_eq_iff holds_def empty_mem_def empty_state_def)

lemma construct_default_empty: "is_empty_at m i \<Longrightarrow> construct_default i m = m"
  by (simp add: construct_default_def set_fun_def is_empty_at_def fun_upd_idem)

lemma held_op_refines:
  assumes wf: "wf_mem m" and a: "held_op run ext a (holds m) = Some (rs, h)"
  shows "\<exists>m'. mem_op mv run ext a m = Inr (rs, m') \<and> wf_mem m' \<and> holds m' = h"
proof (cases a)
  case (Op_ref same i r)
  with a show ?thesis
    using set_external [OF wf, of i _ "if same then Call_ref else Call_ref_other" r]
    by (auto simp: construct_ref_def holds_nothing [OF wf] split: if_splits)
next
  case (Op_fn i f)
  with a show ?thesis
    using set_external [OF wf, of i _ Call_fn f]
    by (auto simp: construct_fn_def holds_nothing [OF wf] split: if_splits)
next
  case (Op_emplace nm al sz base i c)
  with a have "is_empty_at m i" "0 < sz" "rs = []" "h = (holds m)(i := Obj c)"
    by (auto simp: holds_nothing [OF wf] split: if_splits)
  with Op_emplace show ?thesis
    using construct_in_place_spec [OF wf, of i sz nm al base c] by auto
next
  case (Op_move i j)
  with a have e: "is_empty_at m i" "i \<noteq> j" and r: "rs = []" "h = (holds m)(i := holds m j, j := Nothing)"
    by (auto simp: holds_nothing [OF wf] split: if_splits)
  obtain m' where "swap mv i j m = Inr m'" "wf_mem m'" "holds m' = (holds m)(i := holds m j, j := holds m i)"
    using swap_spec [OF wf e(2)] .
  with Op_move e r show ?thesis
    by (simp add: construct_move_def construct_default_empty holds_empty)
next
  case (Op_assign i j)
  with a have e: "i \<noteq> j" and r: "rs = []" "h = (holds m)(i := holds m j, j := holds m i)"
    by (auto split: if_splits)
  obtain m' where "swap mv i j m = Inr m'" "wf_mem m'" "holds m' = (holds m)(i := holds m j, j := holds m i)"
    using swap_spec [OF wf e] .
  with Op_assign r show ?thesis
    by (simp add: assign_move_def)
next
  case (Op_destroy i)
  with a destroy_fun_spec [OF wf, of i] show ?thesis by auto
next
  case (Op_call i)
  with a invoke_spec [OF wf, of run ext i] show ?thesis
    by (auto split: option.splits)
qed

lemma held_run_refines:
  "wf_mem m \<Longrightarrow> held_run run ext as (holds m) = Some (rs, h) \<Longrightarrow>
   \<exists>m'. mem_run mv run ext as m = Inr (rs, m') \<and> wf_mem m' \<and> holds m' = h"
proof (induction as arbitrary: m rs)
  case (Cons a as)
  then obtain rs1 h1 rs2 where a: "held_op run ext a (holds m) = Some (rs1, h1)"
    and as: "held_run run ext as h1 = Some (rs2, h)" and rs: "rs = rs1 @ rs2"
    by (auto split: bind_splits)
  obtain m1 where m1: "mem_op mv run ext a m = Inr (rs1, m1)" "wf_mem m1" "holds m1 = h1"
    using held_op_refines [OF Cons.prems(1) a] by blast
  with Cons.IH [OF m1(2), of rs2] as rs show ?case by auto
qed simp

text \<open>In a well-formed memory where no function holds an object, no object is left and no block allocated.\<close>

lemma nothing_left:
  assumes wf: "wf_mem m" and h: "\<And>i c. holds m i \<noteq> Obj c"
  shows "objs m = (\<lambda>_. None)" "allocated m = {}"
proof -
  have "objs m p = None" for p
  proof (cases p)
    case (Storage i)
    then show ?thesis using wf_storage [OF wf, of i] holds_inline h by (metis)
  next
    case Tmp
    then show ?thesis using wf_tmp [OF wf] by simp
  next
    case (Heap k)
    then show ?thesis using wf_heap [OF wf, of k] holds_heap h by metis
  qed
  then show "objs m = (\<lambda>_. None)" by auto
  then show "allocated m = {}" using wf_allocated [OF wf] by auto
qed

lemma held_run_example:
  "held_run (\<lambda>c. (c, c + 1)) id
      [Op_emplace True 8 8 64 0 (5 :: nat), Op_emplace False 8 8 128 1 9, Op_assign 0 1, Op_call 1,
       Op_call 0, Op_move 2 1, Op_call 2, Op_ref True 3 40, Op_call 3, Op_destroy 0, Op_destroy 2] (\<lambda>_. Nothing)
    = Some ([5, 9, 6, 40], (\<lambda>_. Nothing)(3 := Ref 40))"
  by (simp add: fun_eq_iff)

text \<open>The start of the buffer is 24 bytes into a 64-byte block, so only alignments up to 32 fit in it.\<close>

lemma pad_aligned:
  assumes "0 < (al :: nat)"
  shows "(a + (al - a mod al) mod al) mod al = 0"
proof (cases "a mod al = 0")
  case False
  have "a mod al < al" using assms by simp
  with False have "(a + (al - a mod al) mod al) mod al = (a + (al - a mod al)) mod al"
    by simp
  also have "\<dots> = (a mod al + (al - a mod al)) mod al"
    by (rule mod_add_left_eq [symmetric])
  also have "\<dots> = 0" using \<open>a mod al < al\<close> by simp
  finally show ?thesis .
qed (use assms in simp)

lemma inline_alignments:
  assumes "std_align al sz (base + sizeof_state) storage_size = Some off"
    and "al = 2 ^ k" and "0 < sz" and "base mod 64 = 0"
  shows "k < 6"
proof (rule ccontr)
  assume "\<not> k < 6"
  then have "(2 :: nat) ^ 6 dvd 2 ^ k" by (intro le_imp_power_dvd) simp
  then have d: "64 dvd al" using assms(2) by simp
  have off: "off = (al - (base + 24) mod al) mod al" "sz + off \<le> 40"
    using assms(1) by (auto simp: std_align_def Let_def sizeof_state_def storage_size_def split: if_splits)
  have "al dvd base + 24 + off"
    using pad_aligned [of al "base + 24"] assms(2) off(1) by (simp add: mod_eq_0_iff_dvd)
  then have "64 dvd base + 24 + off"
    using d dvd_trans by blast
  moreover have "64 dvd base"
    using assms(4) by (simp add: mod_eq_0_iff_dvd)
  ultimately have "64 dvd 24 + off"
    by (simp add: add.assoc dvd_add_right_iff)
  then show False
    using off(2) assms(3) by presburger
qed

lemma mod_block: "(base :: nat) mod 64 = 0 \<Longrightarrow> k < 6 \<Longrightarrow> (base + n) mod 2 ^ k = n mod 2 ^ k"
proof -
  assume b: "base mod 64 = 0" and k: "k < 6"
  then have "(2 :: nat) ^ k dvd 2 ^ 6" by (intro le_imp_power_dvd) simp
  then have "2 ^ k dvd base" using b dvd_trans [of "2 ^ k" 64 base] by (simp add: mod_eq_0_iff_dvd)
  then show ?thesis by (metis mod_add_self1 dvd_def mod_mult_self4)
qed

lemma inline_offset_example: "inline_offset True 32 16 64 = Some 8"
  by (simp add: inline_offset_def std_align_def sizeof_state_def storage_size_def)

section \<open>Properties\<close>

text \<open>
  C1: A program over \<open>unique_function\<close>s that the abstract machine allows runs without undefined
  behaviour, whatever mix of inline, heap and non-owning callables it uses, as long as it calls no
  reference to an \<open>F\<close> whose member \<open>F::type\<close> is not \<open>F\<close>: no callable is used after its end, destroyed
  twice or overwritten while alive; its calls return what the abstract machine
  returns; and if the program leaves no function holding a callable, no object and no heap block is
  left.
\<close>

theorem unique_function_refines:
  assumes "held_run run ext as (\<lambda>_. Nothing) = Some (rs, h)"
  shows "\<exists>m. mem_run mv run ext as empty_mem = Inr (rs, m) \<and> holds m = h
    \<and> ((\<forall>i c. h i \<noteq> Obj c) \<longrightarrow> objs m = (\<lambda>_. None) \<and> allocated m = {})"
proof -
  obtain m where m: "mem_run mv run ext as empty_mem = Inr (rs, m)" "wf_mem m" "holds m = h"
    using held_run_refines [OF empty_mem_wf, of run ext as rs h mv] assms by (auto simp: empty_mem_holds)
  then show ?thesis using nothing_left [OF m(2)] by auto
qed

theorem unique_function_refines_witness:
  "\<exists>m. mem_run (\<lambda>_. 0) (\<lambda>c. (c, c + 1)) id
      [Op_emplace True 8 8 64 0 (5 :: nat), Op_emplace False 8 8 128 1 9, Op_assign 0 1, Op_call 1,
       Op_call 0, Op_move 2 1, Op_call 2, Op_ref True 3 40, Op_call 3, Op_destroy 0, Op_destroy 2] empty_mem = Inr ([5, 9, 6, 40], m)
    \<and> objs m = (\<lambda>_. None) \<and> allocated m = {}"
  using unique_function_refines [OF held_run_example, of "\<lambda>_. 0"]
  by (auto simp del: mem_run.simps split: if_splits)

text \<open>
  Exchange: \<open>swap\<close> of two distinct functions of a well-formed memory never fails, keeps the memory well
  formed, exchanges exactly what the two functions hold, and allocates and frees nothing, in each of
  the four combinations of inline and other callables.
\<close>

lemma unique_function_swap:
  assumes "wf_mem m" and "i \<noteq> j"
  shows "\<exists>m'. swap mv i j m = Inr m' \<and> wf_mem m'
    \<and> holds m' = (holds m)(i := holds m j, j := holds m i) \<and> allocated m' = allocated m"
  using swap_spec [OF assms] by metis

lemma unique_function_swap_witness:
  "\<exists>m'. swap (\<lambda>c. c) 0 1 (empty_mem :: nat mem) = Inr m' \<and> wf_mem m'
    \<and> holds m' = (holds empty_mem)(0 := holds empty_mem 1, 1 := holds empty_mem 0)
    \<and> allocated m' = {}"
  using unique_function_swap [OF empty_mem_wf, of 0 1 "\<lambda>c. c"] by (simp add: empty_mem_def)

text \<open>
  A function whose callable is stored inline cannot be assigned from itself: the first branch of
  \<open>swap\<close> moves the callable out of its buffer, destroys it there and then moves from the destroyed
  object, which is undefined behaviour. The same assignment of any other function changes nothing.
\<close>

lemma unique_function_self_assign:
  assumes "wf_mem m"
  shows "assign_move mv i i m =
    (if inline_at i m = None then Inr m else Inl Undefined)"
proof (cases rule: shaped_cases [OF wf_shaped [OF assms, of i]])
  case (1 off c)
  note at = inline_at_inline [OF 1]
  have "swap_both_inline mv i i off off m = Inl Undefined"
    using 1 wf_tmp [OF assms]
    by (simp add: swap_both_inline_def Let_def is_inline_at_def relocate)
      (simp add: vt_move_construct_def object_at_def)
  with at show ?thesis by (simp add: assign_move_def swap_def)
next
  case 2
  then show ?thesis by (simp add: assign_move_def swap_neither fun_upd_idem)
qed

definition one_inline :: "nat mem" where
  "one_inline = set_fun 0 \<lparr>vtable = Some Vt_inline, call = Some Call_obj, data = In_object (Storage 0) 0\<rparr>
     (empty_mem\<lparr>objs := (\<lambda>_. None)(Storage 0 := Some (0, 7))\<rparr>)"

lemma one_inline_wf: "wf_mem one_inline"
  using construct_in_place_spec [OF empty_mem_wf, of 0 8 True 8 64 "7 :: nat"]
  by (simp add: is_empty_at_def empty_mem_def construct_in_place_def inline_offset_def std_align_def
      sizeof_state_def storage_size_def construct_at_def one_inline_def)

lemma unique_function_self_assign_witness: "assign_move id 0 0 one_inline = Inl Undefined"
  using unique_function_self_assign [OF one_inline_wf, of id 0]
  by (simp add: inline_at_def one_inline_def set_fun_def storage_size_def sizeof_state_def)

text \<open>
  C36: The inline placement is portable: when \<open>std::align\<close> accepts a callable in the buffer of one
  (64-byte aligned) \<open>unique_function\<close>, the same offset is aligned for it and leaves room for it in
  the buffer of every other one, and in the temporary of \<open>swap\<close>; so a move may reuse the offset.
\<close>

theorem inline_offset_portable:
  assumes "inline_offset nm al sz base = Some off" and "al = 2 ^ k" and "0 < sz"
    and "base mod 64 = 0" and "base' mod 64 = 0"
  shows "(base' + sizeof_state + off) mod al = 0 \<and> off + sz \<le> storage_size
    \<and> inline_offset nm al sz base' = Some off"
proof -
  have al: "std_align al sz (base + sizeof_state) storage_size = Some off" and nm: "nm"
    using assms(1) by (auto simp: inline_offset_def split: if_splits)
  note k = inline_alignments [OF al assms(2,3,4)]
  have pos: "0 < al" using assms(2) by simp
  have m: "(base'' + n) mod al = n mod al" if "base'' mod 64 = 0" for base'' n
    using mod_block [OF that k] assms(2) by simp
  have off: "off = (al - 24 mod al) mod al" "sz + off \<le> 40"
    using al m [OF assms(4)]
    by (auto simp: std_align_def Let_def sizeof_state_def storage_size_def split: if_splits)
  have "(24 + off) mod al = 0"
    using pad_aligned [OF pos, of 24] by (simp only: off(1))
  then have "(base' + (24 + off)) mod al = 0"
    by (simp only: m [OF assms(5)])
  moreover have "(al - (base' + 24) mod al) mod al = off"
    by (simp only: m [OF assms(5)] off(1))
  ultimately show ?thesis
    using off(2) nm
    by (simp add: inline_offset_def std_align_def sizeof_state_def storage_size_def ac_simps)
qed

theorem inline_offset_portable_witness:
  "(128 + sizeof_state + 8) mod 32 = 0 \<and> 8 + 16 \<le> storage_size
    \<and> inline_offset True 32 16 128 = Some 8"
  by (rule inline_offset_portable [OF inline_offset_example, of 5]) simp_all

end
