(* ===== verification/Stored_Callables.thy ===== *)
theory Stored_Callables
  imports Execution_Context Unique_Function
begin

text \<open>
  The execution contexts over the objects they really hold: the queues of
  \<open>unsynchronized_execution_context.hpp\<close> and \<open>synchronized_execution_context.hpp\<close> are queues of
  \<open>unique_function<void()>\<close>, and \<open>src/src/execution_context.cpp\<close> moves, destroys and calls those.
  \<open>Execution_Context\<close> has the callables themselves in the queue; here the queue has the numbers of
  \<open>unique_function\<close>s in the memory of \<open>Unique_Function\<close>, and every member that runs is one of its
  operations.

  A callable of type \<open>'c\<close> is run by \<open>run\<close>: the callables it posts, what it does to the world, the exception
  it ends with, if any, and its own next state. \<open>lay i c\<close> is how it is laid out in the \<open>unique_function\<close> of number \<open>i\<close>: whether its move may
  not throw, its alignment and size, and the address of the storage.
\<close>

section \<open>The contexts\<close>

record 'c stored_context =
  slots :: "nat list"
  memory :: "'c mem"
  next_slot :: nat

definition stored_init :: "'c stored_context" where
  "stored_init = \<lparr>slots = [], memory = empty_mem, next_slot = 0\<rparr>"

type_synonym 'c layout = "nat \<Rightarrow> 'c \<Rightarrow> bool \<times> nat \<times> nat \<times> nat"

text \<open>\<open>post\<close>: \<open>emplace\<close> constructs the \<open>unique_function\<close> in the queue.\<close>

definition stored_post :: "'c layout \<Rightarrow> 'c \<Rightarrow> 'c stored_context \<Rightarrow> 'c stored_context cxx" where
  "stored_post lay c x =
     (let i = next_slot x
      in case lay i c of (nothrow_move, al, sz, base) \<Rightarrow>
           cxx_bind (construct_in_place nothrow_move al sz base i c (memory x)) (\<lambda>m.
           Inr (x\<lparr>slots := slots x @ [i], memory := m, next_slot := Suc i\<rparr>)))"

text \<open>
  The constructor of the callable may throw. Inline, the storage stays unused; on the heap,
  \<open>make_unique\<close> gives the block back. Nothing else of the \<open>unique_function\<close> has been set by then, and
  \<open>emplace\<close> of the queue leaves the queue as it was.
\<close>

definition construct_throwing :: "bool \<Rightarrow> nat \<Rightarrow> nat \<Rightarrow> nat \<Rightarrow> 'c mem \<Rightarrow> 'c mem" where
  "construct_throwing nothrow_move al sz base m =
     (case inline_offset nothrow_move al sz base of
        Some off \<Rightarrow> m
      | None \<Rightarrow>
          let h = next_block m;
              m1 = m\<lparr>allocated := insert h (allocated m), next_block := Suc h\<rparr>
          in m1\<lparr>allocated := allocated m1 - {h}\<rparr>)"

definition stored_post_try ::
  "bool \<times> nat \<times> nat \<times> nat \<Rightarrow> 'c cxx \<Rightarrow> 'c stored_context \<Rightarrow> unit cxx \<times> 'c stored_context" where
  "stored_post_try l construct x =
     (case construct of
        Inr c \<Rightarrow>
          (case stored_post (\<lambda>i c. l) c x of
             Inl e \<Rightarrow> (Inl e, x)
           | Inr x' \<Rightarrow> (Inr (), x'))
      | Inl e \<Rightarrow>
          (case l of (nothrow_move, al, sz, base) \<Rightarrow>
             (Inl e, x\<lparr>memory := construct_throwing nothrow_move al sz base (memory x)\<rparr>)))"

primrec stored_posts :: "'c layout \<Rightarrow> 'c list \<Rightarrow> 'c stored_context \<Rightarrow> 'c stored_context cxx" where
  "stored_posts lay [] x = Inr x"
| "stored_posts lay (c # cs) x = cxx_bind (stored_post lay c x) (stored_posts lay cs)"

type_synonym ('c, 'w) behaviour = "'c \<Rightarrow> ('c list \<times> ('w \<Rightarrow> 'w) \<times> nat option) \<times> 'c"

text \<open>
  Calling the \<open>unique_function\<close> \<open>f\<close>: the callable posts and acts while it runs. A function that does not
  own its callable posts nothing here. The result has the exception with which the call ends.
\<close>

definition stored_call ::
  "'c layout \<Rightarrow> ('c, 'w) behaviour \<Rightarrow> nat \<Rightarrow> 'c stored_context \<Rightarrow> 'w \<Rightarrow>
   (('c stored_context \<times> 'w) \<times> nat option) cxx" where
  "stored_call lay run f x w =
     cxx_bind (invoke run (\<lambda>r. ([], id, None)) f (memory x)) (\<lambda>((posts, act, ex), m).
     cxx_bind (stored_posts lay posts (x\<lparr>memory := m\<rparr>)) (\<lambda>x'. Inr ((x', act w), ex)))"

text \<open>
  One round of \<open>run\<close> of the unsynchronised context: move the front into the local \<open>f\<close>, pop, call,
  and destroy \<open>f\<close> at the end of the round, which an exception leaves in the same way.
\<close>

definition unsync_round ::
  "('c \<Rightarrow> 'c) \<Rightarrow> 'c layout \<Rightarrow> ('c, 'w) behaviour \<Rightarrow> nat \<Rightarrow> nat list \<Rightarrow> 'c stored_context \<Rightarrow> 'w \<Rightarrow>
   (('c stored_context \<times> 'w) \<times> nat option) cxx" where
  "unsync_round mv lay run i q x w =
     (let f = next_slot x
      in cxx_bind (construct_move mv f i (memory x)) (\<lambda>m1.
         cxx_bind (destroy_fun i m1) (\<lambda>m2.
         cxx_bind (stored_call lay run f (x\<lparr>slots := q, memory := m2, next_slot := Suc f\<rparr>) w) (\<lambda>((x', w'), ex).
         cxx_bind (destroy_fun f (memory x')) (\<lambda>m3. Inr ((x'\<lparr>memory := m3\<rparr>, w'), ex))))))"

partial_function (option) unsync_stored_loop ::
  "('c \<Rightarrow> 'c) \<Rightarrow> 'c layout \<Rightarrow> ('c, 'w) behaviour \<Rightarrow> nat \<Rightarrow> 'c stored_context \<Rightarrow> 'w \<Rightarrow>
   (('c stored_context \<times> 'w) \<times> nat cxx) run" where
  "unsync_stored_loop mv lay run n x w =
     (case slots x of
        [] \<Rightarrow> Some (Inr ((x, w), Inr n))
      | i # q \<Rightarrow>
          (case unsync_round mv lay run i q x w of
             Inl e \<Rightarrow> Some (Inl e)
           | Inr ((x', w'), Some ex) \<Rightarrow> Some (Inr ((x', w'), Inl (Callback_exception ex)))
           | Inr ((x', w'), None) \<Rightarrow> unsync_stored_loop mv lay run (n + 1) x' w'))"

definition unsync_stored_run ::
  "('c \<Rightarrow> 'c) \<Rightarrow> 'c layout \<Rightarrow> ('c, 'w) behaviour \<Rightarrow> 'c stored_context \<Rightarrow> 'w \<Rightarrow>
   (('c stored_context \<times> 'w) \<times> nat cxx) run" where
  "unsync_stored_run mv lay run x w = unsync_stored_loop mv lay run 0 x w"

text \<open>
  \<open>run\<close> of the synchronised context: \<open>f\<close> lives outside of the loop. \<open>try_pop\<close> assigns the front to it,
  which leaves the previous callable in the queue's element, and destroys that; the last one is
  destroyed when \<open>run\<close> returns or an exception leaves it.
\<close>

definition sync_round ::
  "('c \<Rightarrow> 'c) \<Rightarrow> 'c layout \<Rightarrow> ('c, 'w) behaviour \<Rightarrow> nat \<Rightarrow> nat \<Rightarrow> nat list \<Rightarrow> 'c stored_context \<Rightarrow> 'w \<Rightarrow>
   (('c stored_context \<times> 'w) \<times> nat option) cxx" where
  "sync_round mv lay run f i q x w =
     cxx_bind (assign_move mv f i (memory x)) (\<lambda>m1.
     cxx_bind (destroy_fun i m1) (\<lambda>m2.
     stored_call lay run f (x\<lparr>slots := q, memory := m2\<rparr>) w))"

partial_function (option) sync_stored_loop ::
  "('c \<Rightarrow> 'c) \<Rightarrow> 'c layout \<Rightarrow> ('c, 'w) behaviour \<Rightarrow> nat \<Rightarrow> nat \<Rightarrow> 'c stored_context \<Rightarrow> 'w \<Rightarrow>
   (('c stored_context \<times> 'w) \<times> nat cxx) run" where
  "sync_stored_loop mv lay run f n x w =
     (case slots x of
        [] \<Rightarrow> Some (cxx_bind (destroy_fun f (memory x)) (\<lambda>m. Inr ((x\<lparr>memory := m\<rparr>, w), Inr n)))
      | i # q \<Rightarrow>
          (case sync_round mv lay run f i q x w of
             Inl e \<Rightarrow> Some (Inl e)
           | Inr ((x', w'), Some ex) \<Rightarrow>
               Some (cxx_bind (destroy_fun f (memory x')) (\<lambda>m.
                 Inr ((x'\<lparr>memory := m\<rparr>, w'), Inl (Callback_exception ex))))
           | Inr ((x', w'), None) \<Rightarrow> sync_stored_loop mv lay run f (n + 1) x' w'))"

definition sync_stored_run ::
  "('c \<Rightarrow> 'c) \<Rightarrow> 'c layout \<Rightarrow> ('c, 'w) behaviour \<Rightarrow> 'c stored_context \<Rightarrow> 'w \<Rightarrow>
   (('c stored_context \<times> 'w) \<times> nat cxx) run" where
  "sync_stored_run mv lay run x w =
     (let f = next_slot x
      in sync_stored_loop mv lay run f 0 (x\<lparr>memory := construct_default f (memory x), next_slot := Suc f\<rparr>) w)"

definition posted_by :: "('c, 'w) behaviour \<Rightarrow> 'c \<Rightarrow> 'c list" where
  "posted_by run c = fst (fst (run c))"

definition effect_of :: "('c, 'w) behaviour \<Rightarrow> 'c \<Rightarrow> 'w \<Rightarrow> 'w" where
  "effect_of run c = fst (snd (fst (run c)))"

definition thrown_by :: "('c, 'w) behaviour \<Rightarrow> 'c \<Rightarrow> nat option" where
  "thrown_by run c = snd (snd (fst (run c)))"

section \<open>What the queue holds\<close>

text \<open>
  The queue holds the callables \<open>cs\<close>, in its slots, the local \<open>f\<close> may hold something, and no other
  \<open>unique_function\<close> does.
\<close>

definition stored :: "nat set \<Rightarrow> 'c list \<Rightarrow> 'c stored_context \<Rightarrow> bool" where
  "stored F cs x \<longleftrightarrow> wf_mem (memory x) \<and> map (holds (memory x)) (slots x) = map Obj cs \<and> distinct (slots x)
     \<and> (\<forall>i \<in> set (slots x) \<union> F. i < next_slot x) \<and> set (slots x) \<inter> F = {}
     \<and> (\<forall>i. i \<notin> set (slots x) \<union> F \<longrightarrow> holds (memory x) i = Nothing)"

definition sized :: "'c layout \<Rightarrow> bool" where
  "sized lay \<longleftrightarrow> (\<forall>i c. 0 < fst (snd (snd (lay i c))))"

lemma storedD:
  assumes "stored F cs x"
  shows "wf_mem (memory x)" "map (holds (memory x)) (slots x) = map Obj cs" "distinct (slots x)"
    "i \<in> set (slots x) \<Longrightarrow> i < next_slot x" "i \<in> F \<Longrightarrow> i < next_slot x" "set (slots x) \<inter> F = {}"
    "i \<notin> set (slots x) \<Longrightarrow> i \<notin> F \<Longrightarrow> holds (memory x) i = Nothing"
  using assms unfolding stored_def by auto

lemma stored_next: "stored F cs x \<Longrightarrow> holds (memory x) (next_slot x) = Nothing"
  using storedD(4,5,7) by blast

lemma stored_post_ok:
  assumes "stored F cs x" and "sized lay"
  shows "\<exists>x'. stored_post lay c x = Inr x' \<and> stored F (cs @ [c]) x' \<and> (\<forall>f \<in> F. holds (memory x') f = holds (memory x) f)
    \<and> next_slot x \<le> next_slot x'"
proof -
  note S = storedD [OF assms(1)]
  obtain nm al sz base where lay: "lay (next_slot x) c = (nm, al, sz, base)"
    by (cases "lay (next_slot x) c")
  then have "0 < sz"
    using assms(2) unfolding sized_def by (metis fst_conv snd_conv)
  then obtain m where m: "construct_in_place nm al sz base (next_slot x) c (memory x) = Inr m" "wf_mem m"
      "holds m = (holds (memory x))(next_slot x := Obj c)"
    using held_op_refines [OF S(1), of undefined undefined "Op_emplace nm al sz base (next_slot x) c" "[]"]
      stored_next [OF assms(1)] by (auto simp: cxx_bind_eq_Inr)
  have ne: "i \<noteq> next_slot x" if "i \<in> set (slots x) \<or> i \<in> F" for i
    using S(4,5) that by blast
  have "map (holds m) (slots x) = map (holds (memory x)) (slots x)"
    using ne by (auto simp: m(3))
  then have "stored F (cs @ [c]) (x\<lparr>slots := slots x @ [next_slot x], memory := m, next_slot := Suc (next_slot x)\<rparr>)"
    unfolding stored_def using m S(2,3,6) ne S(4,5,7) by (auto simp: less_SucI)
  then show ?thesis
    using m ne by (auto simp: stored_post_def lay Let_def)
qed

lemma stored_posts_ok:
  assumes "stored F cs x" and "sized lay"
  shows "\<exists>x'. stored_posts lay ps x = Inr x' \<and> stored F (cs @ ps) x' \<and> (\<forall>f \<in> F. holds (memory x') f = holds (memory x) f)"
  using assms(1)
proof (induction ps arbitrary: cs x)
  case (Cons c ps)
  obtain x1 where x1: "stored_post lay c x = Inr x1" "stored F (cs @ [c]) x1" "\<forall>f \<in> F. holds (memory x1) f = holds (memory x) f"
    using stored_post_ok [OF Cons.prems assms(2), of c] by blast
  then show ?case
    using Cons.IH [OF x1(2)] by auto
qed simp

text \<open>A constructor that throws out of \<open>post\<close> leaves the context as it was, and no block behind.\<close>

lemma stored_post_throws:
  assumes st: "stored F cs x"
  shows "\<exists>x'. stored_post_try l (Inl e) x = (Inl e, x') \<and> stored F cs x' \<and> slots x' = slots x
    \<and> holds (memory x') = holds (memory x) \<and> allocated (memory x') = allocated (memory x)"
proof -
  obtain nm al sz base where l: "l = (nm, al, sz, base)" by (cases l)
  let ?m = "construct_throwing nm al sz base (memory x)"
  have wf: "wf_mem (memory x)" using storedD(1) [OF st] .
  have fresh: "next_block (memory x) \<notin> allocated (memory x)"
    using wf_allocated [OF wf] by blast
  then have m: "funs ?m = funs (memory x)" "objs ?m = objs (memory x)" "allocated ?m = allocated (memory x)"
      "next_block (memory x) \<le> next_block ?m"
    by (auto simp: construct_throwing_def Let_def split: option.split)
  then have "holds ?m = holds (memory x)"
    by (intro ext) (simp only: holds_def m(1,2))
  moreover have "wf_mem ?m"
    using wf m(4) unfolding wf_mem_def shaped_at_def shape_defs m(1-3) by (auto intro: less_le_trans)
  ultimately have "stored F cs (x\<lparr>memory := ?m\<rparr>)"
    using st unfolding stored_def by simp
  then show ?thesis
    using \<open>holds ?m = holds (memory x)\<close> m(3) by (simp add: stored_post_try_def l)
qed

text \<open>The operations on one function, as what the functions hold.\<close>

lemma construct_move_ok:
  assumes "wf_mem m" and "holds m f = Nothing" and "f \<noteq> i"
  shows "\<exists>m'. construct_move mv f i m = Inr m' \<and> wf_mem m' \<and> holds m' = (holds m)(f := holds m i, i := Nothing)"
  using held_op_refines [OF assms(1), of undefined undefined "Op_move f i" "[]" _ mv] assms(2,3)
  by (auto simp: cxx_bind_eq_Inr)

lemma assign_move_ok:
  assumes "wf_mem m" and "f \<noteq> i"
  shows "\<exists>m'. assign_move mv f i m = Inr m' \<and> wf_mem m' \<and> holds m' = (holds m)(f := holds m i, i := holds m f)"
  using held_op_refines [OF assms(1), of undefined undefined "Op_assign f i" "[]" _ mv] assms(2)
  by (auto simp: cxx_bind_eq_Inr)

lemma destroy_fun_ok:
  assumes "wf_mem m"
  shows "\<exists>m'. destroy_fun i m = Inr m' \<and> wf_mem m' \<and> holds m' = (holds m)(i := Nothing)"
  using held_op_refines [OF assms, of undefined undefined "Op_destroy i" "[]"] by (auto simp: cxx_bind_eq_Inr)

lemma stored_call_ok:
  assumes st: "stored {f} cs x" and f: "holds (memory x) f = Obj c" and "sized lay"
  shows "\<exists>x'. stored_call lay run f x w = Inr ((x', effect_of run c w), thrown_by run c) \<and> stored {f} (cs @ posted_by run c) x'"
proof -
  note S = storedD [OF st]
  obtain m where m: "invoke run (\<lambda>r. ([], id, None)) f (memory x) = Inr (fst (run c), m)" "wf_mem m"
      "holds m = (holds (memory x))(f := Obj (snd (run c)))"
    using invoke_spec [OF S(1), of run "\<lambda>r. ([], id, None)" f] f by auto
  have "map (holds m) (slots x) = map (holds (memory x)) (slots x)"
    using S(6) by (auto simp: m(3))
  then have "stored {f} cs (x\<lparr>memory := m\<rparr>)"
    unfolding stored_def using m(2,3) S(2-7) by auto
  then show ?thesis
    using stored_posts_ok [of "{f}" cs "x\<lparr>memory := m\<rparr>" lay "posted_by run c"] assms(3)
    by (auto simp: stored_call_def m(1) split_beta posted_by_def effect_of_def thrown_by_def)
qed

text \<open>Dropping what a function outside of the queue holds.\<close>

lemma stored_drop:
  assumes st: "stored {f} cs x" and m: "wf_mem m" "holds m = (holds (memory x))(f := Nothing)"
  shows "stored {} cs (x\<lparr>memory := m\<rparr>)"
proof -
  note S = storedD [OF st]
  have "map (holds m) (slots x) = map (holds (memory x)) (slots x)"
    using S(6) by (auto simp: m(2))
  then show ?thesis
    unfolding stored_def using m S(2-7) by auto
qed

text \<open>Taking the front out into a function outside of the queue.\<close>

lemma stored_take:
  assumes st: "stored F (c # cs) x" and sl: "slots x = i # q" and f: "f \<notin> set (i # q)" "F \<subseteq> {f}" "f < n" "next_slot x \<le> n"
    and m: "wf_mem m" "holds m = (holds (memory x))(f := Obj c, i := Nothing)"
  shows "stored {f} cs (x\<lparr>slots := q, memory := m, next_slot := n\<rparr>)"
proof -
  note S = storedD [OF st, unfolded sl]
  have q: "map (holds m) q = map (holds (memory x)) q" "i \<noteq> f"
    using S(3) f(1) by (auto simp: m(2))
  have "\<forall>j \<in> set q \<union> {f}. j < n"
    using S(4) f(3,4) by (auto intro: less_le_trans)
  moreover have "holds m j = Nothing" if "j \<notin> set q \<union> {f}" for j
    using S(7) [of j] f(2) that m(2) by (cases "j = i") auto
  ultimately show ?thesis
    unfolding stored_def using m(1) S(2,3) f(1) q(1) by simp
qed

lemma unsync_round_ok:
  assumes st: "stored {} (c # cs) x" and sl: "slots x = i # q" and "sized lay"
  shows "\<exists>x'. unsync_round mv lay run i q x w = Inr ((x', effect_of run c w), thrown_by run c) \<and> stored {} (cs @ posted_by run c) x'"
proof -
  note S = storedD [OF st, unfolded sl]
  let ?f = "next_slot x"
  have f: "?f \<notin> set (i # q)" "?f \<noteq> i" and held: "holds (memory x) i = Obj c"
    using S(2,4) by auto
  obtain m1 where m1: "construct_move mv ?f i (memory x) = Inr m1" "wf_mem m1"
      "holds m1 = (holds (memory x))(?f := Obj c, i := Nothing)"
    using construct_move_ok [OF S(1) stored_next [OF st] f(2)] held by auto
  obtain m2 where m2: "destroy_fun i m1 = Inr m2" "wf_mem m2" "holds m2 = (holds (memory x))(?f := Obj c, i := Nothing)"
    using destroy_fun_ok [OF m1(2), of i] m1(3) by auto
  let ?x = "x\<lparr>slots := q, memory := m2, next_slot := Suc ?f\<rparr>"
  have x: "stored {?f} cs ?x" "holds (memory ?x) ?f = Obj c"
    using stored_take [OF st sl f(1) _ _ _ m2(2,3), of "Suc ?f"] f(2) m2(3) by simp_all
  obtain x' where x': "stored_call lay run ?f ?x w = Inr ((x', effect_of run c w), thrown_by run c)"
      "stored {?f} (cs @ posted_by run c) x'"
    using stored_call_ok [OF x assms(3), of run w] by (elim exE conjE)
  obtain m3 where m3: "destroy_fun ?f (memory x') = Inr m3" "wf_mem m3" "holds m3 = (holds (memory x'))(?f := Nothing)"
    using destroy_fun_ok [OF storedD(1) [OF x'(2)], of ?f] by (elim exE conjE)
  show ?thesis
    using stored_drop [OF x'(2) m3(2,3)] by (simp add: unsync_round_def Let_def m1(1) m2(1) x'(1) m3(1))
qed

lemma sync_round_ok:
  assumes st: "stored {f} (c # cs) x" and sl: "slots x = i # q" and "sized lay"
  shows "\<exists>x'. sync_round mv lay run f i q x w = Inr ((x', effect_of run c w), thrown_by run c) \<and> stored {f} (cs @ posted_by run c) x'"
proof -
  note S = storedD [OF st, unfolded sl]
  have f: "f \<notin> set (i # q)" "f \<noteq> i" "f < next_slot x" and held: "holds (memory x) i = Obj c"
    using S(2,5,6) by auto
  obtain m1 where m1: "assign_move mv f i (memory x) = Inr m1" "wf_mem m1"
      "holds m1 = (holds (memory x))(f := Obj c, i := holds (memory x) f)"
    using assign_move_ok [OF S(1) f(2)] held by auto
  obtain m2 where m2: "destroy_fun i m1 = Inr m2" "wf_mem m2" "holds m2 = (holds (memory x))(f := Obj c, i := Nothing)"
    using destroy_fun_ok [OF m1(2), of i] m1(3) by auto
  let ?x = "x\<lparr>slots := q, memory := m2\<rparr>"
  have x: "stored {f} cs ?x" "holds (memory ?x) f = Obj c"
    using stored_take [OF st sl f(1) _ f(3) _ m2(2,3)] f(2) m2(3) by simp_all
  show ?thesis
    using stored_call_ok [OF x assms(3), of run w] by (simp add: sync_round_def m1(1) m2(1))
qed

section \<open>The loops\<close>

text \<open>The same callables in the context of \<open>Execution_Context\<close>.\<close>

definition callable_exec :: "('c, 'w) behaviour \<Rightarrow> ('c, 'c unsync_context, 'w) exec" where
  "callable_exec run = posting_exec uec_post (\<lambda>c w. posted_by run c) (effect_of run) (\<lambda>c w. thrown_by run c)"

lemma fold_uec_post: "fold uec_post ps ctx = ctx\<lparr>m_function_queue := m_function_queue ctx @ ps\<rparr>"
  by (induction ps arbitrary: ctx) (simp_all add: uec_post_def queue_emplace_def)

lemma callable_exec_app:
  "callable_exec run c (ctx, w) =
   ((ctx\<lparr>m_function_queue := m_function_queue ctx @ posted_by run c\<rparr>, effect_of run c w), thrown_by run c)"
  by (simp add: callable_exec_def posting_exec_def fold_uec_post)

definition both_end ::
  "('c \<Rightarrow> 'c) \<Rightarrow> 'c layout \<Rightarrow> ('c, 'w) behaviour \<Rightarrow> nat \<Rightarrow> 'c list \<Rightarrow> 'w \<Rightarrow> 'c list \<Rightarrow> 'w \<Rightarrow> nat cxx \<Rightarrow> bool" where
  "both_end mv lay run n cs w cs' w' res \<longleftrightarrow>
     (\<forall>x. stored {} cs x \<longrightarrow> (\<exists>x'. unsync_stored_loop mv lay run n x w = Some (Inr ((x', w'), res)) \<and> stored {} cs' x'))
   \<and> (\<forall>f x. stored {f} cs x \<longrightarrow> (\<exists>x'. sync_stored_loop mv lay run f n x w = Some (Inr ((x', w'), res)) \<and> stored {} cs' x'))"

lemma both_endI:
  assumes "\<And>x. stored {} cs x \<Longrightarrow> \<exists>x'. unsync_stored_loop mv lay run n x w = Some (Inr ((x', w'), res)) \<and> stored {} cs' x'"
    and "\<And>f x. stored {f} cs x \<Longrightarrow> \<exists>x'. sync_stored_loop mv lay run f n x w = Some (Inr ((x', w'), res)) \<and> stored {} cs' x'"
  shows "both_end mv lay run n cs w cs' w' res"
  using assms unfolding both_end_def by (intro conjI allI impI)

lemma stored_front: "stored F (c # cs) x \<Longrightarrow> \<exists>i q. slots x = i # q"
  using storedD(2) [of F "c # cs" x] by (cases "slots x") simp_all

lemma stored_destroy:
  assumes "stored {f} cs x"
  shows "\<exists>m. destroy_fun f (memory x) = Inr m \<and> stored {} cs (x\<lparr>memory := m\<rparr>)"
proof -
  obtain m where m: "destroy_fun f (memory x) = Inr m" "wf_mem m" "holds m = (holds (memory x))(f := Nothing)"
    using destroy_fun_ok [OF storedD(1) [OF assms], of f] by (elim exE conjE)
  with stored_drop [OF assms m(2,3)] show ?thesis by (intro exI [of _ m] conjI)
qed

lemma both_end_nil: "both_end mv lay run n [] w [] w (Inr n)"
proof (rule both_endI)
  fix x :: "'a stored_context"
  assume st: "stored {} [] x"
  have "slots x = []" using storedD(2) [OF st] by simp
  with st show "\<exists>x'. unsync_stored_loop mv lay run n x w = Some (Inr ((x', w), Inr n)) \<and> stored {} [] x'"
    by (subst unsync_stored_loop.simps) simp
next
  fix f and x :: "'a stored_context"
  assume st: "stored {f} [] x"
  have "slots x = []" using storedD(2) [OF st] by simp
  with stored_destroy [OF st]
  show "\<exists>x'. sync_stored_loop mv lay run f n x w = Some (Inr ((x', w), Inr n)) \<and> stored {} [] x'"
    by (subst sync_stored_loop.simps) auto
qed

lemma both_end_throw:
  assumes "sized lay" and ex: "thrown_by run c = Some e"
  shows "both_end mv lay run n (c # cs) w (cs @ posted_by run c) (effect_of run c w) (Inl (Callback_exception e))"
proof (rule both_endI)
  fix x
  assume st: "stored {} (c # cs) x"
  obtain i q where sl: "slots x = i # q" using stored_front [OF st] by (elim exE)
  show "\<exists>x'. unsync_stored_loop mv lay run n x w = Some (Inr ((x', effect_of run c w), Inl (Callback_exception e)))
      \<and> stored {} (cs @ posted_by run c) x'"
    using unsync_round_ok [OF st sl assms(1), of mv run w] by (subst unsync_stored_loop.simps) (auto simp: sl ex)
next
  fix f x
  assume st: "stored {f} (c # cs) x"
  obtain i q where sl: "slots x = i # q" using stored_front [OF st] by (elim exE)
  obtain x1 where x1: "sync_round mv lay run f i q x w = Inr ((x1, effect_of run c w), thrown_by run c)"
      "stored {f} (cs @ posted_by run c) x1"
    using sync_round_ok [OF st sl assms(1), of mv run w] by (elim exE conjE)
  show "\<exists>x'. sync_stored_loop mv lay run f n x w = Some (Inr ((x', effect_of run c w), Inl (Callback_exception e)))
      \<and> stored {} (cs @ posted_by run c) x'"
    using stored_destroy [OF x1(2)] by (subst sync_stored_loop.simps) (auto simp: sl ex x1(1))
qed

lemma both_end_cons:
  assumes "sized lay" and ex: "thrown_by run c = None"
    and rest: "both_end mv lay run (n + 1) (cs @ posted_by run c) (effect_of run c w) cs' w' res"
  shows "both_end mv lay run n (c # cs) w cs' w' res"
proof (rule both_endI)
  fix x
  assume st: "stored {} (c # cs) x"
  obtain i q where sl: "slots x = i # q" using stored_front [OF st] by (elim exE)
  obtain x1 where x1: "unsync_round mv lay run i q x w = Inr ((x1, effect_of run c w), thrown_by run c)"
      "stored {} (cs @ posted_by run c) x1"
    using unsync_round_ok [OF st sl assms(1), of mv run w] by (elim exE conjE)
  have "unsync_stored_loop mv lay run n x w = unsync_stored_loop mv lay run (n + 1) x1 (effect_of run c w)"
    by (subst unsync_stored_loop.simps) (simp add: sl ex x1(1))
  then show "\<exists>x'. unsync_stored_loop mv lay run n x w = Some (Inr ((x', w'), res)) \<and> stored {} cs' x'"
    using rest x1(2) unfolding both_end_def by simp
next
  fix f x
  assume st: "stored {f} (c # cs) x"
  obtain i q where sl: "slots x = i # q" using stored_front [OF st] by (elim exE)
  obtain x1 where x1: "sync_round mv lay run f i q x w = Inr ((x1, effect_of run c w), thrown_by run c)"
      "stored {f} (cs @ posted_by run c) x1"
    using sync_round_ok [OF st sl assms(1), of mv run w] by (elim exE conjE)
  have "sync_stored_loop mv lay run f n x w = sync_stored_loop mv lay run f (n + 1) x1 (effect_of run c w)"
    by (subst sync_stored_loop.simps) (simp add: sl ex x1(1))
  then show "\<exists>x'. sync_stored_loop mv lay run f n x w = Some (Inr ((x', w'), res)) \<and> stored {} cs' x'"
    using rest x1(2) unfolding both_end_def by simp
qed

lemma stored_loops:
  assumes "sized lay" and "uec_run_loop (callable_exec run) n ctx w = Some r"
  shows "both_end mv lay run n (m_function_queue ctx) w (m_function_queue (fst (fst r))) (snd (fst r)) (snd r)"
proof -
  let ?P = "\<lambda>n ctx w r. both_end mv lay run n (m_function_queue ctx) w (m_function_queue (fst (fst r))) (snd (fst r)) (snd r)"
  have "exec = callable_exec run \<longrightarrow> ?P n ctx w r" if "uec_run_loop exec n ctx w = Some r" for exec
  proof (rule uec_run_loop.raw_induct [where P = "\<lambda>exec n ctx w r. exec = callable_exec run \<longrightarrow> ?P n ctx w r", OF _ that])
    fix loop and exec :: "('a, 'a unsync_context, 'b) exec" and n ctx w r
    assume IH: "\<And>exec n ctx w r. loop exec n ctx w = Some r \<Longrightarrow> exec = callable_exec run \<longrightarrow> ?P n ctx w r"
      and eq: "(if queue_empty (m_function_queue ctx) then Some ((ctx, w), Inr n)
        else case queue_front (m_function_queue ctx) of
          Inl e \<Rightarrow> Some ((ctx, w), Inl e)
        | Inr f \<Rightarrow>
            (case queue_pop (m_function_queue ctx) of
              Inl e \<Rightarrow> Some ((ctx, w), Inl e)
            | Inr q \<Rightarrow>
                (case exec f (ctx\<lparr>m_function_queue := q\<rparr>, w) of
                  ((ctx', w'), Some x) \<Rightarrow> Some ((ctx', w'), Inl (Callback_exception x))
                | ((ctx', w'), None) \<Rightarrow> loop exec (n + 1) ctx' w'))) = Some r"
    show "exec = callable_exec run \<longrightarrow> ?P n ctx w r"
    proof
      assume ex: "exec = callable_exec run"
      show "?P n ctx w r"
      proof (cases "m_function_queue ctx")
        case Nil
        then have "r = ((ctx, w), Inr n)"
          using eq by (simp add: queue_empty_def)
        with Nil both_end_nil show ?thesis by simp
      next
        case (Cons c cs)
        note step = eq [simplified Cons ex queue_empty_def queue_front_def queue_pop_def callable_exec_app, simplified]
        show ?thesis
        proof (cases "thrown_by run c")
          case None
          with step have "loop exec (n + 1) (ctx\<lparr>m_function_queue := cs @ posted_by run c\<rparr>) (effect_of run c w) = Some r"
            by (simp add: ex)
          from IH [OF this] show ?thesis
            unfolding Cons using both_end_cons [OF assms(1) None] ex by simp
        next
          case (Some e)
          with step have "r = ((ctx\<lparr>m_function_queue := cs @ posted_by run c\<rparr>, effect_of run c w), Inl (Callback_exception e))"
            by simp
          then show ?thesis
            unfolding Cons using both_end_throw [OF assms(1) Some] by simp
        qed
      qed
    qed
  qed
  with assms(2) show ?thesis by blast
qed

lemma stored_init_ok: "stored {} [] stored_init"
  by (simp add: stored_def stored_init_def empty_mem_wf empty_mem_holds)

lemma stored_nothing_left:
  assumes "stored {} [] x"
  shows "objs (memory x) = (\<lambda>_. None) \<and> allocated (memory x) = {}"
proof -
  have "slots x = []" using storedD(2) [OF assms] by simp
  then have "\<forall>i c. holds (memory x) i \<noteq> Obj c"
    using storedD(7) [OF assms] by simp
  with nothing_left [OF storedD(1) [OF assms]] show ?thesis by simp
qed

text \<open>The queue's functions hold exactly the callables \<open>cs\<close>, and when there are none nothing is left.\<close>

definition queue_holds :: "'c list \<Rightarrow> 'c stored_context \<Rightarrow> bool" where
  "queue_holds cs x \<longleftrightarrow> map (holds (memory x)) (slots x) = map Obj cs
     \<and> (\<forall>i. i \<notin> set (slots x) \<longrightarrow> holds (memory x) i = Nothing)
     \<and> (cs = [] \<longrightarrow> objs (memory x) = (\<lambda>_. None) \<and> allocated (memory x) = {})"

lemma stored_queue_holds: "stored {} cs x \<Longrightarrow> queue_holds cs x"
  using storedD(2,7) [of "{}" cs x] stored_nothing_left [of x] by (auto simp: queue_holds_def)

section \<open>Properties\<close>

text \<open>
  C7: The contexts over the \<open>unique_function\<close>s they hold do what \<open>Execution_Context\<close> says of the
  callables. For any callables posted to a fresh context, however each is laid out and moved, inline or
  on the heap, and whatever callables they post while they run: when running the queue of callables
  ends, so does \<open>run()\<close> of both contexts, with the same effects in the same order and the same count, or
  with the same exception. No \<open>unique_function\<close> is used after it was moved from or destroyed; afterwards
  the functions in the queue hold exactly the callables that are left, no other function holds any, and
  when none is left every callable has been destroyed and every heap block freed.
\<close>

theorem stored_callables_refine:
  assumes "sized lay"
    and "uec_run (posting_exec uec_post (\<lambda>c w. posted_by run c) (effect_of run) (\<lambda>c w. thrown_by run c))
        \<lparr>m_function_queue = cs\<rparr> w = Some ((ctx, w'), res)"
  shows "\<exists>x x1 x2. stored_posts lay cs stored_init = Inr x
    \<and> unsync_stored_run mv lay run x w = Some (Inr ((x1, w'), res)) \<and> queue_holds (m_function_queue ctx) x1
    \<and> sync_stored_run mv lay run x w = Some (Inr ((x2, w'), res)) \<and> queue_holds (m_function_queue ctx) x2"
proof -
  obtain x where x: "stored_posts lay cs stored_init = Inr x" "stored {} cs x"
    using stored_posts_ok [OF stored_init_ok assms(1), of cs] by auto
  have ends: "both_end mv lay run 0 cs w (m_function_queue ctx) w' res"
    using stored_loops [OF assms(1), of run 0 "\<lparr>m_function_queue = cs\<rparr>" w _ mv] assms(2)
    by (auto simp: uec_run_def callable_exec_def)
  obtain x1 where x1: "unsync_stored_loop mv lay run 0 x w = Some (Inr ((x1, w'), res))" "stored {} (m_function_queue ctx) x1"
    using ends x(2) unfolding both_end_def by blast
  let ?f = "next_slot x"
  have empty: "construct_default ?f (memory x) = memory x"
    using stored_next [OF x(2)] holds_nothing [OF storedD(1) [OF x(2)]] by (intro construct_default_empty) simp
  have "stored {?f} cs (x\<lparr>next_slot := Suc ?f\<rparr>)"
    unfolding stored_def using storedD [OF x(2)] by (auto simp: less_SucI)
  then obtain x2 where x2: "sync_stored_loop mv lay run ?f 0 (x\<lparr>next_slot := Suc ?f\<rparr>) w = Some (Inr ((x2, w'), res))"
      "stored {} (m_function_queue ctx) x2"
    using ends unfolding both_end_def by blast
  have "x\<lparr>memory := memory x, next_slot := Suc ?f\<rparr> = x\<lparr>next_slot := Suc ?f\<rparr>"
    by simp
  then show ?thesis
    using x(1) x1(1) x2(1) stored_queue_holds [OF x1(2)] stored_queue_holds [OF x2(2)]
    by (intro exI [of _ x] exI [of _ x1] exI [of _ x2])
      (simp add: unsync_stored_run_def sync_stored_run_def Let_def empty)
qed

text \<open>Callable 2 posts callable 1 and callable 5 throws; odd ones are on the heap.\<close>

definition example_run :: "(nat, nat list) behaviour" where
  "example_run c = ((if c = 2 then [1] else [], \<lambda>w. w @ [c], if c = 5 then Some 9 else None), c)"

lemma example_run_simps:
  "posted_by example_run c = (if c = 2 then [1] else [])" "effect_of example_run c w = w @ [c]"
  "thrown_by example_run c = (if c = 5 then Some 9 else None)"
  by (simp_all add: example_run_def posted_by_def effect_of_def thrown_by_def)

theorem stored_callables_refine_witness:
  "\<exists>x x1. stored_posts (\<lambda>i c. (even c, 8, 8, 64)) [2, 5, 6] stored_init = Inr x
    \<and> unsync_stored_run id (\<lambda>i c. (even c, 8, 8, 64)) example_run x [] = Some (Inr ((x1, [2, 5]), Inl (Callback_exception 9)))
    \<and> queue_holds [6, 1] x1"
proof -
  have "sized (\<lambda>i c. (even c, 8, 8, 64))"
    by (simp add: sized_def)
  moreover have "uec_run (posting_exec uec_post (\<lambda>c w. posted_by example_run c) (effect_of example_run)
      (\<lambda>c w. thrown_by example_run c)) \<lparr>m_function_queue = [2, 5, 6]\<rparr> [] =
      Some ((\<lparr>m_function_queue = [6, 1]\<rparr>, [2, 5]), Inl (Callback_exception 9))"
    unfolding uec_run_def callable_exec_def [symmetric]
    by (simp add: uec_loop_Cons callable_exec_app example_run_simps)
  ultimately show ?thesis
    using stored_callables_refine [of "\<lambda>i c. (even c, 8, 8, 64)" example_run "[2, 5, 6]" "[]" "\<lparr>m_function_queue = [6, 1]\<rparr>"
        "[2, 5]" "Inl (Callback_exception 9)" id] by auto
qed

end
