(* ===== verification/Uring_Storage.thy ===== *)
theory Uring_Storage
  imports Native_Result
begin

text \<open>
  \<open>include/tcx/services/uring_service.hpp\<close>, \<open>uring_context_storage\<close>: the owner of one io_uring
  instance, and \<open>create\<close> of \<open>unsynchronized_uring_context\<close>. The \<open>io_uring\<close> structure is liburing's:
  the fields the code reads are kept. Every call of \<open>io_uring_queue_exit\<close> is recorded with the
  instance it closes. What \<open>io_uring_queue_init_params\<close> returns, and the instance it leaves behind,
  is an argument.
\<close>

unbundle bit_operations_syntax

section \<open>One instance\<close>

record io_uring =
  ring_fd :: handle_type
  enter_ring_fd :: handle_type
  ring_features :: c_uint
  ring_flags :: c_uint

definition default_uring :: io_uring where
  "default_uring = \<lparr>ring_fd = invalid_handle, enter_ring_fd = invalid_handle, ring_features = 0,
     ring_flags = 0\<rparr>"

definition native_handle :: "io_uring \<Rightarrow> handle_type" where
  "native_handle u = ring_fd u"

definition features :: "io_uring \<Rightarrow> c_uint" where
  "features u = ring_features u"

definition has_feature :: "io_uring \<Rightarrow> c_uint \<Rightarrow> bool" where
  "has_feature u feature \<longleftrightarrow> ring_features u AND feature \<noteq> 0"

section \<open>Storage objects\<close>

text \<open>The storage objects, by number, and the instances closed so far, in order.\<close>

record storages =
  rings :: "nat \<Rightarrow> io_uring"
  exited :: "io_uring list"

definition storage_default :: "nat \<Rightarrow> storages \<Rightarrow> storages" where
  "storage_default i w = w\<lparr>rings := (rings w)(i := default_uring)\<rparr>"

definition storage_move_construct :: "nat \<Rightarrow> nat \<Rightarrow> storages \<Rightarrow> storages" where
  "storage_move_construct i j w =
     w\<lparr>rings := (rings w)(j := default_uring, i := rings w j)\<rparr>"

definition storage_move_assign :: "nat \<Rightarrow> nat \<Rightarrow> storages \<Rightarrow> storages" where
  "storage_move_assign i j w =
     (if i \<noteq> j \<and> ring_fd (rings w i) \<noteq> invalid_handle
      then w\<lparr>exited := exited w @ [rings w i],
             rings := (rings w)(j := default_uring, i := rings w j)\<rparr>
      else w)"

definition storage_destroy :: "nat \<Rightarrow> storages \<Rightarrow> storages" where
  "storage_destroy i w =
     (if ring_fd (rings w i) \<noteq> invalid_handle
      then w\<lparr>exited := exited w @ [rings w i], rings := (rings w)(i := default_uring)\<rparr>
      else w)"

section \<open>Creation\<close>

text \<open>The destructor of a storage that is not one of the numbered objects.\<close>

definition close_ring :: "io_uring \<Rightarrow> io_uring list \<Rightarrow> io_uring list" where
  "close_ring u ex = (if ring_fd u \<noteq> invalid_handle then ex @ [u] else ex)"

text \<open>
  \<open>uring_context_storage::create\<close>: the result and the instances closed. On success the local storage
  has been moved from, on failure it is destroyed as \<open>io_uring_queue_init_params\<close> left it.
\<close>

definition storage_create ::
  "bool \<Rightarrow> c_int \<times> io_uring \<Rightarrow> io_uring list \<Rightarrow> (io_uring result \<times> io_uring list) cxx" where
  "storage_create debug init ex =
     (case init of (err, u) \<Rightarrow>
        if err <s 0
        then cxx_bind (from_error debug True (- err)) (\<lambda>r. Inr (r, close_ring u ex))
        else Inr (from_value u, close_ring default_uring ex))"

text \<open>
  \<open>unsynchronized_uring_context::create\<close>; the context is represented by its instance. At the end the
  intermediate result is destroyed, whose storage is empty when its value was moved out.
\<close>

definition context_create ::
  "bool \<Rightarrow> c_int \<times> io_uring \<Rightarrow> io_uring list \<Rightarrow> (io_uring result \<times> io_uring list) cxx" where
  "context_create debug init ex =
     cxx_bind (storage_create debug init ex) (\<lambda>(storage, ex).
     if has_error storage
     then cxx_bind (from_error debug False (error storage)) (\<lambda>r.
          Inr (r, case result_destroy storage of None \<Rightarrow> ex | Some u \<Rightarrow> close_ring u ex))
     else cxx_bind (result_value debug storage) (\<lambda>u.
          Inr (from_value u,
            case result_destroy (storage\<lparr>res_second := Some default_uring\<rparr>) of
              None \<Rightarrow> ex | Some u' \<Rightarrow> close_ring u' ex)))"

section \<open>Programs over storages\<close>

datatype storage_command =
    St_move_construct nat nat
  | St_move_assign nat nat
  | St_destroy nat

fun storage_op :: "storage_command \<Rightarrow> storages \<Rightarrow> storages" where
  "storage_op (St_move_construct i j) w = storage_move_construct i j w"
| "storage_op (St_move_assign i j) w = storage_move_assign i j w"
| "storage_op (St_destroy i) w = storage_destroy i w"

text \<open>An object is constructed where none with an instance lives, and not from itself.\<close>

fun storage_allowed :: "nat \<Rightarrow> storages \<Rightarrow> storage_command \<Rightarrow> bool" where
  "storage_allowed n w (St_move_construct i j) =
     (i < n \<and> j < n \<and> i \<noteq> j \<and> ring_fd (rings w i) = invalid_handle)"
| "storage_allowed n w (St_move_assign i j) = (i < n \<and> j < n)"
| "storage_allowed n w (St_destroy i) = (i < n)"

fun storage_run :: "nat \<Rightarrow> storage_command list \<Rightarrow> storages \<Rightarrow> storages option" where
  "storage_run n [] w = Some w"
| "storage_run n (a # as) w = (if storage_allowed n w a then storage_run n as (storage_op a w) else None)"

definition valid :: "io_uring \<Rightarrow> bool" where
  "valid u \<longleftrightarrow> ring_fd u \<noteq> invalid_handle"

definition owned :: "nat \<Rightarrow> storages \<Rightarrow> io_uring multiset" where
  "owned n w = filter_mset valid (mset (map (rings w) [0..<n]))"

lemma valid_default [simp]: "\<not> valid default_uring"
  by (simp add: valid_def default_uring_def)

definition held :: "io_uring \<Rightarrow> io_uring multiset" where
  "held u = (if valid u then {#u#} else {#})"

lemma held_default [simp]: "held default_uring = {#}"
  by (simp add: held_def)

lemma owned_sum: "owned n w = (\<Sum>k<n. held (rings w k))"
  by (induction n) (simp_all add: owned_def held_def)

lemma owned_split: "i < n \<Longrightarrow> owned n w = held (rings w i) + (\<Sum>k \<in> {..<n} - {i}. held (rings w k))"
  by (simp add: owned_sum sum.remove)

lemma owned_update:
  assumes "i < n"
  shows "owned n (w\<lparr>rings := (rings w)(i := u)\<rparr>) + held (rings w i) = owned n w + held u"
proof -
  have "(\<Sum>k \<in> {..<n} - {i}. held (((rings w)(i := u)) k)) = (\<Sum>k \<in> {..<n} - {i}. held (rings w k))"
    by (intro sum.cong) auto
  then show ?thesis
    using assms by (simp add: owned_split [of i n])
qed

lemma owned_exited [simp]: "owned n (w\<lparr>exited := ex, rings := r\<rparr>) = owned n (w\<lparr>rings := r\<rparr>)"
  by (simp add: owned_def)

text \<open>Moving an instance into an object that owns none changes no ownership.\<close>

lemma owned_exchange:
  assumes "i < n" and "j < n" and "i \<noteq> j"
  shows "owned n (w\<lparr>rings := (rings w)(j := default_uring, i := rings w j)\<rparr>) + held (rings w i) = owned n w"
proof -
  let ?w = "w\<lparr>rings := (rings w)(j := default_uring)\<rparr>"
  have "owned n (?w\<lparr>rings := (rings ?w)(i := rings w j)\<rparr>) + held (rings w i) = owned n ?w + held (rings w j)"
    using owned_update [OF assms(1), of ?w "rings w j"] assms(3) by simp
  also have "\<dots> = owned n w"
    using owned_update [OF assms(2), of w default_uring] by simp
  finally show ?thesis by simp
qed

lemma storage_op_conserves:
  assumes "storage_allowed n w a"
  shows "mset (exited (storage_op a w)) + owned n (storage_op a w) = mset (exited w) + owned n w"
proof (cases a)
  case (St_move_construct i j)
  then show ?thesis
    using assms owned_exchange [of i n j w]
    by (simp add: storage_move_construct_def held_def valid_def)
next
  case (St_move_assign i j)
  then show ?thesis
    using assms owned_exchange [of i n j w]
    by (auto simp: storage_move_assign_def held_def valid_def)
next
  case (St_destroy i)
  then show ?thesis
    using assms owned_update [of i n w default_uring]
    by (auto simp: storage_destroy_def held_def valid_def default_uring_def)
qed

lemma storage_assign_to_empty:
  "ring_fd (rings w i) = invalid_handle \<Longrightarrow> storage_move_assign i j w = w"
  by (simp add: storage_move_assign_def)

section \<open>Properties\<close>

text \<open>
  C21: No move or destruction closes an io_uring instance twice or loses one: over any program of move
  constructions, move assignments and destructions of \<open>n\<close> storage objects, the instances closed
  together with those still owned are always the same multiset. So once no object owns an instance,
  each has been closed exactly once.
\<close>

theorem storage_conserves_rings:
  assumes "storage_run n ops w = Some w'"
  shows "mset (exited w') + owned n w' = mset (exited w) + owned n w"
  using assms
  by (induction ops arbitrary: w) (auto simp: storage_op_conserves split: if_splits)

definition two_rings :: storages where
  "two_rings = \<lparr>rings = (\<lambda>k. if k < 2 then default_uring\<lparr>ring_fd := word_of_nat (k + 5)\<rparr> else default_uring),
     exited = []\<rparr>"

theorem storage_conserves_rings_witness:
  "let w = storage_destroy 2 (storage_destroy 0 (storage_move_construct 2 0 (storage_move_assign 0 1 two_rings)))
   in mset (exited w) + owned 3 w = mset (exited two_rings) + owned 3 two_rings"
  using storage_conserves_rings [of 3 "[St_move_assign 0 1, St_move_construct 2 0, St_destroy 0, St_destroy 2]"
      two_rings "storage_destroy 2 (storage_destroy 0 (storage_move_construct 2 0
        (storage_move_assign 0 1 two_rings)))"]
  by (simp add: Let_def storage_move_assign_def two_rings_def default_uring_def invalid_handle_def)

text \<open>
  \<open>create\<close> never produces a context. When the kernel sets an instance up, the inverted
  \<open>has_error()\<close> sends the code into its error branch: a debug build fails an assertion, a release
  build returns error code 0 and neither closes nor returns the instance. When the kernel refuses, the
  code reads the value that was never constructed.
\<close>

lemma create_never_succeeds:
  "context_create debug (err, u) ex =
    (if err <s 0 then Inl Undefined
     else if debug then Inl Assert_failed
     else Inr (\<lparr>res_first = 0, res_second = None\<rparr>, ex))"
proof (cases "err <s 0")
  case True
  then have "- err \<noteq> 0" by auto
  with True show ?thesis
    by (simp add: context_create_def storage_create_def from_error_def has_error_def
        result_value_def has_value_def read_member_def)
next
  case False
  then show ?thesis
    by (simp add: context_create_def storage_create_def from_value_def has_error_def error_def
        from_error_def result_destroy_def has_value_def close_ring_def default_uring_def cxx_assert_def)
qed

end
