(* ===== verification/Uring_Ops.thy ===== *)
theory Uring_Ops
  imports Clamp
begin

text \<open>
  \<open>include/tcx/services/uring_service.hpp\<close>, \<open>uring_context_base\<close>: the asynchronous operations. Each
  fills a submission entry with one \<open>io_uring_prep_*\<close> call of liburing and hands it with the
  callback to \<open>submit\<close> of the derived class.

  liburing is not part of the repository: an entry is the preparation call with its arguments
  (\<open>sqe\<close>). The derived class is a record of what the operations use of it. An integer argument is
  the mathematical value of the C++ integer; conversions are written with \<open>int_cast\<close>.
  \<open>async_epoll_ctl\<close> has no model: it passes the address of its \<open>int\<close> parameter where \<open>submit\<close> takes an
  entry, so it cannot be instantiated.
\<close>

section \<open>Submission entries\<close>

type_synonym addr = nat

datatype sqe =
    Prep_nop
  | Prep_readv2 int addr int int int
  | Prep_writev2 int addr int int int
  | Prep_fsync int int
  | Prep_poll_add int int
  | Prep_poll_multishot int int
  | Prep_poll_remove int
  | Prep_sync_file_range int int int int
  | Prep_sendmsg int addr int
  | Prep_recvmsg int addr int
  | Prep_send int addr int int
  | Prep_recv int addr int int
  | Prep_timeout addr int int
  | Prep_timeout_remove int int
  | Prep_timeout_update addr int int
  | Prep_accept int addr addr int
  | Prep_cancel64 int int
  | Prep_cancel_fd int int
  | Prep_link_timeout addr int
  | Prep_connect int addr int
  | Prep_fallocate int int int int
  | Prep_fadvise int int int int
  | Prep_madvise addr int int
  | Prep_openat int string int int
  | Prep_openat2 int string addr "int option"  \<comment> \<open>with \<open>op.len\<close> when it is set after the call\<close>
  | Prep_close int
  | Prep_statx int string int int addr
  | Prep_read int addr int int
  | Prep_write int addr int int
  | Prep_splice int int int int int int
  | Prep_tee int int int int
  | Prep_provide_buffers addr int int int int
  | Prep_remove_buffers int int
  | Prep_shutdown int int
  | Prep_renameat int string int string int
  | Prep_unlinkat int string int

fun set_len :: "int \<Rightarrow> sqe \<Rightarrow> sqe" where
  "set_len n (Prep_openat2 d p h _) = Prep_openat2 d p h (Some n)"
| "set_len n q = q"

text \<open>
  What the operations use of the derived class and of the system headers: \<open>submit\<close>, the answer of
  \<open>has_feature(IORING_FEAT_RW_CUR_POS)\<close>, \<open>AT_FDCWD\<close> and \<open>IORING_TIMEOUT_ABS\<close>.
\<close>

record ('s, 'f, 'r) super =
  submit :: "sqe \<Rightarrow> 'f \<Rightarrow> 's \<Rightarrow> ('r \<times> 's) run"
  has_rw_cur_pos :: bool
  at_fdcwd :: int
  timeout_abs :: int

type_synonym ('s, 'r) action = "'s \<Rightarrow> ('r \<times> 's) run"

definition uint64_t :: int_type where
  "uint64_t = \<lparr>is_signed = False, bits = 64\<rparr>"

definition off_t :: int_type where
  "off_t = \<lparr>is_signed = True, bits = 64\<rparr>"

definition uint32_max :: int where
  "uint32_max = 2 ^ 32 - 1"

section \<open>The operations\<close>

definition async_noop :: "('s, 'f, 'r) super \<Rightarrow> 'f \<Rightarrow> ('s, 'r) action" where
  "async_noop super f = submit super Prep_nop f"

text \<open>\<open>post\<close> wraps its argument in a callback that ignores the completion entry: \<open>wrap\<close>.\<close>

definition post_noop :: "('s, 'f, 'r) super \<Rightarrow> ('g \<Rightarrow> 'f) \<Rightarrow> 'g \<Rightarrow> ('s, 'r) action" where
  "post_noop super wrap f = async_noop super (wrap f)"

text \<open>
  The two assertions on the offset of a read or write. In the second,
  \<open>offset == -1 + !has_feature(..) == 2\<close> is \<open>(offset == (-1 + !has_feature(..))) == 2\<close>.
\<close>

definition assert_offset :: "bool \<Rightarrow> ('s, 'f, 'r) super \<Rightarrow> int \<Rightarrow> unit cxx" where
  "assert_offset debug super offset =
     cxx_bind (cxx_assert debug (- 1 \<le> offset)) (\<lambda>_.
     cxx_assert debug
       ((if offset = - 1 + (if \<not> has_rw_cur_pos super then 1 else 0) then 1 else 0) = (2 :: int)))"

definition async_readv ::
  "bool \<Rightarrow> ('s, 'f, 'r) super \<Rightarrow> int \<Rightarrow> addr \<Rightarrow> int \<Rightarrow> int \<Rightarrow> int \<Rightarrow> 'f \<Rightarrow> ('s, 'r) action" where
  "async_readv debug super fd iov iov_len offset flags f s =
     cxx_then (assert_offset debug super offset) (\<lambda>_.
     cxx_then (clamp unsigned_t size_t iov_len) (\<lambda>n.
     submit super (Prep_readv2 fd iov n (int_cast uint64_t offset) flags) f s))"

definition async_writev ::
  "bool \<Rightarrow> ('s, 'f, 'r) super \<Rightarrow> int \<Rightarrow> addr \<Rightarrow> int \<Rightarrow> int \<Rightarrow> int \<Rightarrow> 'f \<Rightarrow> ('s, 'r) action" where
  "async_writev debug super fd iov iov_len offset flags f s =
     cxx_then (assert_offset debug super offset) (\<lambda>_.
     cxx_then (clamp unsigned_t size_t iov_len) (\<lambda>n.
     submit super (Prep_writev2 fd iov n (int_cast uint64_t offset) flags) f s))"

definition async_fsync :: "('s, 'f, 'r) super \<Rightarrow> int \<Rightarrow> int \<Rightarrow> 'f \<Rightarrow> ('s, 'r) action" where
  "async_fsync super fd flags f = submit super (Prep_fsync fd flags) f"

definition async_poll_add :: "('s, 'f, 'r) super \<Rightarrow> int \<Rightarrow> int \<Rightarrow> 'f \<Rightarrow> ('s, 'r) action" where
  "async_poll_add super fd events f = submit super (Prep_poll_add fd events) f"

definition async_poll_multishot :: "('s, 'f, 'r) super \<Rightarrow> int \<Rightarrow> int \<Rightarrow> 'f \<Rightarrow> ('s, 'r) action" where
  "async_poll_multishot super fd events f = submit super (Prep_poll_multishot fd events) f"

definition async_poll_remove :: "('s, 'f, 'r) super \<Rightarrow> int \<Rightarrow> 'f \<Rightarrow> ('s, 'r) action" where
  "async_poll_remove super operation f = submit super (Prep_poll_remove operation) f"

definition async_sync_file_range ::
  "bool \<Rightarrow> ('s, 'f, 'r) super \<Rightarrow> int \<Rightarrow> int \<Rightarrow> int \<Rightarrow> int \<Rightarrow> 'f \<Rightarrow> ('s, 'r) action" where
  "async_sync_file_range debug super fd offset nbytes flags f s =
     cxx_then (cxx_assert debug (nbytes \<le> uint32_max)) (\<lambda>_.
     submit super (Prep_sync_file_range fd (int_cast unsigned_t nbytes) offset flags) f s)"

definition async_sendmsg :: "('s, 'f, 'r) super \<Rightarrow> int \<Rightarrow> addr \<Rightarrow> int \<Rightarrow> 'f \<Rightarrow> ('s, 'r) action" where
  "async_sendmsg super fd msg flags f = submit super (Prep_sendmsg fd msg flags) f"

definition async_recvmsg :: "('s, 'f, 'r) super \<Rightarrow> int \<Rightarrow> addr \<Rightarrow> int \<Rightarrow> 'f \<Rightarrow> ('s, 'r) action" where
  "async_recvmsg super fd msg flags f = submit super (Prep_recvmsg fd msg flags) f"

definition async_send :: "('s, 'f, 'r) super \<Rightarrow> int \<Rightarrow> addr \<Rightarrow> int \<Rightarrow> int \<Rightarrow> 'f \<Rightarrow> ('s, 'r) action" where
  "async_send super fd buf buf_len flags f = submit super (Prep_send fd buf buf_len flags) f"

definition async_recv :: "('s, 'f, 'r) super \<Rightarrow> int \<Rightarrow> addr \<Rightarrow> int \<Rightarrow> int \<Rightarrow> 'f \<Rightarrow> ('s, 'r) action" where
  "async_recv super fd buf buf_len flags f = submit super (Prep_recv fd buf buf_len flags) f"

definition async_timeout :: "('s, 'f, 'r) super \<Rightarrow> addr \<Rightarrow> int \<Rightarrow> int \<Rightarrow> 'f \<Rightarrow> ('s, 'r) action" where
  "async_timeout super timeout n flags f = submit super (Prep_timeout timeout n flags) f"

definition async_timeout_remove :: "('s, 'f, 'r) super \<Rightarrow> int \<Rightarrow> int \<Rightarrow> 'f \<Rightarrow> ('s, 'r) action" where
  "async_timeout_remove super timer_id flags f = submit super (Prep_timeout_remove timer_id flags) f"

definition async_timeout_update ::
  "('s, 'f, 'r) super \<Rightarrow> int \<Rightarrow> addr \<Rightarrow> bool \<Rightarrow> 'f \<Rightarrow> ('s, 'r) action" where
  "async_timeout_update super timer_id timeout absolute f =
     submit super (Prep_timeout_update timeout timer_id (timeout_abs super * of_bool absolute)) f"

definition async_accept :: "('s, 'f, 'r) super \<Rightarrow> int \<Rightarrow> addr \<Rightarrow> addr \<Rightarrow> int \<Rightarrow> 'f \<Rightarrow> ('s, 'r) action" where
  "async_accept super fd a a_len flags f = submit super (Prep_accept fd a a_len flags) f"

definition async_cancel :: "('s, 'f, 'r) super \<Rightarrow> int \<Rightarrow> int \<Rightarrow> 'f \<Rightarrow> ('s, 'r) action" where
  "async_cancel super operation flags f =
     submit super (Prep_cancel64 operation (int_cast int_t flags)) f"

definition async_cancel_fd :: "('s, 'f, 'r) super \<Rightarrow> int \<Rightarrow> int \<Rightarrow> 'f \<Rightarrow> ('s, 'r) action" where
  "async_cancel_fd super fd flags f = submit super (Prep_cancel_fd fd flags) f"

definition async_link_timeout :: "('s, 'f, 'r) super \<Rightarrow> addr \<Rightarrow> bool \<Rightarrow> 'f \<Rightarrow> ('s, 'r) action" where
  "async_link_timeout super timeout absolute f =
     submit super (Prep_link_timeout timeout (timeout_abs super * of_bool absolute)) f"

definition async_connect :: "('s, 'f, 'r) super \<Rightarrow> int \<Rightarrow> addr \<Rightarrow> int \<Rightarrow> 'f \<Rightarrow> ('s, 'r) action" where
  "async_connect super fd a a_len f = submit super (Prep_connect fd a a_len) f"

definition async_fallocate :: "('s, 'f, 'r) super \<Rightarrow> int \<Rightarrow> int \<Rightarrow> int \<Rightarrow> int \<Rightarrow> 'f \<Rightarrow> ('s, 'r) action" where
  "async_fallocate super fd mode offset len f = submit super (Prep_fallocate fd mode offset len) f"

definition async_fadvice :: "('s, 'f, 'r) super \<Rightarrow> int \<Rightarrow> int \<Rightarrow> int \<Rightarrow> int \<Rightarrow> 'f \<Rightarrow> ('s, 'r) action" where
  "async_fadvice super fd offset len advice f = submit super (Prep_fadvise fd offset len advice) f"

definition async_madvice :: "('s, 'f, 'r) super \<Rightarrow> addr \<Rightarrow> int \<Rightarrow> int \<Rightarrow> 'f \<Rightarrow> ('s, 'r) action" where
  "async_madvice super a len advice f = submit super (Prep_madvise a (int_cast off_t len) advice) f"

definition async_openat ::
  "('s, 'f, 'r) super \<Rightarrow> int \<Rightarrow> string \<Rightarrow> int \<Rightarrow> int \<Rightarrow> 'f \<Rightarrow> ('s, 'r) action" where
  "async_openat super dir_fd pathname flags mode f =
     submit super (Prep_openat dir_fd pathname flags mode) f"

definition async_open :: "('s, 'f, 'r) super \<Rightarrow> string \<Rightarrow> int \<Rightarrow> int \<Rightarrow> 'f \<Rightarrow> ('s, 'r) action" where
  "async_open super pathname flags mode f = async_openat super (at_fdcwd super) pathname flags mode f"

definition async_openat2 ::
  "bool \<Rightarrow> ('s, 'f, 'r) super \<Rightarrow> int \<Rightarrow> string \<Rightarrow> addr \<Rightarrow> int \<Rightarrow> 'f \<Rightarrow> ('s, 'r) action" where
  "async_openat2 debug super dir_fd pathname how sz f s =
     cxx_then (cxx_assert debug (sz \<le> uint32_max)) (\<lambda>_.
     submit super (set_len (int_cast unsigned_t sz) (Prep_openat2 dir_fd pathname how None)) f s)"

definition async_close :: "('s, 'f, 'r) super \<Rightarrow> int \<Rightarrow> 'f \<Rightarrow> ('s, 'r) action" where
  "async_close super fd f = submit super (Prep_close fd) f"

definition async_statx ::
  "('s, 'f, 'r) super \<Rightarrow> int \<Rightarrow> string \<Rightarrow> int \<Rightarrow> int \<Rightarrow> addr \<Rightarrow> 'f \<Rightarrow> ('s, 'r) action" where
  "async_statx super dir_fd pathname flags msk statxbuf f =
     submit super (Prep_statx dir_fd pathname flags msk statxbuf) f"

definition async_read ::
  "bool \<Rightarrow> ('s, 'f, 'r) super \<Rightarrow> int \<Rightarrow> addr \<Rightarrow> int \<Rightarrow> int \<Rightarrow> 'f \<Rightarrow> ('s, 'r) action" where
  "async_read debug super fd buf buf_len offset f s =
     cxx_then (assert_offset debug super offset) (\<lambda>_.
     cxx_then (clamp unsigned_t size_t buf_len) (\<lambda>n.
     submit super (Prep_read fd buf n (int_cast uint64_t offset)) f s))"

definition async_write ::
  "bool \<Rightarrow> ('s, 'f, 'r) super \<Rightarrow> int \<Rightarrow> addr \<Rightarrow> int \<Rightarrow> int \<Rightarrow> 'f \<Rightarrow> ('s, 'r) action" where
  "async_write debug super fd buf buf_len offset f s =
     cxx_then (assert_offset debug super offset) (\<lambda>_.
     cxx_then (clamp unsigned_t size_t buf_len) (\<lambda>n.
     submit super (Prep_write fd buf n (int_cast uint64_t offset)) f s))"

definition async_splice ::
  "('s, 'f, 'r) super \<Rightarrow> int \<Rightarrow> int \<Rightarrow> int \<Rightarrow> int \<Rightarrow> int \<Rightarrow> int \<Rightarrow> 'f \<Rightarrow> ('s, 'r) action" where
  "async_splice super fd_in off_in fd_out off_out len flags f s =
     cxx_then (clamp unsigned_t size_t len) (\<lambda>n.
     submit super (Prep_splice fd_in off_in fd_out off_out n flags) f s)"

definition async_tee :: "('s, 'f, 'r) super \<Rightarrow> int \<Rightarrow> int \<Rightarrow> int \<Rightarrow> int \<Rightarrow> 'f \<Rightarrow> ('s, 'r) action" where
  "async_tee super fd_in fd_out len flags f s =
     cxx_then (clamp unsigned_t size_t len) (\<lambda>n. submit super (Prep_tee fd_in fd_out n flags) f s)"

definition async_provide_buffers ::
  "('s, 'f, 'r) super \<Rightarrow> addr \<Rightarrow> int \<Rightarrow> int \<Rightarrow> int \<Rightarrow> int \<Rightarrow> 'f \<Rightarrow> ('s, 'r) action" where
  "async_provide_buffers super a buff_lens buff_count buff_group start_id f =
     submit super (Prep_provide_buffers a buff_lens buff_count buff_group start_id) f"

definition async_remove_buffers :: "('s, 'f, 'r) super \<Rightarrow> int \<Rightarrow> int \<Rightarrow> 'f \<Rightarrow> ('s, 'r) action" where
  "async_remove_buffers super buff_count buff_group f =
     submit super (Prep_remove_buffers buff_count buff_group) f"

definition async_shutdown :: "('s, 'f, 'r) super \<Rightarrow> int \<Rightarrow> int \<Rightarrow> 'f \<Rightarrow> ('s, 'r) action" where
  "async_shutdown super fd how f = submit super (Prep_shutdown fd how) f"

definition async_renameat ::
  "('s, 'f, 'r) super \<Rightarrow> int \<Rightarrow> string \<Rightarrow> int \<Rightarrow> string \<Rightarrow> int \<Rightarrow> 'f \<Rightarrow> ('s, 'r) action" where
  "async_renameat super old_fd old_path new_fd new_path flags f =
     submit super (Prep_renameat old_fd old_path new_fd new_path flags) f"

definition async_rename :: "('s, 'f, 'r) super \<Rightarrow> string \<Rightarrow> string \<Rightarrow> 'f \<Rightarrow> ('s, 'r) action" where
  "async_rename super old_path new_path f =
     async_renameat super (at_fdcwd super) old_path (at_fdcwd super) new_path 0 f"

definition async_unlinkat :: "('s, 'f, 'r) super \<Rightarrow> int \<Rightarrow> string \<Rightarrow> int \<Rightarrow> 'f \<Rightarrow> ('s, 'r) action" where
  "async_unlinkat super dir_fd pathname flags f = submit super (Prep_unlinkat dir_fd pathname flags) f"

definition async_unlink :: "('s, 'f, 'r) super \<Rightarrow> string \<Rightarrow> 'f \<Rightarrow> ('s, 'r) action" where
  "async_unlink super pathname f = async_unlinkat super (at_fdcwd super) pathname 0 f"

section \<open>All operations together\<close>

text \<open>A call of an operation, as data, and the operation it is.\<close>

datatype request =
    Noop
  | Readv int addr int int int
  | Writev int addr int int int
  | Fsync int int
  | Poll_add int int
  | Poll_multishot int int
  | Poll_remove int
  | Sync_file_range int int int int
  | Sendmsg int addr int
  | Recvmsg int addr int
  | Send int addr int int
  | Recv int addr int int
  | Timeout addr int int
  | Timeout_remove int int
  | Timeout_update int addr bool
  | Accept int addr addr int
  | Cancel int int
  | Cancel_fd int int
  | Link_timeout addr bool
  | Connect int addr int
  | Fallocate int int int int
  | Fadvice int int int int
  | Madvice addr int int
  | Openat int string int int
  | Open string int int
  | Openat2 int string addr int
  | Close int
  | Statx int string int int addr
  | Read int addr int int
  | Write int addr int int
  | Splice int int int int int int
  | Tee int int int int
  | Provide_buffers addr int int int int
  | Remove_buffers int int
  | Shutdown int int
  | Renameat int string int string int
  | Rename string string
  | Unlinkat int string int
  | Unlink string

fun issue :: "bool \<Rightarrow> ('s, 'f, 'r) super \<Rightarrow> request \<Rightarrow> 'f \<Rightarrow> ('s, 'r) action" where
  "issue debug c Noop = async_noop c"
| "issue debug c (Readv fd iov n off fl) = async_readv debug c fd iov n off fl"
| "issue debug c (Writev fd iov n off fl) = async_writev debug c fd iov n off fl"
| "issue debug c (Fsync fd fl) = async_fsync c fd fl"
| "issue debug c (Poll_add fd ev) = async_poll_add c fd ev"
| "issue debug c (Poll_multishot fd ev) = async_poll_multishot c fd ev"
| "issue debug c (Poll_remove oper) = async_poll_remove c oper"
| "issue debug c (Sync_file_range fd off n fl) = async_sync_file_range debug c fd off n fl"
| "issue debug c (Sendmsg fd msg fl) = async_sendmsg c fd msg fl"
| "issue debug c (Recvmsg fd msg fl) = async_recvmsg c fd msg fl"
| "issue debug c (Send fd buf n fl) = async_send c fd buf n fl"
| "issue debug c (Recv fd buf n fl) = async_recv c fd buf n fl"
| "issue debug c (Timeout t n fl) = async_timeout c t n fl"
| "issue debug c (Timeout_remove i fl) = async_timeout_remove c i fl"
| "issue debug c (Timeout_update i t ab) = async_timeout_update c i t ab"
| "issue debug c (Accept fd a l fl) = async_accept c fd a l fl"
| "issue debug c (Cancel oper fl) = async_cancel c oper fl"
| "issue debug c (Cancel_fd fd fl) = async_cancel_fd c fd fl"
| "issue debug c (Link_timeout t ab) = async_link_timeout c t ab"
| "issue debug c (Connect fd a l) = async_connect c fd a l"
| "issue debug c (Fallocate fd mode off n) = async_fallocate c fd mode off n"
| "issue debug c (Fadvice fd off n adv) = async_fadvice c fd off n adv"
| "issue debug c (Madvice a n adv) = async_madvice c a n adv"
| "issue debug c (Openat d p fl mode) = async_openat c d p fl mode"
| "issue debug c (Open p fl mode) = async_open c p fl mode"
| "issue debug c (Openat2 d p how n) = async_openat2 debug c d p how n"
| "issue debug c (Close fd) = async_close c fd"
| "issue debug c (Statx d p fl msk buf) = async_statx c d p fl msk buf"
| "issue debug c (Read fd buf n off) = async_read debug c fd buf n off"
| "issue debug c (Write fd buf n off) = async_write debug c fd buf n off"
| "issue debug c (Splice i io ou oo n fl) = async_splice c i io ou oo n fl"
| "issue debug c (Tee i ou n fl) = async_tee c i ou n fl"
| "issue debug c (Provide_buffers a l n g i) = async_provide_buffers c a l n g i"
| "issue debug c (Remove_buffers n g) = async_remove_buffers c n g"
| "issue debug c (Shutdown fd how) = async_shutdown c fd how"
| "issue debug c (Renameat d p e q fl) = async_renameat c d p e q fl"
| "issue debug c (Rename p q) = async_rename c p q"
| "issue debug c (Unlinkat d p fl) = async_unlinkat c d p fl"
| "issue debug c (Unlink p) = async_unlink c p"

lemmas async_defs = async_noop_def async_readv_def async_writev_def async_fsync_def async_poll_add_def
  async_poll_multishot_def async_poll_remove_def async_sync_file_range_def async_sendmsg_def
  async_recvmsg_def async_send_def async_recv_def async_timeout_def async_timeout_remove_def
  async_timeout_update_def async_accept_def async_cancel_def async_cancel_fd_def
  async_link_timeout_def async_connect_def async_fallocate_def async_fadvice_def async_madvice_def
  async_openat_def async_open_def async_openat2_def async_close_def async_statx_def async_read_def
  async_write_def async_splice_def async_tee_def async_provide_buffers_def async_remove_buffers_def
  async_shutdown_def async_renameat_def async_rename_def async_unlinkat_def async_unlink_def

section \<open>Lemmas\<close>

lemma assert_offset_debug: "assert_offset True super offset = Inl Assert_failed"
  by (cases "- 1 \<le> offset") (simp_all add: assert_offset_def)

lemma assert_offset_release [simp]: "assert_offset False super offset = Inr ()"
  by (simp add: assert_offset_def)

lemma clamp_length_total: "\<exists>m. clamp unsigned_t size_t n = Inr m"
  by (simp add: clamp_def clamp_to_def std_clamp_def int_cast_def int_min_def int_max_def
      unsigned_t_def size_t_def)

lemma clamp_length_bind:
  "\<exists>m. cxx_then (clamp unsigned_t size_t n) k = k m"
  using clamp_length_total [of n] by auto

lemma uint64_offset:
  "- 1 \<le> x \<Longrightarrow> x < 2 ^ 63 \<Longrightarrow> int_cast uint64_t x = (if x = - 1 then 2 ^ 64 - 1 else x)"
  by (simp add: int_cast_def uint64_t_def int_min_def zmod_minus1)

text \<open>The calls that an assertion of a debug build rejects.\<close>

fun rejected :: "request \<Rightarrow> bool" where
  "rejected (Readv _ _ _ _ _) = True"
| "rejected (Writev _ _ _ _ _) = True"
| "rejected (Read _ _ _ _) = True"
| "rejected (Write _ _ _ _) = True"
| "rejected (Sync_file_range _ _ n _) = (uint32_max < n)"
| "rejected (Openat2 _ _ _ n) = (uint32_max < n)"
| "rejected _ = False"

lemma clamp_submit:
  "\<exists>q. cxx_then (clamp unsigned_t size_t n) (\<lambda>m. submit super (g m) f s) = submit super q f s"
  using clamp_length_total [of n] by auto

lemma issue_cases:
  "if debug \<and> rejected r then issue debug super r f s = Some (Inl Assert_failed)
   else \<exists>q. issue debug super r f s = submit super q f s"
  by (cases r; cases debug)
    (auto simp: async_defs assert_offset_debug clamp_submit cxx_assert_def)

section \<open>What the operations rely on\<close>

text \<open>
  The contract between \<open>uring_context_base\<close> and the class that derives from it: \<open>submit\<close> keeps an
  invariant of the state and its results satisfy \<open>good\<close>. Every operation then does the same.
\<close>

locale submitter =
  fixes sub :: "sqe \<Rightarrow> 'f \<Rightarrow> 's \<Rightarrow> ('r \<times> 's) run"
    and inv :: "'s \<Rightarrow> bool"
    and good :: "'r \<Rightarrow> bool"
  assumes sub_ok: "inv s \<Longrightarrow> sub q f s = Some (Inr (x, s')) \<Longrightarrow> inv s' \<and> good x"
begin

lemma issue_ok:
  assumes "inv s" and "submit super = sub" and "issue debug super r f s = Some (Inr (x, s'))"
  shows "inv s' \<and> good x"
proof -
  obtain q where "issue debug super r f s = submit super q f s"
    using issue_cases [of debug r super f s] assms(3) by (auto split: if_splits)
  then show ?thesis
    using sub_ok [OF assms(1), of q f x s'] assms(2,3) by simp
qed

end

section \<open>Properties\<close>

text \<open>
  Each of the 39 operations, called with any arguments, hands exactly one entry with the caller's
  own callback to \<open>submit\<close> and returns what \<open>submit\<close> returns, unless an assertion of a debug build
  stops it; and the assertions stop exactly the reads and writes and the oversized
  \<open>sync_file_range\<close> and \<open>openat2\<close>.
\<close>

lemma operation_submits_once:
  "if debug \<and> rejected r then issue debug super r f s = Some (Inl Assert_failed)
   else \<exists>q. issue debug super r f s = submit super q f s"
  by (rule issue_cases)

text \<open>
  In a debug build no read or write can be issued: whatever the descriptor, buffer, length,
  offset and features, the second assertion of \<open>async_readv\<close>, \<open>async_writev\<close>, \<open>async_read\<close> and
  \<open>async_write\<close> compares a truth value with 2 and fails.
\<close>

lemma read_write_assertion:
  "async_readv True super fd iov n offset flags f s = Some (Inl Assert_failed)
   \<and> async_writev True super fd iov n offset flags f s = Some (Inl Assert_failed)
   \<and> async_read True super fd buf n offset f s = Some (Inl Assert_failed)
   \<and> async_write True super fd buf n offset f s = Some (Inl Assert_failed)"
  by (simp add: async_defs assert_offset_debug)

text \<open>
  In a release build a read or write submits exactly one entry with the caller's descriptor,
  buffer and callback: a length above \<open>UINT_MAX\<close> is cut to \<open>UINT_MAX\<close> instead of wrapping around,
  the offset -1 becomes the all-ones 64-bit offset that asks for the file position, and every other
  offset is passed unchanged.
\<close>

lemma read_write_release:
  assumes "0 \<le> n" and "- 1 \<le> offset" and "offset < 2 ^ 63"
  shows "async_read False super fd buf n offset f s =
      submit super (Prep_read fd buf (min n (2 ^ 32 - 1)) (if offset = - 1 then 2 ^ 64 - 1 else offset)) f s
    \<and> async_write False super fd buf n offset f s =
      submit super (Prep_write fd buf (min n (2 ^ 32 - 1)) (if offset = - 1 then 2 ^ 64 - 1 else offset)) f s
    \<and> async_readv False super fd buf n offset flags f s =
      submit super (Prep_readv2 fd buf (min n (2 ^ 32 - 1))
        (if offset = - 1 then 2 ^ 64 - 1 else offset) flags) f s
    \<and> async_writev False super fd buf n offset flags f s =
      submit super (Prep_writev2 fd buf (min n (2 ^ 32 - 1))
        (if offset = - 1 then 2 ^ 64 - 1 else offset) flags) f s"
  using clamp_length [OF assms(1)] uint64_offset [OF assms(2,3)] by (simp add: async_defs)

lemma read_write_release_witness:
  "async_read False \<lparr>submit = \<lambda>q f s. Some (Inr (q, s)), has_rw_cur_pos = True, at_fdcwd = - 100,
      timeout_abs = 1\<rparr> 3 0 (2 ^ 32 + 5) (- 1) (7 :: nat) ()
    = Some (Inr (Prep_read 3 0 (2 ^ 32 - 1) (2 ^ 64 - 1), ()))"
  using read_write_release [of "2 ^ 32 + 5" "- 1" "\<lparr>submit = \<lambda>q f s. Some (Inr (q, s)),
      has_rw_cur_pos = True, at_fdcwd = - 100, timeout_abs = 1\<rparr>" 3 0 "7 :: nat" "()" 0] by simp

end
