(* ===== verification/Uring_Context.thy ===== *)
theory Uring_Context
  imports Uring_Ops Uring_Storage
begin

text \<open>
  \<open>include/tcx/services/uring_service.hpp\<close>: \<open>uring_context_allocating_base\<close> (\<open>submit\<close>,
  \<open>complete\<close>) and the two contexts. liburing is not part of the repository: the functions of it that
  the contexts call are the fields of a record, over a ring state \<open>'u\<close> of its own. A call that never
  returns is \<open>None\<close>.

  A completion object is an address and a callback. Addresses are handed out once, so a freed
  completion is recognised. Each call of the synchronised context is one step here; \<open>Uring_Threads\<close> takes
  it apart at the mutexes and justifies that.
\<close>

section \<open>liburing\<close>

text \<open>An entry carries its user data, the address of the completion object.\<close>

type_synonym entry = "sqe \<times> nat"

record cqe =
  user_data :: nat
  cqe_res :: c_int
  cqe_flags :: c_uint

text \<open>
  \<open>io_uring_get_sqe\<close> returns a slot or null, \<open>put_sqe\<close> stores through the slot, \<open>cqes\<close> is what
  \<open>io_uring_for_each_cqe\<close> visits; the \<open>int\<close> results are those of the calls.
\<close>

record 'u liburing =
  get_sqe :: "'u \<Rightarrow> (nat \<times> 'u) option"
  put_sqe :: "nat \<Rightarrow> entry \<Rightarrow> 'u \<Rightarrow> 'u"
  ring_submit :: "'u \<Rightarrow> c_int \<times> 'u"
  submit_and_wait :: "nat \<Rightarrow> 'u \<Rightarrow> c_int \<times> 'u"
  wait_cqe_nr :: "nat \<Rightarrow> 'u \<Rightarrow> c_int \<times> 'u"
  cqes :: "'u \<Rightarrow> cqe list"
  cq_advance :: "nat \<Rightarrow> 'u \<Rightarrow> 'u"

text \<open>\<open>EINTR\<close> and \<open>EBADR\<close> of Linux.\<close>

definition EINTR :: c_int where
  "EINTR = 4"

definition EBADR :: c_int where
  "EBADR = 53"

section \<open>submit and complete\<close>

record ('u, 'f) uring_context =
  ring :: 'u
  completions :: "nat \<Rightarrow> 'f option"
  next_completion :: nat
  m_pending :: nat

text \<open>\<open>pending\<close> of the two contexts; the counter of the synchronised one is atomic.\<close>

definition unsync_uring_pending :: "('u, 'f) uring_context \<Rightarrow> nat" where
  "unsync_uring_pending c = m_pending c"

definition sync_uring_pending :: "('u, 'f) uring_context \<Rightarrow> nat" where
  "sync_uring_pending c = m_pending c"

text \<open>\<open>submit\<close>: \<open>submit_one\<close> is the derived class's. \<open>operation_t\<close> is default constructible.\<close>

definition context_submit ::
  "bool \<Rightarrow> (entry \<Rightarrow> 'u \<Rightarrow> (void_result \<times> 'u) run) \<Rightarrow> sqe \<Rightarrow> 'f \<Rightarrow> ('u, 'f) uring_context \<Rightarrow>
   (nat result \<times> ('u, 'f) uring_context) run" where
  "context_submit debug submit_one operation callback c =
     (let completion = next_completion c;
          c1 = c\<lparr>completions := (completions c)(completion := Some callback),
                 next_completion := Suc completion\<rparr>
      in run_bind (submit_one (operation, completion) (ring c1)) (\<lambda>(r, u).
         if void_has_error r
         then cxx_then (from_error debug True (void_error r)) (\<lambda>x.
              Some (Inr (x, c1\<lparr>ring := u, completions := (completions c1)(completion := None)\<rparr>)))
         else Some (Inr (from_value completion, c1\<lparr>ring := u\<rparr>))))"

text \<open>
  \<open>complete\<close> and \<open>Completion::invoke\<close>: \<open>call\<close> is what a callback does with the context, which
  includes the exception it ends with and the callback's own next state. \<open>f_more\<close> is
  \<open>IORING_CQE_F_MORE\<close>. The result is the exception, if any, and the context. \<open>complete\<close> reads the user
  data, a pointer to the derived class, as one to its virtual base without the conversion between them;
  the model is what it does where the two pointers have the same value.
\<close>

definition context_complete ::
  "c_uint \<Rightarrow> ('f \<Rightarrow> cqe \<Rightarrow> ('u, 'f) uring_context \<Rightarrow> fault option \<times> 'f \<times> ('u, 'f) uring_context) \<Rightarrow> cqe \<Rightarrow>
   ('u, 'f) uring_context \<Rightarrow> (fault option \<times> ('u, 'f) uring_context) cxx" where
  "context_complete f_more call cqe c =
     (let completion = user_data cqe
      in case completions c completion of
           None \<Rightarrow> Inl Undefined
         | Some callback \<Rightarrow>
             (case call callback cqe c of
                (ex, callback', c') \<Rightarrow>
                  let c1 = c'\<lparr>completions := (completions c')(completion := Some callback')\<rparr>
                  in if cqe_flags cqe AND f_more \<noteq> 0 then Inr (ex, c1)
                     else (case ex of
                         None \<Rightarrow> Inr (None, c1)
                       | Some e \<Rightarrow>
                           Inr (Some e, c1\<lparr>completions := (completions c1)(completion := None)\<rparr>))))"

section \<open>unsynchronized_uring_context\<close>

partial_function (option) unsync_submit_one ::
  "'u liburing \<Rightarrow> entry \<Rightarrow> 'u \<Rightarrow> (void_result \<times> 'u) run" where
  "unsync_submit_one lu e u =
     (case get_sqe lu u of
        Some (slot, u') \<Rightarrow> Some (Inr (void_from_value, put_sqe lu slot e u'))
      | None \<Rightarrow>
          (case ring_submit lu u of (result, u') \<Rightarrow>
             if result = 0 then unsync_submit_one lu e u'
             else if result = EINTR then unsync_submit_one lu e u'
             else if result = EBADR then Some (Inl Abort_called)
             else Some (Inr (void_from_error (- result), u'))))"

text \<open>
  \<open>wait_many\<close> on a span of \<open>size\<close> buffers: the result, the entries copied (the span is cut to them),
  and the ring.
\<close>

definition unsync_wait_many ::
  "bool \<Rightarrow> 'u liburing \<Rightarrow> nat \<Rightarrow> nat \<Rightarrow> 'u \<Rightarrow> (nat result \<times> cqe list option \<times> 'u) cxx" where
  "unsync_wait_many debug lu sz wait_nr u =
     (case submit_and_wait lu wait_nr u of (err, u1) \<Rightarrow>
        if err \<noteq> 0 then cxx_bind (from_error debug True (- err)) (\<lambda>r. Inr (r, None, u1))
        else let got = List.take sz (cqes lu u1)
             in Inr (from_value (length got), Some got, cq_advance lu (length got) u1))"

section \<open>synchronized_uring_context\<close>

text \<open>\<open>submit_to_kernel\<close>: in \<open>case 0\<close> the \<open>break\<close> leaves the \<open>switch\<close>, not the loop.\<close>

partial_function (option) submit_to_kernel :: "'u liburing \<Rightarrow> 'u \<Rightarrow> (void_result \<times> 'u) run" where
  "submit_to_kernel lu u =
     (case ring_submit lu u of (err, u') \<Rightarrow>
        if err = 0 then submit_to_kernel lu u'
        else if err = EINTR then submit_to_kernel lu u'
        else if err = EBADR then Some (Inl Abort_called)
        else Some (Inr (void_from_error (- err), u')))"

text \<open>The inner loop of \<open>submit_many\<close>: the slot, or the result it returns with.\<close>

partial_function (option) sync_get_slot ::
  "'u liburing \<Rightarrow> 'u \<Rightarrow> ((nat + void_result) \<times> 'u) run" where
  "sync_get_slot lu u =
     (case get_sqe lu u of
        Some (slot, u') \<Rightarrow> Some (Inr (Inl slot, u'))
      | None \<Rightarrow>
          (case submit_to_kernel lu u of
             None \<Rightarrow> None
           | Some (Inl e) \<Rightarrow> Some (Inl e)
           | Some (Inr (r, u')) \<Rightarrow>
               if void_has_error r then Some (Inr (Inr r, u')) else sync_get_slot lu u'))"

fun sync_submit_many :: "'u liburing \<Rightarrow> entry list \<Rightarrow> 'u \<Rightarrow> (void_result \<times> 'u) run" where
  "sync_submit_many lu [] u = Some (Inr (void_from_value, u))"
| "sync_submit_many lu (e # es) u =
     run_bind (sync_get_slot lu u) (\<lambda>(x, u').
       case x of
         Inl slot \<Rightarrow> sync_submit_many lu es (put_sqe lu slot e u')
       | Inr r \<Rightarrow> Some (Inr (r, u')))"

definition sync_submit_one :: "'u liburing \<Rightarrow> entry \<Rightarrow> 'u \<Rightarrow> (void_result \<times> 'u) run" where
  "sync_submit_one lu e u = sync_submit_many lu [e] u"

definition sync_wait_many ::
  "'u liburing \<Rightarrow> nat \<Rightarrow> nat \<Rightarrow> 'u \<Rightarrow> (void_result \<times> cqe list option \<times> 'u) run" where
  "sync_wait_many lu sz wait_nr u =
     run_bind (submit_to_kernel lu u) (\<lambda>(r, u1).
       if void_has_error r then Some (Inr (r, None, u1))
       else (case wait_cqe_nr lu wait_nr u1 of (err, u2) \<Rightarrow>
         if err \<noteq> 0 then Some (Inr (void_from_error (- err), None, u2))
         else let got = List.take sz (cqes lu u2)
              in Some (Inr (void_from_value, Some got, cq_advance lu (length got) u2))))"

text \<open>
  \<open>wait_one\<close>: \<open>wait_many\<close> on a span of one buffer. It cannot be instantiated as written, since it binds
  a temporary span to a reference; the model is what it does apart from that.
\<close>

definition sync_wait_one :: "'u liburing \<Rightarrow> 'u \<Rightarrow> (void_result \<times> cqe list option \<times> 'u) run" where
  "sync_wait_one lu u = sync_wait_many lu 1 1 u"

section \<open>Lemmas\<close>

lemmas void_defs = void_has_value_def void_has_error_def void_from_value_def void_from_error_def
  void_error_def

lemma context_submit_ok:
  assumes "context_submit debug submit_one q f c = Some (Inr (x, c'))"
  obtains u where "submit_one (q, next_completion c) (ring c) = Some (Inr (0, u))"
      "x = \<lparr>res_first = 0, res_second = None\<rparr>"
      "c' = c\<lparr>completions := (completions c)(next_completion c := None),
             next_completion := Suc (next_completion c), ring := u\<rparr>"
  | r u where "submit_one (q, next_completion c) (ring c) = Some (Inr (r, u))" "r \<noteq> 0"
      "x = from_value (next_completion c)"
      "c' = c\<lparr>completions := (completions c)(next_completion c := Some f),
             next_completion := Suc (next_completion c), ring := u\<rparr>"
proof -
  obtain r u where r: "submit_one (q, next_completion c) (ring c) = Some (Inr (r, u))"
    using assms
    by (cases "submit_one (q, next_completion c) (ring c)" rule: option.exhaust [case_names None Some])
      (auto simp: context_submit_def Let_def run_bind_def cxx_then_def split: sum.splits)
  show ?thesis
    using assms r that by (cases "r = 0") (auto simp: context_submit_def Let_def void_defs from_error_def)
qed

lemma context_submit_accepted:
  "submit_one (q, next_completion c) (ring c) = Some (Inr (0, u)) \<Longrightarrow>
   context_submit debug submit_one q f c = Some (Inr (\<lparr>res_first = 0, res_second = None\<rparr>,
     c\<lparr>completions := (completions c)(next_completion c := None),
       next_completion := Suc (next_completion c), ring := u\<rparr>))"
  by (simp add: context_submit_def Let_def void_defs from_error_def)

text \<open>Rings reached by submitting again and again.\<close>

definition after_submits :: "'u liburing \<Rightarrow> nat \<Rightarrow> 'u \<Rightarrow> 'u" where
  "after_submits lu n u = ((\<lambda>u. snd (ring_submit lu u)) ^^ n) u"

lemma after_submits_0 [simp]: "after_submits lu 0 u = u"
  by (simp add: after_submits_def)

lemma after_submits_Suc: "after_submits lu (Suc n) u = after_submits lu n (snd (ring_submit lu u))"
  by (simp add: after_submits_def funpow_Suc_right del: funpow.simps)

definition retried :: "c_int \<Rightarrow> bool" where
  "retried n \<longleftrightarrow> n = 0 \<or> n = EINTR"

lemma unsync_submit_one_retry:
  "get_sqe lu u = None \<Longrightarrow> retried (fst (ring_submit lu u)) \<Longrightarrow>
   unsync_submit_one lu e u = unsync_submit_one lu e (snd (ring_submit lu u))"
  by (subst unsync_submit_one.simps) (auto simp: retried_def split: prod.splits)

lemma unsync_submit_one_retries:
  assumes "\<And>j. j < n \<Longrightarrow> get_sqe lu (after_submits lu j u) = None
      \<and> retried (fst (ring_submit lu (after_submits lu j u)))"
  shows "unsync_submit_one lu e u = unsync_submit_one lu e (after_submits lu n u)"
  using assms
proof (induction n arbitrary: u)
  case (Suc n)
  have "unsync_submit_one lu e u = unsync_submit_one lu e (snd (ring_submit lu u))"
    using Suc.prems [of 0] by (intro unsync_submit_one_retry) simp_all
  also have "\<dots> = unsync_submit_one lu e (after_submits lu (Suc n) u)"
    unfolding after_submits_Suc
    using Suc.prems [of "Suc _"] by (intro Suc.IH) (simp add: after_submits_Suc)
  finally show ?case .
qed simp

lemma unsync_submit_one_stop:
  assumes "get_sqe lu u \<noteq> None \<or> \<not> retried (fst (ring_submit lu u))"
  shows "unsync_submit_one lu e u =
    (case get_sqe lu u of
       Some (slot, u') \<Rightarrow> Some (Inr (0, put_sqe lu slot e u'))
     | None \<Rightarrow> (if fst (ring_submit lu u) = EBADR then Some (Inl Abort_called)
               else Some (Inr (- fst (ring_submit lu u), snd (ring_submit lu u)))))"
  using assms
  by (subst unsync_submit_one.simps)
    (auto simp: retried_def void_defs split: option.splits prod.splits)

text \<open>\<open>submit_to_kernel\<close> either aborts or returns a nonzero result: it never reports success.\<close>

fun kernel_ended :: "(void_result \<times> 'u) cxx \<Rightarrow> bool" where
  "kernel_ended (Inl e) = (e = Abort_called)"
| "kernel_ended (Inr (r, u)) = (r \<noteq> 0)"

lemma submit_to_kernel_nonzero:
  assumes "submit_to_kernel lu u = Some x"
  shows "kernel_ended x"
  by (rule submit_to_kernel.raw_induct [where P = "\<lambda>lu u x. kernel_ended x", OF _ assms])
    (auto simp: void_defs split: prod.splits if_splits)

lemma submit_to_kernel_diverges:
  assumes "\<And>j. retried (fst (ring_submit lu (after_submits lu j u)))"
  shows "submit_to_kernel lu u = None"
proof -
  let ?P = "\<lambda>lu u x. \<exists>j. \<not> retried (fst (ring_submit lu (after_submits lu j u)))"
  have "?P lu u x" if "submit_to_kernel lu u = Some x" for x
  proof (rule submit_to_kernel.raw_induct [where P = ?P, OF _ that])
    fix self :: "'a liburing \<Rightarrow> 'a \<Rightarrow> (void_result \<times> 'a) run" and lu u x
    assume IH: "\<And>lu u x. self lu u = Some x \<Longrightarrow> ?P lu u x"
      and eq: "(case ring_submit lu u of (err, u') \<Rightarrow>
        if err = 0 then self lu u' else if err = EINTR then self lu u'
        else if err = EBADR then Some (Inl Abort_called)
        else Some (Inr (void_from_error (- err), u'))) = Some x"
    show "?P lu u x"
    proof (cases "retried (fst (ring_submit lu u))")
      case True
      then have "self lu (snd (ring_submit lu u)) = Some x"
        using eq by (auto simp: retried_def split: prod.splits if_splits)
      then obtain j where "\<not> retried (fst (ring_submit lu (after_submits lu (Suc j) u)))"
        using IH unfolding after_submits_Suc by blast
      then show ?thesis by blast
    next
      case False
      then show ?thesis by (intro exI [of _ 0]) simp
    qed
  qed
  with assms show ?thesis by (cases "submit_to_kernel lu u") blast+
qed

text \<open>The first result that is not retried ends the loop.\<close>

lemma submit_to_kernel_retries:
  assumes "\<And>j. j < n \<Longrightarrow> retried (fst (ring_submit lu (after_submits lu j u)))"
  shows "submit_to_kernel lu u = submit_to_kernel lu (after_submits lu n u)"
  using assms
proof (induction n arbitrary: u)
  case (Suc n)
  have "submit_to_kernel lu u = submit_to_kernel lu (snd (ring_submit lu u))"
    using Suc.prems [of 0]
    by (subst submit_to_kernel.simps) (auto simp: retried_def split: prod.splits)
  also have "\<dots> = submit_to_kernel lu (after_submits lu (Suc n) u)"
    unfolding after_submits_Suc
    using Suc.prems [of "Suc _"] by (intro Suc.IH) (simp add: after_submits_Suc)
  finally show ?case .
qed simp

lemma submit_to_kernel_stop:
  assumes "\<not> retried (fst (ring_submit lu u))"
  shows "submit_to_kernel lu u =
    (if fst (ring_submit lu u) = EBADR then Some (Inl Abort_called)
     else Some (Inr (- fst (ring_submit lu u), snd (ring_submit lu u))))"
  using assms
  by (subst submit_to_kernel.simps) (auto simp: retried_def void_defs split: prod.splits)

text \<open>\<open>submit_many\<close> never takes the early return on an error of the kernel.\<close>

fun slot_ended :: "((nat + void_result) \<times> 'u) cxx \<Rightarrow> bool" where
  "slot_ended (Inl e) = (e = Abort_called)"
| "slot_ended (Inr (y, u)) = isl y"

lemma sync_get_slot_ended:
  assumes "sync_get_slot lu u = Some x"
  shows "slot_ended x"
proof (rule sync_get_slot.raw_induct [where P = "\<lambda>lu u x. slot_ended x", OF _ assms])
  fix self :: "'a liburing \<Rightarrow> 'a \<Rightarrow> ((nat + void_result) \<times> 'a) run" and lu u x
  assume IH: "\<And>lu u x. self lu u = Some x \<Longrightarrow> slot_ended x"
    and eq: "(case get_sqe lu u of None \<Rightarrow>
        (case submit_to_kernel lu u of None \<Rightarrow> None | Some (Inl e) \<Rightarrow> Some (Inl e)
         | Some (Inr (r, u')) \<Rightarrow> if void_has_error r then Some (Inr (Inr r, u')) else self lu u')
      | Some (slot, u') \<Rightarrow> Some (Inr (Inl slot, u'))) = Some x"
  show "slot_ended x"
  proof (cases "get_sqe lu u")
    case None
    show ?thesis
    proof (cases "submit_to_kernel lu u")
      case k: (Some y)
      note submit_to_kernel_nonzero [OF k]
      with eq None k IH show ?thesis
        by (cases y) (auto simp: void_defs split: prod.splits)
    qed (use eq None in simp)
  next
    case (Some sl)
    with eq show ?thesis by (auto split: prod.splits)
  qed
qed

lemma sync_submit_many_zero:
  "sync_submit_many lu es u = Some (Inr (r, u')) \<Longrightarrow> r = 0"
proof (induction es arbitrary: u)
  case Nil
  then show ?case by (simp add: void_defs)
next
  case (Cons e es)
  then obtain y v where y: "sync_get_slot lu u = Some (Inr (y, v))"
    by (auto simp: run_bind_def cxx_then_def split: option.splits sum.splits)
  with sync_get_slot_ended [OF y] obtain slot where "y = Inl slot"
    by (auto simp: isl_def)
  with y Cons show ?case by simp
qed

text \<open>\<open>submit_to_kernel\<close> ends in a ring that some number of submits reaches.\<close>

lemma after_submits_add: "after_submits lu j (after_submits lu n u) = after_submits lu (j + n) u"
  by (simp add: after_submits_def funpow_add)

fun kernel_reached :: "'u liburing \<Rightarrow> 'u \<Rightarrow> (void_result \<times> 'u) cxx \<Rightarrow> bool" where
  "kernel_reached lu u (Inl e) = (\<exists>j. fst (ring_submit lu (after_submits lu j u)) = EBADR)"
| "kernel_reached lu u (Inr (r, v)) = (\<exists>j. v = after_submits lu j u)"

lemma kernel_reached_step: "kernel_reached lu (snd (ring_submit lu u)) x \<Longrightarrow> kernel_reached lu u x"
  by (cases "(lu, u, x)" rule: kernel_reached.cases) (auto simp: after_submits_Suc [symmetric])

lemma submit_to_kernel_reached:
  assumes "submit_to_kernel lu u = Some x"
  shows "kernel_reached lu u x"
proof (rule submit_to_kernel.raw_induct [where P = kernel_reached, OF _ assms])
  fix self :: "'a liburing \<Rightarrow> 'a \<Rightarrow> (void_result \<times> 'a) run" and lu u x
  assume IH: "\<And>lu u x. self lu u = Some x \<Longrightarrow> kernel_reached lu u x"
    and eq: "(case ring_submit lu u of (err, u') \<Rightarrow>
      if err = 0 then self lu u' else if err = EINTR then self lu u'
      else if err = EBADR then Some (Inl Abort_called)
      else Some (Inr (void_from_error (- err), u'))) = Some x"
  show "kernel_reached lu u x"
  proof (cases "retried (fst (ring_submit lu u))")
    case True
    then have "self lu (snd (ring_submit lu u)) = Some x"
      using eq by (auto simp: retried_def split: prod.splits if_splits)
    then show ?thesis
      by (rule kernel_reached_step [OF IH])
  next
    case False
    then have "x = (if fst (ring_submit lu u) = EBADR then Inl Abort_called
        else Inr (void_from_error (- fst (ring_submit lu u)), after_submits lu (Suc 0) u))"
      using eq by (auto simp: retried_def after_submits_Suc split: prod.splits if_splits)
    then show ?thesis
      by (auto split: if_splits intro: exI [of _ 0])
  qed
qed

text \<open>A ring that no submit empties.\<close>

definition stuck :: "'u liburing \<Rightarrow> 'u \<Rightarrow> bool" where
  "stuck lu u \<longleftrightarrow> (\<forall>j. get_sqe lu (after_submits lu j u) = None
     \<and> fst (ring_submit lu (after_submits lu j u)) \<noteq> EBADR)"

lemma stuck_after: "stuck lu u \<Longrightarrow> stuck lu (after_submits lu n u)"
  by (simp add: stuck_def after_submits_add)

lemma sync_get_slot_diverges:
  assumes "stuck lu u"
  shows "sync_get_slot lu u = None"
proof -
  have "\<not> stuck lu u" if "sync_get_slot lu u = Some x" for x
  proof (rule sync_get_slot.raw_induct [where P = "\<lambda>lu u x. \<not> stuck lu u", OF _ that])
    fix self :: "'a liburing \<Rightarrow> 'a \<Rightarrow> ((nat + void_result) \<times> 'a) run" and lu u x
    assume IH: "\<And>lu u x. self lu u = Some x \<Longrightarrow> \<not> stuck lu u"
      and eq: "(case get_sqe lu u of None \<Rightarrow>
          (case submit_to_kernel lu u of None \<Rightarrow> None | Some (Inl e) \<Rightarrow> Some (Inl e)
           | Some (Inr (r, u')) \<Rightarrow> if void_has_error r then Some (Inr (Inr r, u')) else self lu u')
        | Some (slot, u') \<Rightarrow> Some (Inr (Inl slot, u'))) = Some x"
    show "\<not> stuck lu u"
    proof
      assume st: "stuck lu u"
      then have none: "get_sqe lu u = None"
        unfolding stuck_def by (metis after_submits_0)
      obtain y where k: "submit_to_kernel lu u = Some y"
        using eq none by (cases "submit_to_kernel lu u") simp_all
      obtain r v where y: "y = Inr (r, v)" "r \<noteq> 0"
        using submit_to_kernel_nonzero [OF k] submit_to_kernel_reached [OF k] st
        by (cases "(lu, u, y)" rule: kernel_reached.cases) (auto simp: stuck_def)
      then obtain j where "v = after_submits lu j u"
        using submit_to_kernel_reached [OF k] by auto
      moreover have "self lu v = Some x"
        using eq none k y by (simp add: void_defs)
      ultimately show False
        using IH stuck_after [OF st] by blast
    qed
  qed
  with assms show ?thesis by (cases "sync_get_slot lu u") blast+
qed

text \<open>
  \<open>wait_one\<close> takes at most one entry, the oldest, out of the ring that its wait left behind; the void
  result does not say whether there was one.
\<close>

lemma sync_wait_one_takes_one:
  assumes "sync_wait_one lu u = Some (Inr (r, Some got, u'))"
  shows "\<exists>v w. wait_cqe_nr lu 1 v = (0, w) \<and> got = take 1 (cqes lu w) \<and> u' = cq_advance lu (length got) w
    \<and> r = void_from_value"
  using assms
  by (auto simp: sync_wait_one_def sync_wait_many_def run_bind_def cxx_then_def Let_def
      split: option.splits sum.splits prod.splits if_splits) (intro exI conjI, assumption, simp_all)

section \<open>The contexts as what the operations rely on\<close>

text \<open>No operation writes the counter of pending operations.\<close>

lemma context_submit_pending:
  "context_submit debug submit_one q f c = Some (Inr (x, c')) \<Longrightarrow> m_pending c' = m_pending c"
  by (erule context_submit_ok) simp_all

lemma context_complete_pending:
  assumes "context_complete f_more call cqe c = Inr (ex, c')" and "\<And>f c. m_pending (snd (snd (call f cqe c))) = m_pending c"
  shows "m_pending c' = m_pending c"
  using assms(1) assms(2) [of "the (completions c (user_data cqe))" c]
  by (auto simp: context_complete_def Let_def split: option.splits prod.splits if_splits)

text \<open>No completion lives at an address that has not been handed out.\<close>

definition completions_below :: "('u, 'f) uring_context \<Rightarrow> bool" where
  "completions_below c \<longleftrightarrow> (\<forall>p. next_completion c \<le> p \<longrightarrow> completions c p = None)"

definition no_error_reported :: "nat result \<Rightarrow> bool" where
  "no_error_reported x \<longleftrightarrow> res_first x = 0"

lemma context_submit_contract:
  assumes "completions_below c" and "context_submit debug submit_one q f c = Some (Inr (x, c'))"
  shows "completions_below c' \<and> no_error_reported x"
  using assms(2)
proof (cases rule: context_submit_ok)
  case 1
  then show ?thesis using assms(1) by (simp add: completions_below_def no_error_reported_def)
next
  case 2
  then show ?thesis using assms(1) by (simp add: completions_below_def no_error_reported_def from_value_def)
qed

interpretation unsync: submitter "context_submit debug (unsync_submit_one lu)" completions_below
    no_error_reported for debug :: bool and lu :: "'u liburing"
  by unfold_locales (rule context_submit_contract)

interpretation sync: submitter "context_submit debug (sync_submit_one lu)" completions_below
    no_error_reported for debug :: bool and lu :: "'u liburing"
  by unfold_locales (rule context_submit_contract)

section \<open>Submitting and completing\<close>

fun submit_all ::
  "bool \<Rightarrow> (entry \<Rightarrow> 'u \<Rightarrow> (void_result \<times> 'u) run) \<Rightarrow> (sqe \<times> 'f) list \<Rightarrow> ('u, 'f) uring_context \<Rightarrow>
   ('u, 'f) uring_context run" where
  "submit_all debug submit_one [] c = Some (Inr c)"
| "submit_all debug submit_one ((q, f) # qs) c =
     run_bind (context_submit debug submit_one q f c) (\<lambda>(x, c'). submit_all debug submit_one qs c')"

text \<open>An address that was handed out and holds no completion stays so.\<close>

definition dangling :: "nat \<Rightarrow> ('u, 'f) uring_context \<Rightarrow> bool" where
  "dangling p c \<longleftrightarrow> p < next_completion c \<and> completions c p = None"

lemma submit_dangling:
  assumes "context_submit debug submit_one q f c = Some (Inr (x, c'))" and "dangling p c"
  shows "dangling p c'"
  using assms(1) by (cases rule: context_submit_ok) (use assms(2) in \<open>auto simp: dangling_def\<close>)

lemma submit_all_dangling:
  "submit_all debug submit_one qs c = Some (Inr c') \<Longrightarrow> dangling p c \<Longrightarrow> dangling p c'"
proof (induction qs arbitrary: c)
  case (Cons a qs)
  obtain q f where a: "a = (q, f)" by (cases a)
  with Cons.prems(1) obtain x c1 where "context_submit debug submit_one q f c = Some (Inr (x, c1))"
      "submit_all debug submit_one qs c1 = Some (Inr c')"
    by (auto simp: run_bind_def cxx_then_def split: option.splits sum.splits)
  then show ?case
    by (rule Cons.IH [OF _ submit_dangling [OF _ Cons.prems(2)], rotated])
qed simp

lemma dangling_complete:
  "dangling p c \<Longrightarrow> user_data cqe = p \<Longrightarrow> context_complete f_more call cqe c = Inl Undefined"
  by (simp add: dangling_def context_complete_def Let_def)

section \<open>A concrete ring\<close>

text \<open>A ring with \<open>cap\<close> submission slots whose kernel takes everything and completes nothing by itself.\<close>

record small_ring =
  cap :: nat
  queue :: "entry list"
  finished :: "cqe list"

definition small_lu :: "small_ring liburing" where
  "small_lu = \<lparr>
     get_sqe = (\<lambda>u. if length (queue u) < cap u
                   then Some (length (queue u), u\<lparr>queue := queue u @ [(Prep_nop, 0)]\<rparr>) else None),
     put_sqe = (\<lambda>slot e u. u\<lparr>queue := (queue u)[slot := e]\<rparr>),
     ring_submit = (\<lambda>u. (word_of_nat (length (queue u)), u\<lparr>queue := []\<rparr>)),
     submit_and_wait = (\<lambda>n u. (word_of_nat (length (queue u)), u\<lparr>queue := []\<rparr>)),
     wait_cqe_nr = (\<lambda>n u. (0, u)),
     cqes = finished,
     cq_advance = (\<lambda>n u. u\<lparr>finished := drop n (finished u)\<rparr>)\<rparr>"

definition small_context :: "nat \<Rightarrow> (small_ring, nat) uring_context" where
  "small_context n = \<lparr>ring = \<lparr>cap = n, queue = [], finished = []\<rparr>, completions = (\<lambda>_. None), next_completion = 0, m_pending = 0\<rparr>"

lemma small_submit_one:
  "length (queue u) < cap u \<Longrightarrow>
   unsync_submit_one small_lu e u = Some (Inr (0, u\<lparr>queue := queue u @ [e]\<rparr>))"
  by (subst unsync_submit_one.simps) (simp add: small_lu_def void_defs)

lemma small_below: "completions_below (small_context n)"
  by (simp add: completions_below_def small_context_def)

section \<open>Properties\<close>

text \<open>
  No asynchronous operation ever reports an error, and none reports success: whichever of the 39
  operations is called on an \<open>unsynchronized_uring_context\<close>, with any arguments, and whatever the
  ring and the kernel do, the result it returns has error code 0, for which \<open>has_error()\<close> is true;
  and no completion object appears at an address that was not handed out.
\<close>

lemma operation_result_code:
  assumes "completions_below c" and "submit super = context_submit debug (unsync_submit_one lu)"
    and "issue debug super r f c = Some (Inr (x, c'))"
  shows "completions_below c' \<and> error x = 0 \<and> has_error x"
  using unsync.issue_ok [OF assms] by (simp add: no_error_reported_def error_def has_error_def)

lemma small_close:
  "issue True \<lparr>submit = context_submit True (unsync_submit_one small_lu), has_rw_cur_pos = True,
       at_fdcwd = - 100, timeout_abs = 1\<rparr> (Close 3) 42 (small_context 4)
    = Some (Inr (\<lparr>res_first = 0, res_second = None\<rparr>,
        \<lparr>ring = \<lparr>cap = 4, queue = [(Prep_close 3, 0)], finished = []\<rparr>, completions = (\<lambda>_. None),
         next_completion = 1, m_pending = 0\<rparr>))"
  by (simp add: async_close_def context_submit_def small_context_def small_submit_one Let_def void_defs
      from_error_def fun_upd_idem)

lemma operation_result_code_witness:
  "error (\<lparr>res_first = 0, res_second = None\<rparr> :: nat result) = 0
   \<and> completions_below (\<lparr>ring = \<lparr>cap = 4, queue = [(Prep_close 3, 0)], finished = []\<rparr>,
       completions = (\<lambda>_. None), next_completion = 1, m_pending = 0\<rparr> :: (small_ring, nat) uring_context)"
  using operation_result_code [OF small_below _ small_close] by simp

text \<open>
  C9: An operation that the ring accepts leaves a dangling pointer in the kernel: \<open>submit\<close> takes the
  success of \<open>submit_one\<close> for an error and frees the completion object whose address the queued entry
  carries. Whatever is submitted after that, completing the operation reads the freed object.
\<close>

theorem accepted_operation_dangles:
  assumes "submit_one (q, next_completion c) (ring c) = Some (Inr (0, u))"
    and "context_submit debug submit_one q f c = Some (Inr (x, c'))"
    and "submit_all debug submit_one qs c' = Some (Inr c'')"
    and "user_data cqe = next_completion c"
  shows "context_complete f_more call cqe c'' = Inl Undefined"
proof -
  have "dangling (next_completion c) c'"
    using assms(2) by (cases rule: context_submit_ok) (use assms(1) in \<open>auto simp: dangling_def\<close>)
  then have "dangling (next_completion c) c''"
    by (rule submit_all_dangling [OF assms(3)])
  then show ?thesis
    using assms(4) by (rule dangling_complete)
qed

definition small_closing :: "(small_ring, nat) uring_context" where
  "small_closing = \<lparr>ring = \<lparr>cap = 4, queue = [(Prep_close 3, 0)], finished = []\<rparr>,
     completions = (\<lambda>_. None), next_completion = 1, m_pending = 0\<rparr>"

lemma small_first:
  "unsync_submit_one small_lu (Prep_close 3, next_completion (small_context 4)) (ring (small_context 4))
    = Some (Inr (0, ring small_closing))"
  "context_submit True (unsync_submit_one small_lu) (Prep_close 3) 42 (small_context 4)
    = Some (Inr (\<lparr>res_first = 0, res_second = None\<rparr>, small_closing))"
  by (simp_all add: context_submit_def small_context_def small_closing_def small_submit_one Let_def
      void_defs from_error_def fun_upd_idem)

lemma small_second:
  "submit_all True (unsync_submit_one small_lu) [(Prep_nop, 43)] small_closing =
   Some (Inr (small_closing\<lparr>next_completion := 2,
     ring := \<lparr>cap = 4, queue = [(Prep_close 3, 0), (Prep_nop, 1)], finished = []\<rparr>\<rparr>))"
proof -
  have "context_submit True (unsync_submit_one small_lu) Prep_nop 43 small_closing =
    Some (Inr (\<lparr>res_first = 0, res_second = None\<rparr>, small_closing\<lparr>next_completion := 2,
      ring := \<lparr>cap = 4, queue = [(Prep_close 3, 0), (Prep_nop, 1)], finished = []\<rparr>\<rparr>))"
    by (simp add: context_submit_def small_closing_def small_submit_one Let_def void_defs
        from_error_def fun_upd_idem numeral_2_eq_2)
  then show ?thesis by simp
qed

theorem accepted_operation_dangles_witness:
  "context_complete 2 (\<lambda>f cqe c. (None, f, c)) \<lparr>user_data = 0, cqe_res = 0, cqe_flags = 0\<rparr>
     (small_closing\<lparr>next_completion := 2,
       ring := \<lparr>cap = 4, queue = [(Prep_close 3, 0), (Prep_nop, 1)], finished = []\<rparr>\<rparr>) = Inl Undefined"
  by (rule accepted_operation_dangles [OF small_first small_second]) (simp add: small_context_def)

text \<open>
  A completion object is freed by the final completion entry exactly when its callback throws:
  after a normal return, or when more entries are announced, it is still there, with the callback's
  new state. So a callback that returns normally is never freed.
\<close>

lemma completion_freed_on_exception_only:
  assumes "completions c (user_data cqe) = Some callback"
    and "call callback cqe c = (ex, callback', c1)"
  shows "\<exists>c'. context_complete f_more call cqe c = Inr (ex, c')
    \<and> completions c' (user_data cqe) =
        (if cqe_flags cqe AND f_more = 0 \<and> ex \<noteq> None then None else Some callback')
    \<and> ring c' = ring c1 \<and> next_completion c' = next_completion c1
    \<and> (\<forall>p. p = user_data cqe \<or> completions c' p = completions c1 p)"
  using assms by (auto simp: context_complete_def Let_def split: option.splits)

lemma completion_freed_on_exception_only_witness:
  "\<exists>c'. context_complete 2 (\<lambda>f cqe c. (None, Suc f, c)) \<lparr>user_data = 0, cqe_res = 7, cqe_flags = 0\<rparr>
      (\<lparr>ring = (), completions = (\<lambda>_. None)(0 := Some 5), next_completion = 1, m_pending = 0\<rparr>) = Inr (None, c')
    \<and> completions c' 0 = Some 6"
  using completion_freed_on_exception_only [of
      "\<lparr>ring = (), completions = (\<lambda>_. None)(0 := Some 5), next_completion = 1, m_pending = 0\<rparr>"
      "\<lparr>user_data = 0, cqe_res = 7, cqe_flags = 0\<rparr>" 5 "\<lambda>f cqe c. (None, Suc f, c)" None 6
      "\<lparr>ring = (), completions = (\<lambda>_. None)(0 := Some 5), next_completion = 1, m_pending = 0\<rparr>" 2]
  by auto

section \<open>The submission loops\<close>

text \<open>When the loop of \<open>submit_one\<close> ends at a ring, and what it then returns.\<close>

definition submit_ends :: "'u liburing \<Rightarrow> 'u \<Rightarrow> bool" where
  "submit_ends lu u \<longleftrightarrow> get_sqe lu u \<noteq> None \<or> \<not> retried (fst (ring_submit lu u))"

definition submit_end :: "'u liburing \<Rightarrow> entry \<Rightarrow> 'u \<Rightarrow> (void_result \<times> 'u) cxx" where
  "submit_end lu e u =
     (case get_sqe lu u of
        Some (slot, u') \<Rightarrow> Inr (0, put_sqe lu slot e u')
      | None \<Rightarrow> if fst (ring_submit lu u) = EBADR then Inl Abort_called
                else Inr (- fst (ring_submit lu u), snd (ring_submit lu u)))"

lemma unsync_submit_one_returns:
  assumes "unsync_submit_one lu e u = Some x"
  shows "\<exists>n. submit_ends lu (after_submits lu n u)"
proof -
  let ?P = "\<lambda>lu (e :: entry) u (x :: (void_result \<times> 'a) cxx). \<exists>n. submit_ends lu (after_submits lu n u)"
  show ?thesis
  proof (rule unsync_submit_one.raw_induct [where P = ?P, OF _ assms])
    fix self :: "'a liburing \<Rightarrow> entry \<Rightarrow> 'a \<Rightarrow> (void_result \<times> 'a) run" and lu e u x
    assume IH: "\<And>lu e u x. self lu e u = Some x \<Longrightarrow> ?P lu e u x"
      and eq: "(case get_sqe lu u of None \<Rightarrow>
          (case ring_submit lu u of (result, u') \<Rightarrow>
             if result = 0 then self lu e u' else if result = EINTR then self lu e u'
             else if result = EBADR then Some (Inl Abort_called)
             else Some (Inr (void_from_error (- result), u')))
        | Some (slot, u') \<Rightarrow> Some (Inr (void_from_value, put_sqe lu slot e u'))) = Some x"
    show "?P lu e u x"
    proof (cases "submit_ends lu u")
      case True
      then show ?thesis by (intro exI [of _ 0]) simp
    next
      case False
      then have "get_sqe lu u = None" "retried (fst (ring_submit lu u))"
        unfolding submit_ends_def by blast+
      then have "self lu e (snd (ring_submit lu u)) = Some x"
        using eq by (auto simp: retried_def split: prod.splits if_splits)
      then obtain n where "submit_ends lu (after_submits lu (Suc n) u)"
        using IH unfolding after_submits_Suc by blast
      then show ?thesis by blast
    qed
  qed
qed

text \<open>
  C20: \<open>submit_one\<close> of the unsynchronised context, completely. It submits the ring as long as there is no
  free slot and the call returns 0 or \<open>EINTR\<close>; if that never changes it does not return. Otherwise,
  at the first ring where it changes, it stores the entry in the free slot and returns success, or
  aborts on \<open>EBADR\<close>, or drops the entry and returns the negated result of \<open>io_uring_submit\<close>, also
  when that result is the positive number of entries the kernel has just taken.
\<close>

theorem unsync_submit_one_complete:
  "unsync_submit_one lu e u =
    (if \<exists>n. submit_ends lu (after_submits lu n u)
     then Some (submit_end lu e (after_submits lu (LEAST n. submit_ends lu (after_submits lu n u)) u))
     else None)"
proof (cases "\<exists>n. submit_ends lu (after_submits lu n u)")
  case True
  let ?n = "LEAST n. submit_ends lu (after_submits lu n u)"
  have ends: "get_sqe lu (after_submits lu ?n u) \<noteq> None
      \<or> \<not> retried (fst (ring_submit lu (after_submits lu ?n u)))"
    using LeastI_ex [OF True] by (simp only: submit_ends_def)
  have "get_sqe lu (after_submits lu j u) = None \<and> retried (fst (ring_submit lu (after_submits lu j u)))"
    if "j < ?n" for j
    using not_less_Least [OF that] unfolding submit_ends_def by blast
  then have "unsync_submit_one lu e u = unsync_submit_one lu e (after_submits lu ?n u)"
    by (rule unsync_submit_one_retries)
  also have "\<dots> = Some (submit_end lu e (after_submits lu ?n u))"
    unfolding unsync_submit_one_stop [OF ends] submit_end_def by (simp split: option.split)
  finally have "unsync_submit_one lu e u = Some (submit_end lu e (after_submits lu ?n u))" .
  with True show ?thesis by simp
next
  case False
  then show ?thesis
    using unsync_submit_one_returns [of lu e u] by (cases "unsync_submit_one lu e u") auto
qed

text \<open>
  C29: \<open>submit_to_kernel\<close> of the synchronised context, completely: it returns only at the first submit
  whose result is neither 0 nor \<open>EINTR\<close>, and then with its negation, never with the 0 of success. So
  when there is nothing left to submit, which \<open>io_uring_submit\<close> reports as 0, it loops for ever.
\<close>

theorem submit_to_kernel_complete:
  "submit_to_kernel lu u =
    (if \<exists>n. \<not> retried (fst (ring_submit lu (after_submits lu n u)))
     then (let v = after_submits lu (LEAST n. \<not> retried (fst (ring_submit lu (after_submits lu n u)))) u;
               n = fst (ring_submit lu v)
           in Some (if n = EBADR then Inl Abort_called else Inr (- n, snd (ring_submit lu v))))
     else None)"
proof (cases "\<exists>n. \<not> retried (fst (ring_submit lu (after_submits lu n u)))")
  case True
  let ?n = "LEAST n. \<not> retried (fst (ring_submit lu (after_submits lu n u)))"
  have "\<not> retried (fst (ring_submit lu (after_submits lu ?n u)))"
    using True by (rule LeastI_ex)
  moreover have "retried (fst (ring_submit lu (after_submits lu j u)))" if "j < ?n" for j
    using not_less_Least [OF that] by simp
  ultimately show ?thesis
    using True submit_to_kernel_retries [of ?n lu u] submit_to_kernel_stop [of lu "after_submits lu ?n u"]
    by (simp add: Let_def)
next
  case False
  then show ?thesis using submit_to_kernel_diverges [of lu u] by auto
qed

text \<open>
  The synchronised context hides every error of \<open>io_uring_submit\<close>. When \<open>submit_many\<close> returns, it
  returns success; while the ring stays full, whatever error the kernel reports (all but \<open>EBADR\<close>), a
  submission never returns.
\<close>

lemma sync_submit_hides_errors:
  "(\<forall>r u'. sync_submit_many lu es u = Some (Inr (r, u')) \<longrightarrow> void_from_value = r)
   \<and> (stuck lu u \<longrightarrow> sync_submit_one lu e u = None)"
  using sync_submit_many_zero [of lu es u] sync_get_slot_diverges [of lu u]
  by (auto simp: sync_submit_one_def void_defs)

text \<open>A kernel that always answers \<open>EAGAIN\<close> (11) to a full ring.\<close>

definition busy_lu :: "small_ring liburing" where
  "busy_lu = small_lu\<lparr>ring_submit := (\<lambda>u. (- 11, u))\<rparr>"

lemma busy_after: "after_submits busy_lu n u = u"
  by (induction n) (simp_all add: after_submits_Suc busy_lu_def)

lemma sync_submit_hides_errors_witness:
  "sync_submit_one busy_lu (Prep_nop, 0) \<lparr>cap = 1, queue = [(Prep_nop, 1)], finished = []\<rparr> = None"
proof -
  have "stuck busy_lu \<lparr>cap = 1, queue = [(Prep_nop, 1)], finished = []\<rparr>"
    by (simp add: stuck_def busy_after) (simp add: busy_lu_def small_lu_def EBADR_def)
  then show ?thesis
    using sync_submit_hides_errors [of busy_lu "[]" "\<lparr>cap = 1, queue = [(Prep_nop, 1)], finished = []\<rparr>"
        "(Prep_nop, 0)"] by blast
qed

text \<open>
  C33: \<open>wait_many\<close> of the unsynchronised context loses and repeats no completion entry: when
  \<open>io_uring_submit_and_wait\<close> returns 0 it delivers the oldest entries, as many as there are buffers
  or entries, and exactly those leave the ring; for any other result it delivers nothing. That
  includes every positive result, by which the call reports how many entries it submitted. The law of
  the ring used is that advancing by \<open>n\<close> drops the \<open>n\<close> oldest entries.
\<close>

theorem unsync_wait_many_delivers:
  assumes "\<And>n v. cqes lu (cq_advance lu n v) = drop n (cqes lu v)"
    and "submit_and_wait lu k u = (err, v)"
  shows "\<exists>r got v'. unsync_wait_many debug lu sz k u = Inr (r, got, v')
    \<and> (if err = 0 then \<exists>es. got = Some es \<and> es @ cqes lu v' = cqes lu v
          \<and> length es = min (length (cqes lu v)) sz \<and> r = from_value (length es)
       else got = None \<and> v' = v \<and> error r = - err)"
proof (cases "err = 0")
  case True
  let ?es = "List.take sz (cqes lu v)"
  have "?es @ drop (length ?es) (cqes lu v) = cqes lu v"
    by (simp add: min_def)
  with True assms show ?thesis
    by (simp add: unsync_wait_many_def Let_def)
next
  case False
  with assms(2) show ?thesis
    by (simp add: unsync_wait_many_def from_error_def error_def)
qed

theorem unsync_wait_many_delivers_witness:
  "\<exists>r got v'. unsync_wait_many True small_lu 8 1
       \<lparr>cap = 4, queue = [(Prep_nop, 0)], finished = [\<lparr>user_data = 0, cqe_res = 0, cqe_flags = 0\<rparr>]\<rparr>
     = Inr (r, got, v') \<and> got = None \<and> error r = - 1"
  using unsync_wait_many_delivers [of small_lu 1
      "\<lparr>cap = 4, queue = [(Prep_nop, 0)], finished = [\<lparr>user_data = 0, cqe_res = 0, cqe_flags = 0\<rparr>]\<rparr>" 1
      "\<lparr>cap = 4, queue = [], finished = [\<lparr>user_data = 0, cqe_res = 0, cqe_flags = 0\<rparr>]\<rparr>" True 8]
  by (auto simp: small_lu_def)

end
