(* ===== verification/Ioring_Async.thy ===== *)
theory Ioring_Async
  imports Execution_Context Uring_Context "HOL-Library.Signed_Division"
begin

text \<open>
  \<open>include/tcx/async/ioring/\<close>: the operations of \<open>tcx::\<close> over an io_uring context. Each passes a
  callback to the context that, on completion, posts to an executor the call of the user's handler
  with the outcome. Modelled are the operations whose callback has the type that the context
  requires: \<open>open\<close>, \<open>close\<close>, \<open>read\<close> and \<open>stat\<close>. The callbacks of the others take a single \<open>int32_t\<close>,
  which is no completion handler of a context, so they cannot be instantiated (\<open>Ioring_Transfer\<close>); of
  \<open>sleep\<close> the conversion of durations is modelled here.
  The flags of \<open>fcntl.h\<close> are parameters.
\<close>

unbundle bit_operations_syntax

section \<open>Outcomes\<close>

text \<open>
  A variant of an error code of \<open>std::system_category()\<close> and a value. \<open>close\<close> calls its handler with
  a bare error code, 0 for success, the others with the variant.
\<close>

datatype op_value = Handle c_int | Count u64 | Done_value

type_synonym outcome = "c_int + op_value"

datatype 'f handler_call =
    Call_variant 'f outcome
  | Call_error_code 'f c_int

definition open_outcome :: "c_int \<Rightarrow> outcome" where
  "open_outcome result = (if result <s 0 then Inl (- result) else Inr (Handle result))"

definition read_outcome :: "c_int \<Rightarrow> outcome" where
  "read_outcome result = (if result <s 0 then Inl (- result) else Inr (Count (scast result)))"

definition close_outcome :: "c_int \<Rightarrow> c_int" where
  "close_outcome result = (if result <s 0 then - result else 0)"

definition stat_outcome :: "c_int \<Rightarrow> outcome" where
  "stat_outcome result = (if result <s 0 then Inl result else Inr Done_value)"

section \<open>stat\<close>

record timestamp =
  ts_sec :: int
  ts_nsec :: int

record statx =
  stx_dev_major :: c_uint
  stx_dev_minor :: c_uint
  stx_ino :: u64
  stx_nlink :: c_uint
  stx_mode :: "16 word"
  stx_uid :: c_uint
  stx_gid :: c_uint
  stx_rdev_major :: c_uint
  stx_rdev_minor :: c_uint
  stx_size :: u64
  stx_blksize :: c_uint
  stx_blocks :: u64
  stx_atime :: timestamp
  stx_mtime :: timestamp
  stx_ctime :: timestamp

record stat =
  st_dev :: u64
  st_ino :: u64
  st_nlink :: u64
  st_mode :: c_uint
  st_uid :: c_uint
  st_gid :: c_uint
  st_rdev :: u64
  st_size :: u64
  st_blksize :: u64
  st_blocks :: u64
  st_atim :: timestamp
  st_mtim :: timestamp
  st_ctim :: timestamp

definition device :: "c_uint \<Rightarrow> c_uint \<Rightarrow> u64" where
  "device major minor = push_bit 32 (ucast major) OR ucast minor"

definition stat_of_statx :: "statx \<Rightarrow> stat" where
  "stat_of_statx x = \<lparr>
     st_dev = device (stx_dev_major x) (stx_dev_minor x),
     st_ino = stx_ino x, st_nlink = ucast (stx_nlink x), st_mode = ucast (stx_mode x),
     st_uid = stx_uid x, st_gid = stx_gid x,
     st_rdev = device (stx_rdev_major x) (stx_rdev_minor x),
     st_size = stx_size x, st_blksize = ucast (stx_blksize x), st_blocks = stx_blocks x,
     st_atim = stx_atime x, st_mtim = stx_mtime x, st_ctim = stx_ctime x\<rparr>"

section \<open>The operations\<close>

text \<open>The callbacks handed to the context: the captured variables of each lambda.\<close>

datatype 'f ring_cb =
    On_open 'f
  | On_close 'f
  | On_read 'f
  | On_stat statx addr 'f  \<comment> \<open>the \<open>statx\<close> buffer, owned, and the caller's \<open>stat\<close>\<close>

definition open_call ::
  "('s, 'f ring_cb, 'r) super \<Rightarrow> string \<Rightarrow> int \<Rightarrow> int \<Rightarrow> 'f \<Rightarrow> ('s, 'r) action" where
  "open_call service path flags mode f = async_open service path flags mode (On_open f)"

definition close_call :: "('s, 'f ring_cb, 'r) super \<Rightarrow> int \<Rightarrow> 'f \<Rightarrow> ('s, 'r) action" where
  "close_call service fd f = async_close service fd (On_close f)"

definition read_call ::
  "bool \<Rightarrow> ('s, 'f ring_cb, 'r) super \<Rightarrow> int \<Rightarrow> addr \<Rightarrow> int \<Rightarrow> int \<Rightarrow> 'f \<Rightarrow> ('s, 'r) action" where
  "read_call debug service fd buf len offset f = async_read debug service fd buf len offset (On_read f)"

text \<open>The overload without an offset, and those for a span.\<close>

definition read_call_current ::
  "bool \<Rightarrow> ('s, 'f ring_cb, 'r) super \<Rightarrow> int \<Rightarrow> addr \<Rightarrow> int \<Rightarrow> 'f \<Rightarrow> ('s, 'r) action" where
  "read_call_current debug service fd buf len f = read_call debug service fd buf len (- 1) f"

definition read_call_span ::
  "bool \<Rightarrow> ('s, 'f ring_cb, 'r) super \<Rightarrow> int \<Rightarrow> addr \<times> int \<Rightarrow> int \<Rightarrow> 'f \<Rightarrow> ('s, 'r) action" where
  "read_call_span debug service fd bytes offset f =
     read_call debug service fd (fst bytes) (snd bytes) offset f"

definition read_call_span_current ::
  "bool \<Rightarrow> ('s, 'f ring_cb, 'r) super \<Rightarrow> int \<Rightarrow> addr \<times> int \<Rightarrow> 'f \<Rightarrow> ('s, 'r) action" where
  "read_call_span_current debug service fd bytes f =
     read_call debug service fd (fst bytes) (snd bytes) (- 1) f"

text \<open>
  \<open>statat\<close>: \<open>p\<close> is the address of the new \<open>statx\<close> buffer, \<open>buf\<close> what it holds when the callback runs,
  \<open>basic\<close> is \<open>STATX_BASIC_STATS\<close>.
\<close>

definition statat_call ::
  "int \<Rightarrow> ('s, 'f ring_cb, 'r) super \<Rightarrow> addr \<Rightarrow> statx \<Rightarrow> int \<Rightarrow> string \<Rightarrow> addr \<Rightarrow> int \<Rightarrow> 'f \<Rightarrow>
   ('s, 'r) action" where
  "statat_call basic service p buf dir_fd pathname statbuf flags f =
     async_statx service dir_fd pathname flags basic p (On_stat buf statbuf f)"

definition stat_call ::
  "int \<Rightarrow> ('s, 'f ring_cb, 'r) super \<Rightarrow> addr \<Rightarrow> statx \<Rightarrow> string \<Rightarrow> addr \<Rightarrow> 'f \<Rightarrow> ('s, 'r) action" where
  "stat_call basic service p buf path statbuf f =
     statat_call basic service p buf (at_fdcwd service) path statbuf 0 f"

text \<open>
  What the callbacks do when the context completes them: the executor and the caller's \<open>stat\<close>
  buffers.
\<close>

record ('f, 'e) async_world =
  exec :: 'e
  stats :: "addr \<Rightarrow> stat"

fun ring_callback ::
  "('f handler_call \<Rightarrow> 'e \<Rightarrow> 'e) \<Rightarrow> 'f ring_cb \<Rightarrow> c_int \<Rightarrow> ('f, 'e) async_world \<Rightarrow>
   ('f, 'e) async_world" where
  "ring_callback post (On_open f) result w =
     w\<lparr>exec := post (Call_variant f (open_outcome result)) (exec w)\<rparr>"
| "ring_callback post (On_close f) result w =
     w\<lparr>exec := post (Call_error_code f (close_outcome result)) (exec w)\<rparr>"
| "ring_callback post (On_read f) result w =
     w\<lparr>exec := post (Call_variant f (read_outcome result)) (exec w)\<rparr>"
| "ring_callback post (On_stat buf statbuf f) result w =
     w\<lparr>stats := (stats w)(statbuf := stat_of_statx buf),
       exec := post (Call_variant f (stat_outcome result)) (exec w)\<rparr>"

text \<open>The argument of a handler as it arrives: an error code becomes the variant that holds it.\<close>

fun as_variant :: "'f handler_call \<Rightarrow> outcome" where
  "as_variant (Call_variant f r) = r"
| "as_variant (Call_error_code f e) = Inl e"

section \<open>The mode string of open\<close>

record mode_bits =
  has_plus :: bool
  has_read :: bool
  has_write :: bool
  has_append :: bool
  has_cloexec :: bool
  has_exclusive :: bool

definition no_mode :: mode_bits where
  "no_mode = \<lparr>has_plus = False, has_read = False, has_write = False, has_append = False,
     has_cloexec = False, has_exclusive = False\<rparr>"

definition mode_char :: "char \<Rightarrow> mode_bits \<Rightarrow> mode_bits" where
  "mode_char c b =
     (if c = CHR ''+'' then b\<lparr>has_plus := True\<rparr>
      else if c = CHR ''r'' then b\<lparr>has_read := True\<rparr>
      else if c = CHR ''w'' then b\<lparr>has_write := True\<rparr>
      else if c = CHR ''a'' then b\<lparr>has_append := True\<rparr>
      else if c = CHR ''e'' then b\<lparr>has_cloexec := True\<rparr>
      else if c = CHR ''x'' then b\<lparr>has_exclusive := True\<rparr>
      else b)"

text \<open>The loop over a C string: the list ends at the terminating zero.\<close>

fun scan_mode :: "string \<Rightarrow> mode_bits \<Rightarrow> mode_bits" where
  "scan_mode [] b = b"
| "scan_mode (c # cs) b =
     (if c = CHR 0x00 \<or> c = CHR '','' then b else scan_mode cs (mode_char c b))"

record fcntl =
  o_rdonly :: c_int
  o_wronly :: c_int
  o_rdwr :: c_int
  o_creat :: c_int
  o_trunc :: c_int
  o_append :: c_int
  o_cloexec :: c_int
  o_excl :: c_int

definition open_mode_flags :: "fcntl \<Rightarrow> string \<Rightarrow> c_int cxx" where
  "open_mode_flags k mode =
     (let b = scan_mode mode no_mode
      in if of_bool (has_read b) + of_bool (has_write b) + of_bool (has_append b) \<noteq> (1 :: int)
         then Inl Invalid_argument
         else
           let flags = o_cloexec k * of_bool (has_cloexec b) OR o_excl k * of_bool (has_exclusive b)
           in if has_plus b
              then Inr (flags OR
                ((o_rdwr k OR 0) * of_bool (has_read b)
                 OR (o_rdwr k OR o_creat k OR o_trunc k) * of_bool (has_write b)
                 OR (o_rdwr k OR o_creat k OR o_append k) * of_bool (has_append b)))
              else Inr (flags OR
                ((o_rdonly k OR 0) * of_bool (has_read b)
                 OR (o_wronly k OR o_creat k OR o_trunc k) * of_bool (has_write b)
                 OR (o_wronly k OR o_creat k OR o_append k) * of_bool (has_append b))))"

text \<open>\<open>deffilemode\<close> is \<open>DEFFILEMODE\<close>.\<close>

definition open_by_mode ::
  "fcntl \<Rightarrow> int \<Rightarrow> ('s, 'f ring_cb, 'r) super \<Rightarrow> string \<Rightarrow> string \<Rightarrow> 'f \<Rightarrow> ('s, 'r) action" where
  "open_by_mode k deffilemode service path mode f s =
     cxx_then (open_mode_flags k mode) (\<lambda>flags. open_call service path (sint flags) deffilemode f s)"

section \<open>Durations\<close>

text \<open>
  \<open>std::chrono\<close> counts in the common type of the two representations and \<open>intmax_t\<close>; for every signed
  integer type of at most 64 bits, the case modelled, these are the 64 bits of \<open>ptrdiff_range\<close>, and a
  count beyond them is signed overflow, which is undefined. \<open>chrono_cast num den\<close> is \<open>duration_cast\<close>
  between periods whose quotient is \<open>num\<close>/\<open>den\<close> in lowest terms: the count is multiplied, then divided
  towards zero.
\<close>

definition chrono_count :: "int \<Rightarrow> int cxx" where
  "chrono_count n = (if ptrdiff_range n then Inr n else Inl Undefined)"

definition chrono_cast :: "int \<Rightarrow> int \<Rightarrow> int \<Rightarrow> int cxx" where
  "chrono_cast num den n = cxx_bind (chrono_count (n * num)) (\<lambda>m. Inr (m sdiv den))"

text \<open>
  The \<open>__kernel_timespec\<close> of a duration of \<open>ticks\<close> periods of \<open>num\<close>/\<open>den\<close> seconds, in lowest terms: the
  cast to seconds; the difference \<open>duration - secs\<close>, whose operands are converted to their common
  period 1/\<open>den\<close>; and its cast to nanoseconds.
\<close>

definition sleep_spec :: "int \<Rightarrow> int \<Rightarrow> int \<Rightarrow> timestamp cxx" where
  "sleep_spec num den ticks =
     cxx_bind (chrono_cast num den ticks) (\<lambda>secs.
     cxx_bind (chrono_cast num 1 ticks) (\<lambda>a.
     cxx_bind (chrono_cast den 1 secs) (\<lambda>b.
     cxx_bind (chrono_count (a - b)) (\<lambda>rest.
     cxx_bind (chrono_cast (1000000000 div gcd 1000000000 den) (den div gcd 1000000000 den) rest) (\<lambda>nsecs.
     Inr \<lparr>ts_sec = secs, ts_nsec = nsecs\<rparr>)))))"

text \<open>
  What the three forms of sleep pass on: the specification and the flags. \<open>abs_flag\<close> and \<open>realtime\<close> are
  \<open>IORING_TIMEOUT_ABS\<close> and \<open>IORING_TIMEOUT_REALTIME\<close>; a time point is its distance to the epoch of its
  clock.
\<close>

definition sleep_for :: "int \<Rightarrow> int \<Rightarrow> int \<Rightarrow> (timestamp \<times> c_int) cxx" where
  "sleep_for num den duration = cxx_bind (sleep_spec num den duration) (\<lambda>spec. Inr (spec, 0))"

definition sleep_until_steady :: "c_int \<Rightarrow> int \<Rightarrow> int \<Rightarrow> int \<Rightarrow> (timestamp \<times> c_int) cxx" where
  "sleep_until_steady abs_flag num den time =
     cxx_bind (sleep_spec num den time) (\<lambda>spec. Inr (spec, abs_flag))"

definition sleep_until_system :: "c_int \<Rightarrow> c_int \<Rightarrow> int \<Rightarrow> int \<Rightarrow> int \<Rightarrow> (timestamp \<times> c_int) cxx" where
  "sleep_until_system abs_flag realtime num den time =
     cxx_bind (sleep_spec num den time) (\<lambda>spec. Inr (spec, abs_flag OR realtime))"

section \<open>Lemmas\<close>

text \<open>The set of characters that the loop sees.\<close>

definition mode_chars :: "string \<Rightarrow> char set" where
  "mode_chars s = set (takeWhile (\<lambda>c. c \<noteq> CHR 0x00 \<and> c \<noteq> CHR '','') s)"

lemma scan_mode_bits:
  "has_plus (scan_mode s b) \<longleftrightarrow> has_plus b \<or> CHR ''+'' \<in> mode_chars s"
  "has_read (scan_mode s b) \<longleftrightarrow> has_read b \<or> CHR ''r'' \<in> mode_chars s"
  "has_write (scan_mode s b) \<longleftrightarrow> has_write b \<or> CHR ''w'' \<in> mode_chars s"
  "has_append (scan_mode s b) \<longleftrightarrow> has_append b \<or> CHR ''a'' \<in> mode_chars s"
  "has_cloexec (scan_mode s b) \<longleftrightarrow> has_cloexec b \<or> CHR ''e'' \<in> mode_chars s"
  "has_exclusive (scan_mode s b) \<longleftrightarrow> has_exclusive b \<or> CHR ''x'' \<in> mode_chars s"
  by (induction s b rule: scan_mode.induct; auto simp: mode_chars_def mode_char_def)+

lemma no_mode_simps [simp]:
  "\<not> has_plus no_mode" "\<not> has_read no_mode" "\<not> has_write no_mode" "\<not> has_append no_mode"
  "\<not> has_cloexec no_mode" "\<not> has_exclusive no_mode"
  by (simp_all add: no_mode_def)

text \<open>The code a handler is called with, 0 when it gets a value.\<close>

fun reported :: "'f handler_call \<Rightarrow> c_int" where
  "reported (Call_variant f (Inl e)) = e"
| "reported (Call_variant f (Inr v)) = 0"
| "reported (Call_error_code f e) = e"

fun handler :: "'f handler_call \<Rightarrow> 'f" where
  "handler (Call_variant f r) = f"
| "handler (Call_error_code f e) = f"

fun callback_handler :: "'f ring_cb \<Rightarrow> 'f" where
  "callback_handler (On_open f) = f"
| "callback_handler (On_close f) = f"
| "callback_handler (On_read f) = f"
| "callback_handler (On_stat buf a f) = f"

fun delivered :: "'f handler_call \<Rightarrow> op_value option" where
  "delivered (Call_variant f (Inr v)) = Some v"
| "delivered c = None"

definition callback_call :: "'f ring_cb \<Rightarrow> c_int \<Rightarrow> 'f handler_call" where
  "callback_call cb result =
     (case cb of
        On_open f \<Rightarrow> Call_variant f (open_outcome result)
      | On_close f \<Rightarrow> Call_error_code f (close_outcome result)
      | On_read f \<Rightarrow> Call_variant f (read_outcome result)
      | On_stat buf a f \<Rightarrow> Call_variant f (stat_outcome result))"

lemma ring_callback_exec: "exec (ring_callback post cb result w) = post (callback_call cb result) (exec w)"
  by (cases cb) (simp_all add: callback_call_def)

lemma sint_of_int_range: "- (2 ^ 31) \<le> x \<Longrightarrow> x < 2 ^ 31 \<Longrightarrow> sint (word_of_int x :: c_int) = x"
  by (simp add: int_word_sint)

lemma word_of_nat_int: "(word_of_nat n :: c_int) = word_of_int (int n)"
  by simp

lemma word_neg_of_nat:
  assumes "0 < e" and "e < 2 ^ 31"
  shows "(- word_of_nat e :: c_int) <s 0"
proof -
  have "(- word_of_nat e :: c_int) = word_of_int (- int e)" by simp
  moreover have "sint (word_of_int (- int e) :: c_int) = - int e"
    using assms by (intro sint_of_int_range) simp_all
  ultimately show ?thesis
    using assms(1) by (simp only: word_sless_alt) simp
qed

lemma word_nonneg_of_nat:
  assumes "n < 2 ^ 31"
  shows "\<not> (word_of_nat n :: c_int) <s 0" and "(scast (word_of_nat n :: c_int) :: u64) = word_of_nat n"
proof -
  have s: "sint (word_of_nat n :: c_int) = int n"
    unfolding word_of_nat_int using assms by (intro sint_of_int_range) simp_all
  then show "\<not> (word_of_nat n :: c_int) <s 0"
    by (simp add: word_sless_alt)
  show "(scast (word_of_nat n :: c_int) :: u64) = word_of_nat n"
    by (simp only: scast_eq s) simp
qed

lemma device_parts:
  "drop_bit 32 (device major minor) = (ucast major :: u64)"
  "take_bit 32 (device major minor) = (ucast minor :: u64)"
  by (rule bit_eqI; auto simp: device_def bit_simps dest: bit_imp_le_length)+

lemma ucast_back:
  "ucast (ucast (x :: c_uint) :: u64) = x" "ucast (ucast (y :: 16 word) :: c_uint) = y"
  by (rule bit_eqI; auto simp: bit_simps dest: bit_imp_le_length)+

lemma sdiv_nonneg: "0 \<le> x \<Longrightarrow> 0 < y \<Longrightarrow> (x :: int) sdiv y = x div y"
  by (cases "x = 0") (simp_all add: signed_divide_int_def)

lemma sdiv_minus: "0 < y \<Longrightarrow> (- x :: int) sdiv y = - (x sdiv y)"
  by (simp add: signed_divide_int_def)

text \<open>Splitting a nonnegative quotient into a whole part and a scaled rest.\<close>

lemma split_quotient:
  fixes a K den :: int
  assumes "0 < den" and "0 \<le> K"
  shows "a div den * K + (a - a div den * den) * K div den = a * K div den"
    and "0 \<le> a \<Longrightarrow> 0 < K \<Longrightarrow> (a - a div den * den) * K div den < K"
    and "0 \<le> (a - a div den * den) * K div den"
proof -
  have m: "a - a div den * den = a mod den"
    by (simp add: minus_div_mult_eq_mod)
  have "a * K = (a mod den) * K + (a div den * K) * den"
    by (metis add.commute distrib_right div_mult_mod_eq mult.assoc mult.commute)
  then have "a * K div den = a div den * K + (a mod den) * K div den"
    using assms(1) by (metis div_mult_self1 less_irrefl add.commute)
  then show "a div den * K + (a - a div den * den) * K div den = a * K div den"
    by (simp add: m)
  show "(a - a div den * den) * K div den < K" if "0 < K"
  proof -
    have "(a mod den) * K < den * K"
      using assms that by simp
    then have "(a mod den) * K < K * den"
      by (simp add: mult.commute)
    moreover have "(a mod den) * K div den * den \<le> (a mod den) * K"
      using div_mult_mod_eq [of "(a mod den) * K" den] pos_mod_sign [OF assms(1)]
      by (metis add_le_same_cancel1 add.commute le_add_same_cancel1)
    ultimately have "(a mod den) * K div den * den < K * den" by linarith
    then show ?thesis
      unfolding m using assms(1) by (simp only: mult_less_cancel_right_pos)
  qed
  show "0 \<le> (a - a div den * den) * K div den"
    unfolding m using assms by (simp add: pos_imp_zdiv_nonneg_iff)
qed

text \<open>The specification in unbounded arithmetic is the duration cut to nanoseconds.\<close>

definition exact_spec :: "int \<Rightarrow> int \<Rightarrow> int \<Rightarrow> timestamp" where
  "exact_spec num den ticks =
     (let secs = ticks * num sdiv den;
          rest = ticks * num - secs * den
      in \<lparr>ts_sec = secs, ts_nsec = rest * 1000000000 sdiv den\<rparr>)"

lemma exact_spec_parts:
  assumes "0 < num" and "0 < den"
  shows "ts_sec (exact_spec num den t) * 1000000000 + ts_nsec (exact_spec num den t) =
      t * num * 1000000000 sdiv den
    \<and> \<bar>ts_nsec (exact_spec num den t)\<bar> < 1000000000
    \<and> (0 \<le> t \<longrightarrow> 0 \<le> ts_nsec (exact_spec num den t)) \<and> (t \<le> 0 \<longrightarrow> ts_nsec (exact_spec num den t) \<le> 0)"
proof -
  have pos: "ts_sec (exact_spec num den t) * 1000000000 + ts_nsec (exact_spec num den t) =
      t * num * 1000000000 sdiv den \<and> 0 \<le> ts_nsec (exact_spec num den t)
      \<and> ts_nsec (exact_spec num den t) < 1000000000" if "0 \<le> t" for t
  proof -
    have a: "0 \<le> t * num" using that assms(1) by simp
    have r: "0 \<le> t * num - t * num div den * den"
      using assms(2) by (simp add: minus_div_mult_eq_mod)
    show ?thesis
      using split_quotient [OF assms(2), of 1000000000 "t * num"] a r assms(2)
      by (simp add: exact_spec_def Let_def sdiv_nonneg)
  qed
  have neg: "exact_spec num den (- t) = \<lparr>ts_sec = - ts_sec (exact_spec num den t),
      ts_nsec = - ts_nsec (exact_spec num den t)\<rparr>" for t
    using sdiv_minus [OF assms(2), of "t * num"]
      sdiv_minus [OF assms(2), of "(t * num - t * num sdiv den * den) * 1000000000"]
    by (simp add: exact_spec_def Let_def algebra_simps)
  show ?thesis
  proof (cases "0 \<le> t")
    case True
    then show ?thesis using pos [OF True] pos [of 0] by (cases "t = 0") (auto simp: exact_spec_def)
  next
    case False
    then show ?thesis
      using pos [of "- t"] neg [of "- t"] sdiv_minus [OF assms(2), of "- t * num * 1000000000"]
      by simp
  qed
qed

text \<open>
  The 64 bits carry the exact specification whenever they carry the duration in units of 1/\<open>den\<close>
  seconds, for every \<open>den\<close> that is at most nine times $10^9$ after cancelling against $10^9$.
\<close>

lemma sdiv_one: "(a :: int) sdiv 1 = a"
  by (simp add: signed_divide_int_def sgn_mult_abs)

lemma sdiv_cancel: "0 < (g :: int) \<Longrightarrow> (a * g) sdiv (b * g) = a sdiv b"
  by (simp add: signed_divide_int_def sgn_mult abs_mult)

lemma sdiv_times_bound:
  fixes a den :: int
  assumes "0 < den"
  shows "\<bar>a - a sdiv den * den\<bar> < den" and "\<bar>a sdiv den * den\<bar> \<le> \<bar>a\<bar>"
    and "0 \<le> a \<Longrightarrow> 0 \<le> a sdiv den * den" and "a \<le> 0 \<Longrightarrow> a sdiv den * den \<le> 0"
proof -
  have q: "a sdiv den * den = sgn a * (\<bar>a\<bar> div den * den)"
    using assms by (simp add: signed_divide_int_def)
  have le: "\<bar>a\<bar> div den * den \<le> \<bar>a\<bar>" "0 \<le> \<bar>a\<bar> div den * den" "\<bar>a\<bar> - \<bar>a\<bar> div den * den < den"
    using minus_div_mult_eq_mod [of "\<bar>a\<bar>" den] pos_mod_bound [OF assms, of "\<bar>a\<bar>"]
      pos_mod_sign [OF assms, of "\<bar>a\<bar>"] pos_imp_zdiv_nonneg_iff [OF assms, of "\<bar>a\<bar>"] assms
    by (linarith | simp)+
  show "\<bar>a sdiv den * den\<bar> \<le> \<bar>a\<bar>" "0 \<le> a \<Longrightarrow> 0 \<le> a sdiv den * den" "a \<le> 0 \<Longrightarrow> a sdiv den * den \<le> 0"
    unfolding q using le by (auto simp: abs_mult sgn_if)
  show "\<bar>a - a sdiv den * den\<bar> < den"
    unfolding q using le assms by (cases "a = 0"; cases "0 < a") (auto simp: sgn_if)
qed

lemma sleep_spec_eq:
  assumes "0 < den" and "den div gcd 1000000000 den \<le> 9000000000"
  shows "sleep_spec num den t = (if ptrdiff_range (t * num) then Inr (exact_spec num den t) else Inl Undefined)"
proof (cases "ptrdiff_range (t * num)")
  case True
  define g :: int where "g = gcd 1000000000 den"
  define secs where "secs = t * num sdiv den"
  define rest where "rest = t * num - secs * den"
  have g: "0 < g" "1000000000 div g * g = 1000000000" "den div g * g = den"
    by (simp_all add: g_def)
  have r: "\<bar>rest\<bar> < den" and b: "\<bar>secs * den\<bar> \<le> \<bar>t * num\<bar>"
      "0 \<le> t * num \<Longrightarrow> 0 \<le> secs * den" "t * num \<le> 0 \<Longrightarrow> secs * den \<le> 0"
    using sdiv_times_bound [OF assms(1), of "t * num"] by (simp_all add: rest_def secs_def)
  have ranges: "ptrdiff_range (secs * den)" "ptrdiff_range rest"
    using True b unfolding rest_def by (cases "0 \<le> t * num"; linarith)+
  have "\<bar>rest * (1000000000 div g)\<bar> \<le> den * (1000000000 div g)"
    using r g(1) by (simp add: abs_mult mult_right_mono pos_imp_zdiv_nonneg_iff)
  also have "\<dots> = den div g * 1000000000"
    using g(2,3) by (metis mult.assoc mult.commute)
  also have "\<dots> < 2 ^ 63"
    using assms(2) by (simp add: g_def)
  finally have scaled: "ptrdiff_range (rest * (1000000000 div g))"
    by linarith
  have "rest * (1000000000 div g) sdiv (den div g) = rest * 1000000000 sdiv den"
    using sdiv_cancel [OF g(1), of "rest * (1000000000 div g)" "den div g"] g(2,3) by (simp add: mult.assoc)
  then show ?thesis
    using True ranges scaled
    by (simp add: sleep_spec_def chrono_cast_def chrono_count_def exact_spec_def Let_def sdiv_one
        left_diff_distrib flip: g_def secs_def) (simp add: rest_def left_diff_distrib)
next
  case False
  then show ?thesis
    by (simp only: sleep_spec_def chrono_cast_def chrono_count_def cxx_simps if_False)
qed

section \<open>Properties\<close>

fun is_stat :: "'f ring_cb \<Rightarrow> bool" where
  "is_stat (On_stat buf a f) = True"
| "is_stat cb = False"

text \<open>
  Every completion of \<open>open\<close>, \<open>close\<close>, \<open>read\<close> and \<open>stat\<close> posts exactly one call, of the handler the
  operation was started with. When the kernel fails with error \<open>e\<close>, the handler is told \<open>e\<close> and gets
  no value, except by \<open>stat\<close>, which passes on the negative result \<open>-e\<close> as the code; when the kernel
  succeeds, no handler is told an error, and those of \<open>open\<close> and \<open>read\<close> get the descriptor and the
  number of bytes unchanged.
\<close>

lemma ring_callback_outcome:
  assumes "executor post pending" and "0 < e" and "e < 2 ^ 31" and "n < 2 ^ 31"
  shows "\<exists>failed ok.
     pending (exec (ring_callback post cb (- word_of_nat e) w)) = add_mset failed (pending (exec w))
   \<and> handler failed = callback_handler cb \<and> delivered failed = None
   \<and> reported failed = (if is_stat cb then - word_of_nat e else word_of_nat e)
   \<and> pending (exec (ring_callback post cb (word_of_nat n) w)) = add_mset ok (pending (exec w))
   \<and> handler ok = callback_handler cb \<and> reported ok = 0
   \<and> delivered ok = (case cb of On_open f \<Rightarrow> Some (Handle (word_of_nat n)) | On_close f \<Rightarrow> None
        | On_read f \<Rightarrow> Some (Count (word_of_nat n)) | On_stat buf a f \<Rightarrow> Some Done_value)"
  unfolding ring_callback_exec executor.pending_post [OF assms(1)]
  using word_neg_of_nat [OF assms(2,3)] word_nonneg_of_nat [OF assms(4)]
  by (intro exI [of _ "callback_call cb (- word_of_nat e)"] exI [of _ "callback_call cb (word_of_nat n)"])
    (cases cb; simp add: callback_call_def open_outcome_def close_outcome_def read_outcome_def
      stat_outcome_def)

lemma ring_callback_outcome_witness:
  "\<forall>st. \<exists>failed. uec_items (exec (ring_callback uec_post (On_open (5 :: nat)) (- 2)
       \<lparr>exec = uec_init, stats = st\<rparr>)) = add_mset failed (uec_items uec_init)
     \<and> handler failed = 5 \<and> reported failed = 2"
proof
  fix st
  show "\<exists>failed. uec_items (exec (ring_callback uec_post (On_open (5 :: nat)) (- 2)
       \<lparr>exec = uec_init, stats = st\<rparr>)) = add_mset failed (uec_items uec_init)
     \<and> handler failed = 5 \<and> reported failed = 2"
    using ring_callback_outcome [OF uec.executor_axioms, of 2 7 "On_open (5 :: nat)"
        "\<lparr>exec = uec_init, stats = st\<rparr>"] by auto
qed

text \<open>
  C25: The mode string of \<open>async_open\<close>, for every string: what counts is only which characters occur
  before the first comma or the end. Exactly one of \<open>r\<close>, \<open>w\<close>, \<open>a\<close> must, or the call throws; then the
  flags are those of \<open>fopen\<close>: access by \<open>+\<close> and the letter, creation with truncation for \<open>w\<close>, with
  appending for \<open>a\<close>, and close-on-exec and exclusive creation on top. Other characters, repetitions
  and the order do not matter.
\<close>

theorem open_mode_flags_spec:
  "open_mode_flags k s =
    (let S = mode_chars s; base = S \<inter> {CHR ''r'', CHR ''w'', CHR ''a''}
     in if card base \<noteq> 1 then Inl Invalid_argument
        else Inr ((if CHR ''e'' \<in> S then o_cloexec k else 0) OR (if CHR ''x'' \<in> S then o_excl k else 0)
          OR (if CHR ''+'' \<in> S then o_rdwr k
              else if CHR ''r'' \<in> S then o_rdonly k else o_wronly k)
          OR (if CHR ''w'' \<in> S then o_creat k OR o_trunc k
              else if CHR ''a'' \<in> S then o_creat k OR o_append k else 0)))"
  by (cases "CHR ''r'' \<in> mode_chars s"; cases "CHR ''w'' \<in> mode_chars s"; cases "CHR ''a'' \<in> mode_chars s")
    (simp_all add: open_mode_flags_def scan_mode_bits Let_def ac_simps)

text \<open>
  \<open>stat\<close> encodes a device number so that both halves can be read back: the upper 32 bits are the
  major, the lower the minor number, for the device of the file and the one it stands for; and it
  copies the other fields unchanged.
\<close>

lemma stat_of_statx_roundtrip:
  "drop_bit 32 (st_dev (stat_of_statx x)) = ucast (stx_dev_major x)
   \<and> take_bit 32 (st_dev (stat_of_statx x)) = ucast (stx_dev_minor x)
   \<and> drop_bit 32 (st_rdev (stat_of_statx x)) = ucast (stx_rdev_major x)
   \<and> take_bit 32 (st_rdev (stat_of_statx x)) = ucast (stx_rdev_minor x)
   \<and> ucast (st_nlink (stat_of_statx x)) = stx_nlink x \<and> ucast (st_mode (stat_of_statx x)) = stx_mode x
   \<and> ucast (st_blksize (stat_of_statx x)) = stx_blksize x
   \<and> st_uid (stat_of_statx x) = stx_uid x \<and> st_gid (stat_of_statx x) = stx_gid x
   \<and> st_size (stat_of_statx x) = stx_size x \<and> st_ino (stat_of_statx x) = stx_ino x
   \<and> st_blocks (stat_of_statx x) = stx_blocks x \<and> st_atim (stat_of_statx x) = stx_atime x
   \<and> st_mtim (stat_of_statx x) = stx_mtime x \<and> st_ctim (stat_of_statx x) = stx_ctime x"
  by (simp add: stat_of_statx_def device_parts ucast_back)

text \<open>
  C32: The conversion of a duration or time point for \<open>sleep\<close>, in each of its three forms, for every
  number of ticks of a period of \<open>num\<close>/\<open>den\<close> seconds (with \<open>den\<close> at most nine times $10^9$ after cancelling
  against $10^9$, which all periods of the library satisfy): when the duration in units of 1/\<open>den\<close>
  seconds fits 64 bits, no step of the conversion overflows, the seconds and nanoseconds together are
  the duration rounded towards zero to nanoseconds, and the nanoseconds stay below one second, with
  the sign of the duration; otherwise, as for a 64-bit number of hours beyond 292 billion years, the
  conversion overflows, which is undefined.
\<close>

theorem sleep_spec_split:
  assumes "0 < num" and "0 < den" and "den div gcd 1000000000 den \<le> 9000000000"
    and "s \<in> {sleep_for num den t, sleep_until_steady abs_flag num den t, sleep_until_system abs_flag realtime num den t}"
  shows "if ptrdiff_range (t * num)
         then \<exists>spec flags. s = Inr (spec, flags)
           \<and> ts_sec spec * 1000000000 + ts_nsec spec = t * num * 1000000000 sdiv den
           \<and> \<bar>ts_nsec spec\<bar> < 1000000000
           \<and> (0 \<le> t \<longrightarrow> 0 \<le> ts_nsec spec) \<and> (t \<le> 0 \<longrightarrow> ts_nsec spec \<le> 0)
         else s = Inl Undefined"
proof -
  have "\<exists>flags. s = cxx_bind (sleep_spec num den t) (\<lambda>spec. Inr (spec, flags))"
    using assms(4) by (auto simp: sleep_for_def sleep_until_steady_def sleep_until_system_def)
  then show ?thesis
    unfolding sleep_spec_eq [OF assms(2,3)] using exact_spec_parts [OF assms(1,2), of t] by auto
qed

theorem sleep_spec_split_witness:
  "(\<exists>spec flags. sleep_for 1 1000 (- 2500) = Inr (spec, flags)
      \<and> ts_sec spec * 1000000000 + ts_nsec spec = - 2500000000 \<and> ts_nsec spec \<le> 0)
   \<and> sleep_for 3600 1 (2 ^ 62) = Inl Undefined"
  using sleep_spec_split [of 1 1000 "sleep_for 1 1000 (- 2500)" "- 2500" 0 0]
    sleep_spec_split [of 3600 1 "sleep_for 3600 1 (2 ^ 62)" "2 ^ 62" 0 0] by (auto simp: signed_divide_int_def)

end
