(* ===== verification/Uring_Threads.thy ===== *)
theory Uring_Threads
  imports Uring_Context
begin

text \<open>
  \<open>services/uring_service.hpp\<close>: \<open>synchronized_uring_context\<close> used by several threads. \<open>Uring_Context\<close>
  models each of its calls as one step; here a call is the sequence of its accesses to the two mutexes,
  to the submission queue and to the completion queue, and the calls of all threads interleave.

  \<open>'q\<close> is the state of the submission queue, on which \<open>get_sqe\<close>, \<open>put_sqe\<close> and \<open>ring_submit\<close> of
  liburing act; the completion queue is a list to which the kernel appends. \<open>section\<close>, \<open>history\<close>,
  \<open>arrived\<close> and \<open>delivered\<close> are ghost fields: the call that holds \<open>m_sq_mutex\<close> with the queue it found,
  the calls that have released it with their results, and the entries of the completion queue so far.
\<close>

section \<open>State\<close>

datatype thread_pc =
    Outside
  | Sub_lock "entry list"          \<comment> \<open>\<open>submit_many\<close>, before locking \<open>m_sq_mutex\<close>\<close>
  | Sub_next "entry list"          \<comment> \<open>at the loop over the submissions\<close>
  | Sub_copy nat entry "entry list" \<comment> \<open>with a slot, before \<open>memcpy\<close>\<close>
  | Sub_flush entry "entry list"   \<comment> \<open>the queue was full: in \<open>submit_to_kernel\<close>\<close>
  | Sub_return void_result         \<comment> \<open>before unlocking \<open>m_sq_mutex\<close>\<close>
  | Wait_lock nat nat              \<comment> \<open>\<open>wait_many\<close>, before locking \<open>m_cq_mutex\<close>\<close>
  | Wait_sq nat nat                \<comment> \<open>before locking \<open>m_sq_mutex\<close>\<close>
  | Wait_flush nat nat             \<comment> \<open>in \<open>submit_to_kernel\<close>\<close>
  | Wait_flushed void_result nat nat \<comment> \<open>before unlocking \<open>m_sq_mutex\<close>\<close>
  | Wait_cqe nat nat               \<comment> \<open>before \<open>io_uring_wait_cqe_nr\<close>\<close>
  | Wait_copy nat                  \<comment> \<open>before the loop over the completions\<close>
  | Wait_return void_result        \<comment> \<open>before unlocking \<open>m_cq_mutex\<close>\<close>

datatype sq_call = Submit_many "entry list" | Flush

record 'q sync_ring =
  sq :: 'q
  cq :: "cqe list"
  sq_owner :: "nat option"
  cq_owner :: "nat option"
  pcs :: "nat \<Rightarrow> thread_pc"
  aborted :: bool
  sq_section :: "(sq_call \<times> 'q) option"
  history :: "(sq_call \<times> void_result) list"
  arrived :: "cqe list"
  delivered :: "cqe list"

definition sync_ring_init :: "'q \<Rightarrow> 'q sync_ring" where
  "sync_ring_init u = \<lparr>sq = u, cq = [], sq_owner = None, cq_owner = None, pcs = (\<lambda>_. Outside),
     aborted = False, sq_section = None, history = [], arrived = [], delivered = []\<rparr>"

abbreviation goto :: "nat \<Rightarrow> thread_pc \<Rightarrow> 'q sync_ring \<Rightarrow> 'q sync_ring" where
  "goto t pc s \<equiv> s\<lparr>pcs := (pcs s)(t := pc)\<rparr>"

definition enter_sq :: "nat \<Rightarrow> sq_call \<Rightarrow> 'q sync_ring \<Rightarrow> 'q sync_ring" where
  "enter_sq t c s = s\<lparr>sq_owner := Some t, sq_section := Some (c, sq s)\<rparr>"

definition leave_sq :: "void_result \<Rightarrow> 'q sync_ring \<Rightarrow> 'q sync_ring" where
  "leave_sq r s = s\<lparr>sq_owner := None, sq_section := None,
     history := history s @ [(fst (the (sq_section s)), r)]\<rparr>"

section \<open>Steps\<close>

text \<open>
  One round of the loop of \<open>submit_to_kernel\<close>: go round again, abort, or return.
\<close>

datatype 'q flush_outcome = Again 'q | Abort | Result void_result 'q

definition flush_round :: "'q liburing \<Rightarrow> 'q \<Rightarrow> 'q flush_outcome" where
  "flush_round lu u =
     (case ring_submit lu u of (err, u') \<Rightarrow>
        if err = 0 then Again u'
        else if err = EINTR then Again u'
        else if err = EBADR then Abort
        else Result (void_from_error (- err)) u')"

inductive ring_step :: "'q liburing \<Rightarrow> nat \<Rightarrow> 'q sync_ring \<Rightarrow> 'q sync_ring \<Rightarrow> bool"
  for lu :: "'q liburing" and t :: nat
where
  sub_call: "\<not> aborted s \<Longrightarrow> pcs s t = Outside \<Longrightarrow> ring_step lu t s (goto t (Sub_lock es) s)"
| sub_lock: "\<not> aborted s \<Longrightarrow> pcs s t = Sub_lock es \<Longrightarrow> sq_owner s = None \<Longrightarrow>
     ring_step lu t s (goto t (Sub_next es) (enter_sq t (Submit_many es) s))"
| sub_end: "\<not> aborted s \<Longrightarrow> pcs s t = Sub_next [] \<Longrightarrow>
     ring_step lu t s (goto t (Sub_return void_from_value) s)"
| sub_slot: "\<not> aborted s \<Longrightarrow> pcs s t = Sub_next (e # es) \<Longrightarrow> get_sqe lu (sq s) = Some (slot, u) \<Longrightarrow>
     ring_step lu t s (goto t (Sub_copy slot e es) (s\<lparr>sq := u\<rparr>))"
| sub_copy: "\<not> aborted s \<Longrightarrow> pcs s t = Sub_copy slot e es \<Longrightarrow>
     ring_step lu t s (goto t (Sub_next es) (s\<lparr>sq := put_sqe lu slot e (sq s)\<rparr>))"
| sub_full: "\<not> aborted s \<Longrightarrow> pcs s t = Sub_next (e # es) \<Longrightarrow> get_sqe lu (sq s) = None \<Longrightarrow>
     ring_step lu t s (goto t (Sub_flush e es) s)"
| sub_again: "\<not> aborted s \<Longrightarrow> pcs s t = Sub_flush e es \<Longrightarrow> flush_round lu (sq s) = Again u \<Longrightarrow>
     ring_step lu t s (s\<lparr>sq := u\<rparr>)"
| sub_abort: "\<not> aborted s \<Longrightarrow> pcs s t = Sub_flush e es \<Longrightarrow> flush_round lu (sq s) = Abort \<Longrightarrow>
     ring_step lu t s (s\<lparr>aborted := True\<rparr>)"
| sub_flushed: "\<not> aborted s \<Longrightarrow> pcs s t = Sub_flush e es \<Longrightarrow> flush_round lu (sq s) = Result r u \<Longrightarrow>
     ring_step lu t s
       (goto t (if void_has_error r then Sub_return r else Sub_next (e # es)) (s\<lparr>sq := u\<rparr>))"
| sub_return: "\<not> aborted s \<Longrightarrow> pcs s t = Sub_return r \<Longrightarrow> ring_step lu t s (goto t Outside (leave_sq r s))"
| wait_call: "\<not> aborted s \<Longrightarrow> pcs s t = Outside \<Longrightarrow> ring_step lu t s (goto t (Wait_lock sz nr) s)"
| wait_lock: "\<not> aborted s \<Longrightarrow> pcs s t = Wait_lock sz nr \<Longrightarrow> cq_owner s = None \<Longrightarrow>
     ring_step lu t s (goto t (Wait_sq sz nr) (s\<lparr>cq_owner := Some t\<rparr>))"
| wait_sq: "\<not> aborted s \<Longrightarrow> pcs s t = Wait_sq sz nr \<Longrightarrow> sq_owner s = None \<Longrightarrow>
     ring_step lu t s (goto t (Wait_flush sz nr) (enter_sq t Flush s))"
| wait_again: "\<not> aborted s \<Longrightarrow> pcs s t = Wait_flush sz nr \<Longrightarrow> flush_round lu (sq s) = Again u \<Longrightarrow>
     ring_step lu t s (s\<lparr>sq := u\<rparr>)"
| wait_abort: "\<not> aborted s \<Longrightarrow> pcs s t = Wait_flush sz nr \<Longrightarrow> flush_round lu (sq s) = Abort \<Longrightarrow>
     ring_step lu t s (s\<lparr>aborted := True\<rparr>)"
| wait_flushed: "\<not> aborted s \<Longrightarrow> pcs s t = Wait_flush sz nr \<Longrightarrow> flush_round lu (sq s) = Result r u \<Longrightarrow>
     ring_step lu t s (goto t (Wait_flushed r sz nr) (s\<lparr>sq := u\<rparr>))"
| wait_unlock: "\<not> aborted s \<Longrightarrow> pcs s t = Wait_flushed r sz nr \<Longrightarrow>
     ring_step lu t s (goto t (if void_has_error r then Wait_return r else Wait_cqe sz nr) (leave_sq r s))"
| wait_cqe: "\<not> aborted s \<Longrightarrow> pcs s t = Wait_cqe sz nr \<Longrightarrow> nr \<le> length (cq s) \<Longrightarrow>
     ring_step lu t s (goto t (Wait_copy sz) s)"
| wait_fails: "\<not> aborted s \<Longrightarrow> pcs s t = Wait_cqe sz nr \<Longrightarrow> err \<noteq> 0 \<Longrightarrow>
     ring_step lu t s (goto t (Wait_return (void_from_error (- err))) s)"
| wait_copy: "\<not> aborted s \<Longrightarrow> pcs s t = Wait_copy sz \<Longrightarrow>
     ring_step lu t s (goto t (Wait_return void_from_value)
       (s\<lparr>delivered := delivered s @ List.take sz (cq s), cq := drop sz (cq s)\<rparr>))"
| wait_return: "\<not> aborted s \<Longrightarrow> pcs s t = Wait_return r \<Longrightarrow>
     ring_step lu t s (goto t Outside (s\<lparr>cq_owner := None\<rparr>))"

inductive ring_reach :: "'q liburing \<Rightarrow> 'q sync_ring \<Rightarrow> 'q sync_ring \<Rightarrow> bool" for lu :: "'q liburing" where
  start: "ring_reach lu s s"
| thread: "ring_reach lu s s' \<Longrightarrow> ring_step lu t s' s'' \<Longrightarrow> ring_reach lu s s''"
| kernel: "ring_reach lu s s' \<Longrightarrow> ring_reach lu s (s'\<lparr>cq := cq s' @ [c], arrived := arrived s' @ [c]\<rparr>)"

section \<open>Mutual exclusion\<close>

primrec in_sq :: "thread_pc \<Rightarrow> bool" where
  "in_sq Outside = False"
| "in_sq (Sub_lock es) = False"
| "in_sq (Sub_next es) = True"
| "in_sq (Sub_copy slot e es) = True"
| "in_sq (Sub_flush e es) = True"
| "in_sq (Sub_return r) = True"
| "in_sq (Wait_lock sz nr) = False"
| "in_sq (Wait_sq sz nr) = False"
| "in_sq (Wait_flush sz nr) = True"
| "in_sq (Wait_flushed r sz nr) = True"
| "in_sq (Wait_cqe sz nr) = False"
| "in_sq (Wait_copy sz) = False"
| "in_sq (Wait_return r) = False"

primrec in_cq :: "thread_pc \<Rightarrow> bool" where
  "in_cq Outside = False"
| "in_cq (Sub_lock es) = False"
| "in_cq (Sub_next es) = False"
| "in_cq (Sub_copy slot e es) = False"
| "in_cq (Sub_flush e es) = False"
| "in_cq (Sub_return r) = False"
| "in_cq (Wait_lock sz nr) = False"
| "in_cq (Wait_sq sz nr) = True"
| "in_cq (Wait_flush sz nr) = True"
| "in_cq (Wait_flushed r sz nr) = True"
| "in_cq (Wait_cqe sz nr) = True"
| "in_cq (Wait_copy sz) = True"
| "in_cq (Wait_return r) = True"

definition owners_ok :: "'q sync_ring \<Rightarrow> bool" where
  "owners_ok s \<longleftrightarrow> (\<forall>t. in_sq (pcs s t) \<longleftrightarrow> sq_owner s = Some t) \<and> (\<forall>t. in_cq (pcs s t) \<longleftrightarrow> cq_owner s = Some t)"

lemma owners_okD:
  "owners_ok s \<Longrightarrow> in_sq (pcs s t) \<longleftrightarrow> sq_owner s = Some t"
  "owners_ok s \<Longrightarrow> in_cq (pcs s t) \<longleftrightarrow> cq_owner s = Some t"
  by (simp_all add: owners_ok_def)

lemma owners_ok_step:
  assumes "ring_step lu t s s'" and "owners_ok s"
  shows "owners_ok s'"
  using assms(1) owners_okD [OF assms(2), of t] assms(2)
  by (cases rule: ring_step.cases) (auto simp: owners_ok_def enter_sq_def leave_sq_def)

section \<open>Serialisation\<close>

text \<open>What a call does to the submission queue according to \<open>Uring_Context\<close>, in one step.\<close>

definition run_section :: "'q liburing \<Rightarrow> sq_call \<Rightarrow> 'q \<Rightarrow> (void_result \<times> 'q) run" where
  "run_section lu c u =
     (case c of Submit_many es \<Rightarrow> sync_submit_many lu es u | Flush \<Rightarrow> submit_to_kernel lu u)"

text \<open>The calls of a history one after the other, each with the result that it is recorded with.\<close>

fun serial :: "'q liburing \<Rightarrow> (sq_call \<times> void_result) list \<Rightarrow> 'q \<Rightarrow> 'q option" where
  "serial lu [] u = Some u"
| "serial lu ((c, r) # h) u =
     (case run_section lu c u of
        Some (Inr (r', u')) \<Rightarrow> if r' = r then serial lu h u' else None
      | _ \<Rightarrow> None)"

lemma serial_append:
  "serial lu (h @ h') u = (case serial lu h u of None \<Rightarrow> None | Some u' \<Rightarrow> serial lu h' u')"
  by (induction lu h u rule: serial.induct) (auto split: option.splits sum.splits)

text \<open>What is left of the call of a thread, as a function of the queue.\<close>

definition residual :: "'q liburing \<Rightarrow> thread_pc \<Rightarrow> 'q \<Rightarrow> (void_result \<times> 'q) run" where
  "residual lu pc u =
     (case pc of
        Sub_next es \<Rightarrow> sync_submit_many lu es u
      | Sub_copy slot e es \<Rightarrow> sync_submit_many lu es (put_sqe lu slot e u)
      | Sub_flush e es \<Rightarrow>
          run_bind (submit_to_kernel lu u) (\<lambda>(r, u').
            if void_has_error r then Some (Inr (r, u')) else sync_submit_many lu (e # es) u')
      | Sub_return r \<Rightarrow> Some (Inr (r, u))
      | Wait_flush sz nr \<Rightarrow> submit_to_kernel lu u
      | Wait_flushed r sz nr \<Rightarrow> Some (Inr (r, u))
      | _ \<Rightarrow> None)"

lemma submit_to_kernel_round:
  "submit_to_kernel lu u =
     (case flush_round lu u of
        Again u' \<Rightarrow> submit_to_kernel lu u'
      | Abort \<Rightarrow> Some (Inl Abort_called)
      | Result r u' \<Rightarrow> Some (Inr (r, u')))"
  by (subst submit_to_kernel.simps) (simp add: flush_round_def split: prod.split)

lemma sync_get_slot_full:
  "get_sqe lu u = None \<Longrightarrow> sync_submit_many lu (e # es) u =
     run_bind (submit_to_kernel lu u) (\<lambda>(r, u').
       if void_has_error r then Some (Inr (r, u')) else sync_submit_many lu (e # es) u')"
  by (simp add: sync_get_slot.simps [of lu u])
    (auto simp: run_bind_def cxx_then_def split: option.split sum.split)

lemma sync_get_slot_room:
  "get_sqe lu u = Some (slot, u') \<Longrightarrow>
   sync_submit_many lu (e # es) u = sync_submit_many lu es (put_sqe lu slot e u')"
  by (simp add: sync_get_slot.simps [of lu u])

text \<open>The steps of the owner of \<open>m_sq_mutex\<close> inside its section keep what is left of its call.\<close>

lemma residual_step:
  assumes "ring_step lu t s s'" and "in_sq (pcs s t)" and "in_sq (pcs s' t)" and "\<not> aborted s'"
  shows "residual lu (pcs s' t) (sq s') = residual lu (pcs s t) (sq s)"
  using assms
  by (cases rule: ring_step.cases)
    (auto simp: residual_def sync_get_slot_room sync_get_slot_full submit_to_kernel_round [of lu "sq s"]
      simp del: sync_submit_many.simps(2) split: if_splits)

lemma leaving_step:
  assumes "ring_step lu t s s'" and "in_sq (pcs s t)" and "\<not> in_sq (pcs s' t)"
  shows "\<exists>r. residual lu (pcs s t) (sq s) = Some (Inr (r, sq s)) \<and> sq s' = sq s
    \<and> sq_owner s' = None \<and> sq_section s' = None \<and> history s' = history s @ [(fst (the (sq_section s)), r)]"
  using assms by (cases rule: ring_step.cases) (auto simp: residual_def leave_sq_def split: if_splits)

lemma entering_step:
  assumes "ring_step lu t s s'" and "\<not> in_sq (pcs s t)" and "in_sq (pcs s' t)"
  shows "\<exists>c. sq_owner s = None \<and> sq s' = sq s \<and> sq_owner s' = Some t \<and> sq_section s' = Some (c, sq s)
    \<and> history s' = history s \<and> residual lu (pcs s' t) (sq s) = run_section lu c (sq s)"
  using assms
  by (cases rule: ring_step.cases) (auto simp: residual_def enter_sq_def run_section_def split: if_splits)

lemma staying_step:
  assumes "ring_step lu t s s'" and "in_sq (pcs s t) \<longleftrightarrow> in_sq (pcs s' t)"
  shows "sq_owner s' = sq_owner s \<and> sq_section s' = sq_section s \<and> history s' = history s
    \<and> (in_sq (pcs s t) \<or> sq s' = sq s)"
  using assms
  by (cases rule: ring_step.cases) (auto simp: enter_sq_def leave_sq_def split: if_splits)

lemma other_threads: "ring_step lu t s s' \<Longrightarrow> t' \<noteq> t \<Longrightarrow> pcs s' t' = pcs s t'"
  by (cases rule: ring_step.cases) (auto simp: enter_sq_def leave_sq_def)

lemma step_not_aborted: "ring_step lu t s s' \<Longrightarrow> \<not> aborted s"
  by (cases rule: ring_step.cases)

text \<open>
  The submission queue is what the finished calls made of it one after the other, and, while a call
  holds the mutex, what that call has done so far.
\<close>

definition serial_ok :: "'q liburing \<Rightarrow> 'q \<Rightarrow> 'q sync_ring \<Rightarrow> bool" where
  "serial_ok lu u0 s \<longleftrightarrow>
     (case sq_section s of
        None \<Rightarrow> sq_owner s = None \<and> serial lu (history s) u0 = Some (sq s)
      | Some (c, u1) \<Rightarrow> \<exists>t. sq_owner s = Some t \<and> serial lu (history s) u0 = Some u1
          \<and> (aborted s \<or> run_section lu c u1 = residual lu (pcs s t) (sq s)))"

lemma serial_okD:
  assumes "serial_ok lu u0 s" and "sq_owner s = Some t"
  obtains c u1 where "sq_section s = Some (c, u1)" "serial lu (history s) u0 = Some u1"
    "aborted s \<or> run_section lu c u1 = residual lu (pcs s t) (sq s)"
  using assms by (auto simp: serial_ok_def split: option.splits)

lemma serial_ok_free: "serial_ok lu u0 s \<Longrightarrow> sq_owner s = None \<Longrightarrow>
   sq_section s = None \<and> serial lu (history s) u0 = Some (sq s)"
  by (auto simp: serial_ok_def split: option.splits)

lemma serial_ok_step:
  assumes step: "ring_step lu t s s'" and owners: "owners_ok s" and ok: "serial_ok lu u0 s"
  shows "serial_ok lu u0 s'"
proof (cases "in_sq (pcs s t)")
  case True
  then have "sq_owner s = Some t"
    using owners_okD(1) [OF owners] by simp
  with ok obtain c u1 where sec: "sq_section s = Some (c, u1)" "serial lu (history s) u0 = Some u1"
    "run_section lu c u1 = residual lu (pcs s t) (sq s)"
    using step_not_aborted [OF step] by (elim serial_okD) auto
  show ?thesis
  proof (cases "in_sq (pcs s' t)")
    case inside: True
    have "aborted s' \<or> residual lu (pcs s' t) (sq s') = residual lu (pcs s t) (sq s)"
      using residual_step [OF step True inside] by blast
    then show ?thesis
      using staying_step [OF step] True inside sec \<open>sq_owner s = Some t\<close> by (auto simp: serial_ok_def)
  next
    case False
    then obtain r where "residual lu (pcs s t) (sq s) = Some (Inr (r, sq s))" "sq s' = sq s"
      "sq_owner s' = None" "sq_section s' = None" "history s' = history s @ [(fst (the (sq_section s)), r)]"
      using leaving_step [OF step True] by blast
    then show ?thesis
      using sec by (simp add: serial_ok_def serial_append)
  qed
next
  case False
  show ?thesis
  proof (cases "in_sq (pcs s' t)")
    case True
    then obtain c where "sq_owner s = None" "sq s' = sq s" "sq_owner s' = Some t"
      "sq_section s' = Some (c, sq s)" "history s' = history s"
      "residual lu (pcs s' t) (sq s) = run_section lu c (sq s)"
      using entering_step [OF step False] by blast
    then show ?thesis
      using serial_ok_free [OF ok] by (auto simp: serial_ok_def)
  next
    case outside: False
    then have same: "sq_owner s' = sq_owner s" "sq_section s' = sq_section s" "history s' = history s" "sq s' = sq s"
      using staying_step [OF step] False by auto
    have "pcs s' t' = pcs s t'" if "sq_owner s = Some t'" for t'
      using other_threads [OF step, of t'] owners_okD(1) [OF owners, of t'] that False by auto
    then show ?thesis
      using ok step_not_aborted [OF step] unfolding serial_ok_def same by (auto split: option.splits)
  qed
qed

text \<open>No completion is lost or delivered twice.\<close>

definition cq_ok :: "'q sync_ring \<Rightarrow> bool" where
  "cq_ok s \<longleftrightarrow> arrived s = delivered s @ cq s"

lemma cq_ok_step: "ring_step lu t s s' \<Longrightarrow> cq_ok s \<Longrightarrow> cq_ok s'"
  by (cases rule: ring_step.cases) (auto simp: cq_ok_def enter_sq_def leave_sq_def)

definition ring_ok :: "'q liburing \<Rightarrow> 'q \<Rightarrow> 'q sync_ring \<Rightarrow> bool" where
  "ring_ok lu u0 s \<longleftrightarrow> owners_ok s \<and> serial_ok lu u0 s \<and> cq_ok s"

lemma ring_ok_init: "ring_ok lu u0 (sync_ring_init u0)"
  by (simp add: ring_ok_def owners_ok_def serial_ok_def cq_ok_def sync_ring_init_def)

lemma ring_ok_step: "ring_step lu t s s' \<Longrightarrow> ring_ok lu u0 s \<Longrightarrow> ring_ok lu u0 s'"
  by (auto simp: ring_ok_def intro: owners_ok_step serial_ok_step cq_ok_step)

lemma ring_ok_kernel:
  "ring_ok lu u0 s \<Longrightarrow> ring_ok lu u0 (s\<lparr>cq := cq s @ [c], arrived := arrived s @ [c]\<rparr>)"
  by (auto simp: ring_ok_def owners_ok_def serial_ok_def cq_ok_def split: option.splits)

lemma ring_ok_reach: "ring_reach lu s s' \<Longrightarrow> ring_ok lu u0 s \<Longrightarrow> ring_ok lu u0 s'"
  by (induction rule: ring_reach.induct) (auto intro: ring_ok_step ring_ok_kernel)

section \<open>Progress\<close>

text \<open>
  A thread in \<open>io_uring_wait_cqe_nr\<close> for which too few entries have arrived waits for the kernel. That the
  call may fail at any time (\<open>wait_fails\<close>) is not counted as progress: apart from such a wait only the
  two mutexes can hold a thread up.
\<close>

definition waits_for_kernel :: "'q sync_ring \<Rightarrow> nat \<Rightarrow> bool" where
  "waits_for_kernel s t = (case pcs s t of Wait_cqe sz nr \<Rightarrow> length (cq s) < nr | _ \<Rightarrow> False)"

lemma waits_for_kernelD: "waits_for_kernel s t \<Longrightarrow> \<exists>sz nr. pcs s t = Wait_cqe sz nr \<and> length (cq s) < nr"
  by (simp add: waits_for_kernel_def split: thread_pc.splits)

lemma thread_enabled:
  assumes "\<not> aborted s" and "pcs s t \<noteq> Outside" and "\<not> waits_for_kernel s t"
    and "\<And>es. pcs s t = Sub_lock es \<Longrightarrow> sq_owner s = None"
    and "\<And>sz nr. pcs s t = Wait_lock sz nr \<Longrightarrow> cq_owner s = None"
    and "\<And>sz nr. pcs s t = Wait_sq sz nr \<Longrightarrow> sq_owner s = None"
  shows "\<exists>s'. ring_step lu t s s'"
proof (cases "pcs s t")
  case (Sub_lock es)
  then show ?thesis using ring_step.sub_lock [OF assms(1)] assms(4) by blast
next
  case (Sub_next es)
  show ?thesis
  proof (cases es)
    case Nil
    then show ?thesis using ring_step.sub_end [OF assms(1)] Sub_next by blast
  next
    case (Cons e es')
    with Sub_next have at: "pcs s t = Sub_next (e # es')"
      by simp
    show ?thesis
      using ring_step.sub_full [OF assms(1) at] ring_step.sub_slot [OF assms(1) at]
      by (cases "get_sqe lu (sq s)") (blast, metis surj_pair)
  qed
next
  case (Sub_copy slot e es)
  then show ?thesis using ring_step.sub_copy [OF assms(1)] by blast
next
  case (Sub_flush e es)
  then show ?thesis
    using ring_step.sub_again [OF assms(1) Sub_flush] ring_step.sub_abort [OF assms(1) Sub_flush]
      ring_step.sub_flushed [OF assms(1) Sub_flush]
    by (cases "flush_round lu (sq s)") blast+
next
  case (Sub_return r)
  then show ?thesis using ring_step.sub_return [OF assms(1)] by blast
next
  case (Wait_lock sz nr)
  then show ?thesis using ring_step.wait_lock [OF assms(1)] assms(5) by blast
next
  case (Wait_sq sz nr)
  then show ?thesis using ring_step.wait_sq [OF assms(1)] assms(6) by blast
next
  case (Wait_flush sz nr)
  then show ?thesis
    using ring_step.wait_again [OF assms(1) Wait_flush] ring_step.wait_abort [OF assms(1) Wait_flush]
      ring_step.wait_flushed [OF assms(1) Wait_flush]
    by (cases "flush_round lu (sq s)") blast+
next
  case (Wait_flushed r sz nr)
  then show ?thesis using ring_step.wait_unlock [OF assms(1)] by blast
next
  case (Wait_cqe sz nr)
  then show ?thesis
    using ring_step.wait_cqe [OF assms(1) Wait_cqe] assms(3) by (auto simp: waits_for_kernel_def)
next
  case (Wait_copy sz)
  then show ?thesis using ring_step.wait_copy [OF assms(1)] by blast
next
  case (Wait_return r)
  then show ?thesis using ring_step.wait_return [OF assms(1)] by blast
qed (use assms(2) in simp)

text \<open>
  The mutexes are always taken in the same order, and nobody waits for the kernel with \<open>m_sq_mutex\<close>.
\<close>

lemma sq_owner_enabled:
  assumes "owners_ok s" and "\<not> aborted s" and "sq_owner s = Some t"
  shows "\<not> waits_for_kernel s t \<and> (\<exists>s'. ring_step lu t s s')"
proof -
  have in_sq: "in_sq (pcs s t)"
    using owners_okD(1) [OF assms(1)] assms(3) by simp
  then have "\<not> waits_for_kernel s t"
    by (auto dest: waits_for_kernelD)
  with assms(2) in_sq show ?thesis
    by (intro conjI thread_enabled) auto
qed

lemma cq_owner_enabled:
  assumes "owners_ok s" and "\<not> aborted s" and "sq_owner s = None" and "cq_owner s = Some t"
    and "\<not> waits_for_kernel s t"
  shows "\<exists>s'. ring_step lu t s s'"
proof -
  have "in_cq (pcs s t)"
    using owners_okD(2) [OF assms(1)] assms(4) by simp
  with assms(2,3,5) show ?thesis
    by (intro thread_enabled) auto
qed

definition moving :: "'q liburing \<Rightarrow> 'q sync_ring \<Rightarrow> bool" where
  "moving lu s \<longleftrightarrow> (\<exists>t s'. pcs s t \<noteq> Outside \<and> \<not> waits_for_kernel s t \<and> ring_step lu t s s')"

lemma movingI: "pcs s t \<noteq> Outside \<Longrightarrow> \<not> waits_for_kernel s t \<Longrightarrow> \<exists>s'. ring_step lu t s s' \<Longrightarrow> moving lu s"
  by (auto simp: moving_def)

lemma owner_inside: "owners_ok s \<Longrightarrow> sq_owner s = Some t \<or> cq_owner s = Some t \<Longrightarrow> pcs s t \<noteq> Outside"
  using owners_okD [of s t] by auto

lemma not_moving:
  assumes ok: "owners_ok s" and running: "\<not> aborted s" and inside: "pcs s t \<noteq> Outside" and still: "\<not> moving lu s"
  shows "\<exists>w. waits_for_kernel s w \<and> sq_owner s = None \<and> cq_owner s = Some w
     \<and> (\<forall>t. t \<noteq> w \<longrightarrow> pcs s t = Outside \<or> (\<exists>sz nr. pcs s t = Wait_lock sz nr))"
proof -
  have free: "sq_owner s = None"
    using sq_owner_enabled [OF ok running, of _ lu] owner_inside [OF ok] movingI [of s _ lu] still
    by (cases "sq_owner s") auto
  have kernel: "waits_for_kernel s w" if "cq_owner s = Some w" for w
    using cq_owner_enabled [OF ok running free that, of lu] owner_inside [OF ok, of w] movingI [of s w lu] still that
    by blast
  have blocked: "waits_for_kernel s t \<or> (cq_owner s \<noteq> None \<and> (\<exists>sz nr. pcs s t = Wait_lock sz nr))"
    if "pcs s t \<noteq> Outside" for t
  proof (rule ccontr)
    assume not: "\<not> ?thesis"
    then have "\<exists>s'. ring_step lu t s s'"
      using running that free by (intro thread_enabled) auto
    with not that still show False
      using movingI [of s t lu] by blast
  qed
  have owner: "cq_owner s = Some w" if "waits_for_kernel s w" for w
    using owners_okD(2) [OF ok, of w] waits_for_kernelD [OF that] by auto
  obtain w where w: "cq_owner s = Some w"
    using blocked [OF inside] owner by auto
  have "pcs s t = Outside \<or> (\<exists>sz nr. pcs s t = Wait_lock sz nr)" if "t \<noteq> w" for t
    using blocked [of t] owner [of t] w that by auto
  then show ?thesis
    using kernel [OF w] w free by blast
qed

text \<open>A call that does not finish keeps the mutexes.\<close>

definition stuck_waiter :: "'q liburing \<Rightarrow> nat \<Rightarrow> 'q sync_ring \<Rightarrow> bool" where
  "stuck_waiter lu t s \<longleftrightarrow> owners_ok s \<and> (\<exists>sz nr. pcs s t = Wait_flush sz nr)
     \<and> submit_to_kernel lu (sq s) = None \<and> \<not> aborted s"

lemma stuck_waiter_owns: "stuck_waiter lu t s \<Longrightarrow> sq_owner s = Some t \<and> cq_owner s = Some t"
  using owners_okD [of s t] by (auto simp: stuck_waiter_def)

lemma stuck_waiter_step:
  assumes step: "ring_step lu t' s s'" and stuck: "stuck_waiter lu t s"
  shows "stuck_waiter lu t s' \<and> history s' = history s"
proof (cases "t' = t")
  case True
  show ?thesis
    using step stuck owners_ok_step [OF step] True
    by (cases rule: ring_step.cases)
      (auto simp: stuck_waiter_def submit_to_kernel_round [of lu "sq s"] split: flush_outcome.splits)
next
  case False
  have out: "\<not> in_sq (pcs s t')"
    using owners_okD(1) [of s t'] stuck_waiter_owns [OF stuck] stuck False by (auto simp: stuck_waiter_def)
  moreover have "\<not> in_sq (pcs s' t')"
    using entering_step [OF step out] stuck_waiter_owns [OF stuck] by auto
  ultimately have "sq s' = sq s" "history s' = history s"
    using staying_step [OF step] by auto
  moreover have "\<not> aborted s'"
    using step out stuck by (cases rule: ring_step.cases) (auto simp: stuck_waiter_def enter_sq_def leave_sq_def)
  ultimately show ?thesis
    using stuck owners_ok_step [OF step] other_threads [OF step, of t] False by (auto simp: stuck_waiter_def)
qed

lemma stuck_waiter_reach:
  "ring_reach lu s s' \<Longrightarrow> stuck_waiter lu t s \<Longrightarrow> stuck_waiter lu t s' \<and> history s' = history s"
proof (induction rule: ring_reach.induct)
  case (thread s s' t' s'')
  then show ?case using stuck_waiter_step [of lu t' s' s'' t] by simp
next
  case (kernel s s' c)
  then show ?case by (simp add: stuck_waiter_def owners_ok_def)
qed simp

section \<open>Properties\<close>

text \<open>
  C12: The calls of \<open>submit_many\<close> and \<open>wait_many\<close> on a \<open>synchronized_uring_context\<close> are atomic: in every
  interleaving of any number of threads at most one thread is between locking and unlocking each of
  the two mutexes; whenever \<open>m_sq_mutex\<close> is free, the submission queue is the one that the calls which
  have released it would have left if they had run one after the other, each with the result it
  returned; and the completion entries that arrived are those delivered, in order and each once, and
  those still in the queue.
\<close>

theorem sync_calls_serialise:
  assumes "ring_reach lu (sync_ring_init u0) s"
  shows "(sq_owner s = None \<longrightarrow> serial lu (history s) u0 = Some (sq s))
    \<and> (in_sq (pcs s t) \<and> in_sq (pcs s t') \<longrightarrow> t = t') \<and> (in_cq (pcs s t) \<and> in_cq (pcs s t') \<longrightarrow> t = t')
    \<and> arrived s = delivered s @ cq s"
proof -
  have ok: "ring_ok lu u0 s"
    using ring_ok_reach [OF assms ring_ok_init] .
  then have "owners_ok s" "serial_ok lu u0 s" "cq_ok s"
    by (simp_all add: ring_ok_def)
  then show ?thesis
    using serial_ok_free [of lu u0 s] owners_okD [of s t] owners_okD [of s t'] by (auto simp: cq_ok_def)
qed

text \<open>
  C22: The two mutexes cannot deadlock, and waiting for the kernel does not keep the submission queue:
  in every reachable state of a process that has not aborted, the owner of \<open>m_sq_mutex\<close> can take its next
  step and is not waiting for the kernel; and if some thread is inside a call, then either some thread
  inside a call can go on without the kernel (be it only for another round of a loop), or one
  \<open>wait_many\<close> waits for entries that have not arrived, with \<open>m_cq_mutex\<close> only, and every other thread
  inside a call waits for \<open>m_cq_mutex\<close> in another \<open>wait_many\<close>: no \<open>submit_many\<close> is held up. Failures of
  \<open>io_uring_wait_cqe_nr\<close> do not count as steps here.
\<close>

theorem sync_deadlock_free:
  assumes "ring_reach lu (sync_ring_init u0) s" and "\<not> aborted s" and "pcs s t \<noteq> Outside"
  shows "(\<forall>t'. sq_owner s = Some t' \<longrightarrow> \<not> waits_for_kernel s t' \<and> (\<exists>s'. ring_step lu t' s s'))
    \<and> ((\<exists>t' s'. pcs s t' \<noteq> Outside \<and> \<not> waits_for_kernel s t' \<and> ring_step lu t' s s')
       \<or> (\<exists>w. waits_for_kernel s w \<and> sq_owner s = None \<and> cq_owner s = Some w
            \<and> (\<forall>t'. t' \<noteq> w \<longrightarrow> pcs s t' = Outside \<or> (\<exists>sz nr. pcs s t' = Wait_lock sz nr))))"
proof -
  have ok: "owners_ok s"
    using ring_ok_reach [OF assms(1) ring_ok_init] by (simp add: ring_ok_def)
  then show ?thesis
    using sq_owner_enabled [OF ok assms(2)] not_moving [OF ok assms(2,3), of lu] unfolding moving_def by blast
qed

text \<open>
  C23: But a \<open>wait_many\<close> that has nothing to submit starves every other thread: once a thread is in
  \<open>submit_to_kernel\<close> of \<open>wait_many\<close> and \<open>io_uring_submit\<close> keeps reporting 0 entries, it holds both mutexes
  for good, whatever the others and the kernel's completions do, and no other call ever gets through.
\<close>

theorem sync_wait_starves:
  assumes "ring_reach lu (sync_ring_init u0) s" and "pcs s t = Wait_flush sz nr" and "\<not> aborted s"
    and "\<And>j. retried (fst (ring_submit lu (after_submits lu j (sq s))))" and "ring_reach lu s s'"
  shows "sq_owner s' = Some t \<and> cq_owner s' = Some t \<and> history s' = history s
    \<and> (\<exists>sz nr. pcs s' t = Wait_flush sz nr)"
proof -
  have "submit_to_kernel lu (sq s) = None"
    using assms(4) by (rule submit_to_kernel_diverges)
  then have "stuck_waiter lu t s"
    using ring_ok_reach [OF assms(1) ring_ok_init] assms(2,3) by (auto simp: stuck_waiter_def ring_ok_def)
  from stuck_waiter_reach [OF assms(5) this] show ?thesis
    using stuck_waiter_owns [of lu t s'] by (auto simp: stuck_waiter_def)
qed

text \<open>An idle ring: the kernel takes nothing, since nothing is there.\<close>

definition idle_lu :: "nat liburing" where
  "idle_lu = \<lparr>get_sqe = (\<lambda>u. Some (0, u)), put_sqe = (\<lambda>slot e u. Suc u),
     ring_submit = (\<lambda>u. (word_of_nat u, 0)), submit_and_wait = (\<lambda>n u. (0, u)), wait_cqe_nr = (\<lambda>n u. (0, u)),
     cqes = (\<lambda>u. []), cq_advance = (\<lambda>n u. u)\<rparr>"

definition waiting :: "nat sync_ring" where
  "waiting = goto 1 (Wait_flush 4 1) (enter_sq 1 Flush (goto 1 (Wait_sq 4 1)
     ((goto 1 (Wait_lock 4 1) (sync_ring_init 0))\<lparr>cq_owner := Some 1\<rparr>)))"

lemma waiting_reach: "ring_reach idle_lu (sync_ring_init 0) waiting"
proof -
  let ?s1 = "goto 1 (Wait_lock 4 1) (sync_ring_init 0 :: nat sync_ring)"
  let ?s2 = "goto 1 (Wait_sq 4 1) (?s1\<lparr>cq_owner := Some 1\<rparr>)"
  have "ring_step idle_lu 1 (sync_ring_init 0) ?s1"
    by (rule wait_call) (simp_all add: sync_ring_init_def)
  moreover have "ring_step idle_lu 1 ?s1 ?s2"
    by (rule wait_lock) (simp_all add: sync_ring_init_def)
  moreover have "ring_step idle_lu 1 ?s2 waiting"
    unfolding waiting_def by (rule wait_sq) (simp_all add: sync_ring_init_def)
  ultimately show ?thesis
    by (meson ring_reach.start ring_reach.thread)
qed

lemma idle_after: "after_submits idle_lu j 0 = 0"
  by (induction j) (simp_all add: after_submits_Suc idle_lu_def)

definition submitted :: "nat sync_ring" where
  "submitted = goto 1 Outside (leave_sq void_from_value (goto 1 (Sub_return void_from_value)
     (goto 1 (Sub_next []) ((goto 1 (Sub_copy 0 (Prep_nop, 7) []) ((goto 1 (Sub_next [(Prep_nop, 7)])
       (enter_sq 1 (Submit_many [(Prep_nop, 7)]) (goto 1 (Sub_lock [(Prep_nop, 7)]) (sync_ring_init 0))))
         \<lparr>sq := 0\<rparr>))\<lparr>sq := 1\<rparr>))))"

lemma submitted_reach: "ring_reach idle_lu (sync_ring_init 0) submitted"
proof -
  let ?e = "(Prep_nop, 7) :: entry"
  let ?s1 = "goto 1 (Sub_lock [?e]) (sync_ring_init 0 :: nat sync_ring)"
  let ?s2 = "goto 1 (Sub_next [?e]) (enter_sq 1 (Submit_many [?e]) ?s1)"
  let ?s3 = "goto 1 (Sub_copy 0 ?e []) (?s2\<lparr>sq := 0\<rparr>)"
  let ?s4 = "goto 1 (Sub_next []) (?s3\<lparr>sq := 1\<rparr>)"
  let ?s5 = "goto 1 (Sub_return void_from_value) ?s4"
  have "ring_step idle_lu 1 (sync_ring_init 0) ?s1"
    by (rule sub_call) (simp_all add: sync_ring_init_def)
  moreover have "ring_step idle_lu 1 ?s1 ?s2"
    by (rule sub_lock) (simp_all add: sync_ring_init_def)
  moreover have "ring_step idle_lu 1 ?s2 ?s3"
    by (rule sub_slot) (simp_all add: sync_ring_init_def enter_sq_def idle_lu_def)
  moreover have "ring_step idle_lu 1 ?s3 ?s4"
    using sub_copy [of ?s3 1 0 ?e "[]" idle_lu] by (simp add: sync_ring_init_def enter_sq_def idle_lu_def)
  moreover have "ring_step idle_lu 1 ?s4 ?s5"
    by (rule sub_end) (simp_all add: sync_ring_init_def enter_sq_def)
  moreover have "ring_step idle_lu 1 ?s5 submitted"
    unfolding submitted_def by (rule sub_return) (simp_all add: sync_ring_init_def enter_sq_def)
  ultimately show ?thesis
    by (meson ring_reach.start ring_reach.thread)
qed

theorem sync_calls_serialise_witness:
  "serial idle_lu [(Submit_many [(Prep_nop, 7)], void_from_value)] 0 = Some 1"
  using sync_calls_serialise [OF submitted_reach]
  by (simp add: submitted_def enter_sq_def leave_sq_def sync_ring_init_def del: serial.simps)

theorem sync_deadlock_free_witness: "\<not> waits_for_kernel waiting 1 \<and> (\<exists>s'. ring_step idle_lu 1 waiting s')"
  using sync_deadlock_free [OF waiting_reach, of 1] by (simp add: waiting_def enter_sq_def sync_ring_init_def)

theorem sync_wait_starves_witness:
  "sq_owner (goto 2 (Sub_lock []) waiting) = Some 1 \<and> history (goto 2 (Sub_lock []) waiting) = []"
proof -
  have "ring_step idle_lu 2 waiting (goto 2 (Sub_lock []) waiting)"
    by (rule sub_call) (simp_all add: waiting_def enter_sq_def sync_ring_init_def)
  then have next_call: "ring_reach idle_lu waiting (goto 2 (Sub_lock []) waiting)"
    by (meson ring_reach.start ring_reach.thread)
  have at: "pcs waiting 1 = Wait_flush 4 1" "\<not> aborted waiting" "sq waiting = 0" "history waiting = []"
    by (simp_all add: waiting_def enter_sq_def sync_ring_init_def)
  have "retried (fst (ring_submit idle_lu (after_submits idle_lu j (sq waiting))))" for j
    unfolding at(3) idle_after by (simp add: idle_lu_def retried_def)
  from sync_wait_starves [OF waiting_reach at(1,2) this next_call] at(4) show ?thesis
    by simp
qed

end
