(* ===== verification/Ioring_End_To_End.thy ===== *)
theory Ioring_End_To_End
  imports Ioring_Async
begin

text \<open>
  The parts of an io_uring operation put together: from the completion entry over the callback and the
  executor to the user's handler, and from \<open>tcx::async_open\<close> and its like to the ring.
\<close>

section \<open>From the completion entry to the handler\<close>

text \<open>A callback adds its one call to the queue of an \<open>unsynchronized_execution_context\<close>.\<close>

lemma callbacks_queue:
  "exec (fold (\<lambda>(cb, r). ring_callback uec_post cb r) cbs w) =
   \<lparr>m_function_queue = m_function_queue (exec w) @ map (\<lambda>(cb, r). callback_call cb r) cbs\<rparr>"
proof (induction cbs arbitrary: w)
  case (Cons x cbs)
  then show ?case
    by (cases x) (simp add: ring_callback_exec uec_post_def queue_emplace_def)
qed simp

lemma run_quiet_handlers:
  "uec_run (posting_exec uec_post (\<lambda>f w. []) eff (\<lambda>f w. None)) \<lparr>m_function_queue = fs\<rparr> w =
   Some ((uec_init, fold eff fs w), Inr (length fs))"
proof -
  have batch: "run_all (\<lambda>f w. []) eff fs w = ([], fold eff fs w)" for w
    by (induction fs arbitrary: w) simp_all
  have quiet: "none_throws eff (\<lambda>f w. None) fs w" for w
    by (induction fs arbitrary: w) simp_all
  show ?thesis
    using uec_loop_batch [OF quiet, of "\<lambda>f w. []" 0 "[]" w]
    by (simp add: uec_run_def batch uec_loop_empty uec_init_def)
qed

text \<open>
  Completions and the executor compose, for handlers that neither post nor throw: when the callbacks of
  any \<open>open\<close>, \<open>close\<close>, \<open>read\<close> and \<open>stat\<close> operations are completed one after the other, \<open>run()\<close> of the
  \<open>unsynchronized_execution_context\<close> they post to calls each user handler once, in the order of the
  completions, with the outcome of its own kernel result, whatever the handlers do to the rest of the
  world; then it returns their number, with nothing left queued.
\<close>

lemma completions_reach_handlers:
  "uec_run (posting_exec uec_post (\<lambda>f w. []) eff (\<lambda>f w. None))
      (exec (fold (\<lambda>(cb, r). ring_callback uec_post cb r) cbs \<lparr>exec = uec_init, stats = st\<rparr>)) w =
   Some ((uec_init, fold eff (map (\<lambda>(cb, r).
      case cb of
        On_open f \<Rightarrow> Call_variant f (open_outcome r)
      | On_close f \<Rightarrow> Call_error_code f (close_outcome r)
      | On_read f \<Rightarrow> Call_variant f (read_outcome r)
      | On_stat buf a f \<Rightarrow> Call_variant f (stat_outcome r)) cbs) w), Inr (length cbs))"
  using run_quiet_handlers [of eff "map (\<lambda>(cb, r). callback_call cb r) cbs" w]
  by (simp add: callbacks_queue uec_init_def callback_call_def)

section \<open>From the operation to the ring\<close>

text \<open>
  The four operations of \<open>Ioring_Async\<close> as data (in a debug build a read stops at an assertion,
  \<open>Uring_Ops\<close>). \<open>basic\<close> is \<open>STATX_BASIC_STATS\<close>.
\<close>

datatype ring_operation =
    Open_operation string int int
  | Close_operation int
  | Read_operation int addr int int
  | Stat_operation addr statx int string addr int

primrec start :: "bool \<Rightarrow> int \<Rightarrow> ('s, 'f ring_cb, 'r) super \<Rightarrow> 'f \<Rightarrow> ring_operation \<Rightarrow> ('s, 'r) action" where
  "start debug basic super f (Open_operation path flags mode) = open_call super path flags mode f"
| "start debug basic super f (Close_operation h) = close_call super h f"
| "start debug basic super f (Read_operation h buf n offset) = read_call debug super h buf n offset f"
| "start debug basic super f (Stat_operation p buf dir_fd path statbuf flags) =
     statat_call basic super p buf dir_fd path statbuf flags f"

text \<open>Reads of a debug build apart, an operation hands one entry with its callback to \<open>submit\<close>.\<close>

definition stopped :: "bool \<Rightarrow> ring_operation \<Rightarrow> bool" where
  "stopped debug op \<longleftrightarrow> debug \<and> (case op of Read_operation h buf n offset \<Rightarrow> True | _ \<Rightarrow> False)"

lemma start_submits:
  "\<not> stopped debug op \<Longrightarrow> \<exists>q cb. start debug basic super f op c = submit super q cb c \<and> callback_handler cb = f"
proof (cases op)
  assume "\<not> stopped debug op"
  case (Read_operation h buf n offset)
  with \<open>\<not> stopped debug op\<close> have "\<not> debug"
    by (simp add: stopped_def)
  then show ?thesis
    using Read_operation clamp_length_total [of n] by (force simp: read_call_def async_defs)
qed (force simp: open_call_def close_call_def statat_call_def async_defs)+

text \<open>
  On an \<open>unsynchronized_uring_context\<close> whose ring has room, starting an \<open>open\<close>, \<open>close\<close>, \<open>read\<close> (in a
  release build) or \<open>stat\<close> puts one entry in the ring and returns a result that has error code 0 and for which
  \<open>has_error()\<close> is true; but the callback with the user's handler is gone by then, so completing the
  entry, with whatever result, is undefined: no handler is ever called through such a context.
\<close>

lemma started_operation_dangles:
  assumes "submit super = context_submit debug (unsync_submit_one lu)"
    and "get_sqe lu (ring c) = Some (slot, u)" and "\<not> stopped debug op"
  shows "\<exists>q x c'. start debug basic super f op c = Some (Inr (x, c')) \<and> has_error x \<and> error x = 0
    \<and> ring c' = put_sqe lu slot (q, next_completion c) u
    \<and> context_complete f_more invoke_cb \<lparr>user_data = next_completion c, cqe_res = result, cqe_flags = flags\<rparr> c' =
        Inl Undefined"
proof -
  obtain q cb where start: "start debug basic super f op c = submit super q cb c"
    using start_submits [OF assms(3), of basic super f c] by (elim exE conjE)
  have one: "unsync_submit_one lu (q, next_completion c) (ring c) = Some (Inr (0, put_sqe lu slot (q, next_completion c) u))"
    using assms(2) by (subst unsync_submit_one_stop) simp_all
  note sub = context_submit_accepted [where submit_one = "unsync_submit_one lu" and c = c and q = q, OF one, of debug cb]
  define c' where "c' = c\<lparr>completions := (completions c)(next_completion c := None),
      next_completion := Suc (next_completion c), ring := put_sqe lu slot (q, next_completion c) u\<rparr>"
  have "start debug basic super f op c = Some (Inr (\<lparr>res_first = 0, res_second = None\<rparr>, c'))"
    unfolding start assms(1) c'_def by (rule sub)
  moreover have "has_error (\<lparr>res_first = 0, res_second = None\<rparr> :: nat result)"
      "error (\<lparr>res_first = 0, res_second = None\<rparr> :: nat result) = 0"
    by (simp_all add: has_error_def error_def)
  moreover have "ring c' = put_sqe lu slot (q, next_completion c) u" "completions c' (next_completion c) = None"
    by (simp_all add: c'_def)
  then have "context_complete f_more invoke_cb
      \<lparr>user_data = next_completion c, cqe_res = result, cqe_flags = flags\<rparr> c' = Inl Undefined"
    by (simp add: context_complete_def Let_def)
  ultimately show ?thesis
    using \<open>ring c' = put_sqe lu slot (q, next_completion c) u\<close> by blast
qed

definition small_super :: "((small_ring, nat ring_cb) uring_context, nat ring_cb, nat result) super" where
  "small_super = \<lparr>submit = context_submit True (unsync_submit_one small_lu), has_rw_cur_pos = True,
     at_fdcwd = - 100, timeout_abs = 1\<rparr>"

definition roomy_context :: "(small_ring, nat ring_cb) uring_context" where
  "roomy_context = \<lparr>ring = \<lparr>cap = 4, queue = [], finished = []\<rparr>, completions = (\<lambda>_. None), next_completion = 0, m_pending = 0\<rparr>"

lemma started_operation_dangles_witness:
  "\<exists>x c'. start True 2047 small_super 42 (Close_operation 3) roomy_context = Some (Inr (x, c')) \<and> has_error x
    \<and> context_complete 2 (\<lambda>f cqe c. (None, f, c)) \<lparr>user_data = 0, cqe_res = 0, cqe_flags = 0\<rparr> c' = Inl Undefined"
proof -
  obtain slot u where room: "get_sqe small_lu (ring roomy_context) = Some (slot, u)"
    by (simp add: small_lu_def roomy_context_def)
  have sub: "submit small_super = context_submit True (unsync_submit_one small_lu)"
    by (simp add: small_super_def)
  have "next_completion roomy_context = 0"
    by (simp add: roomy_context_def)
  with started_operation_dangles [OF sub room, of "Close_operation 3" 2047 42 2 "\<lambda>f cqe c. (None, f, c)" 0 0]
  show ?thesis
    by (simp add: stopped_def) metis
qed

end
