(* ===== verification/Ioring_Transfer.thy ===== *)
theory Ioring_Transfer
  imports Ioring_Async
begin

text \<open>
  \<open>include/tcx/async/ioring/{write,send,recv,poll,accept}.hpp\<close> and
  \<open>async/impl/extra_accept_overloads.hpp\<close>. These operations still have the completion interface of an
  earlier version: their callbacks take the result as an \<open>int32_t\<close>, where a context now passes itself
  and the completion entry, and call the user's handler with an error code and a value. They cannot be
  instantiated with the contexts of this repository; the model is what they do in a context that calls
  them with the result. \<open>connect\<close> and \<open>sleep\<close> do not match the operations of the context they call
  either (a null pointer for a length, a missing count); of both, what their completions post is here.
\<close>

section \<open>Calls of the handler\<close>

datatype transfer_value = Bytes u64 | Events c_int | Accepted handle_type

datatype 'f pair_call = Call_pair 'f c_int transfer_value

text \<open>
  What is posted to the executor runs later: it calls the handler, and for \<open>accept\<close> first writes the
  caller's \<open>*addr_len\<close>.
\<close>

type_synonym lengths = "addr \<Rightarrow> u64"

type_synonym 'f posted = "lengths \<Rightarrow> 'f pair_call \<times> lengths"

definition write_posted :: "'f \<Rightarrow> c_int \<Rightarrow> 'f posted" where
  "write_posted f result m =
     (if result <s 0 then (Call_pair f (- result) (Bytes 0), m) else (Call_pair f 0 (Bytes (scast result)), m))"

definition send_posted :: "'f \<Rightarrow> c_int \<Rightarrow> 'f posted" where
  "send_posted f result m =
     (if result <s 0 then (Call_pair f (- result) (Bytes 0), m) else (Call_pair f 0 (Bytes (scast result)), m))"

definition recv_posted :: "'f \<Rightarrow> c_int \<Rightarrow> 'f posted" where
  "recv_posted f result m =
     (if result <s 0 then (Call_pair f (- result) (Bytes 0), m) else (Call_pair f 0 (Bytes (scast result)), m))"

definition poll_posted :: "'f \<Rightarrow> c_int \<Rightarrow> 'f posted" where
  "poll_posted f result m =
     (if result <s 0 then (Call_pair f (- result) (Events 0), m) else (Call_pair f 0 (Events result), m))"

definition accept_posted :: "'f \<Rightarrow> c_int \<Rightarrow> 'f posted" where
  "accept_posted f result m =
     (if result <s 0 then (Call_pair f (- result) (Accepted invalid_handle), m)
      else (Call_pair f 0 (Accepted result), m))"

text \<open>\<open>sock_len\<close> is what the kernel left in the length buffer that the callback owns.\<close>

definition accept_len_posted :: "c_uint \<Rightarrow> addr \<Rightarrow> 'f \<Rightarrow> c_int \<Rightarrow> 'f posted" where
  "accept_len_posted sock_len addr_len f result m =
     (if result <s 0 then (Call_pair f (- result) (Accepted invalid_handle), m)
      else (Call_pair f 0 (Accepted result), m(addr_len := ucast sock_len)))"

text \<open>What the completion of \<open>sleep\<close> posts calls the handler with an error code alone.\<close>

definition sleep_posted :: "'f \<Rightarrow> c_int \<Rightarrow> 'f handler_call" where
  "sleep_posted f result =
     (if result <s 0 then Call_error_code f (- result) else Call_error_code f 0)"

text \<open>
  What the completions of \<open>connect\<close> post, without a length and with one. The second calls the handler
  with an error code and a zero when it fails, and with an error code alone when it succeeds.
\<close>

definition connect_posted :: "'f \<Rightarrow> c_int \<Rightarrow> 'f handler_call" where
  "connect_posted f result =
     (if result <s 0 then Call_error_code f (- result) else Call_error_code f 0)"

definition connect_len_posted :: "'f \<Rightarrow> c_int \<Rightarrow> 'f pair_call + 'f handler_call" where
  "connect_len_posted f result =
     (if result <s 0 then Inl (Call_pair f (- result) (Bytes 0)) else Inr (Call_error_code f 0))"

section \<open>The operations\<close>

datatype 'f transfer_cb =
    On_write 'f
  | On_send 'f
  | On_recv 'f
  | On_poll 'f
  | On_accept 'f
  | On_accept_len c_uint addr 'f

definition transfer_callback :: "('f posted \<Rightarrow> 'e \<Rightarrow> 'e) \<Rightarrow> 'f transfer_cb \<Rightarrow> c_int \<Rightarrow> 'e \<Rightarrow> 'e" where
  "transfer_callback post cb result e =
     (case cb of
        On_write f \<Rightarrow> post (write_posted f result) e
      | On_send f \<Rightarrow> post (send_posted f result) e
      | On_recv f \<Rightarrow> post (recv_posted f result) e
      | On_poll f \<Rightarrow> post (poll_posted f result) e
      | On_accept f \<Rightarrow> post (accept_posted f result) e
      | On_accept_len l a f \<Rightarrow> post (accept_len_posted l a f result) e)"

definition write_call ::
  "bool \<Rightarrow> ('s, 'f transfer_cb, 'r) super \<Rightarrow> int \<Rightarrow> addr \<Rightarrow> int \<Rightarrow> int \<Rightarrow> 'f \<Rightarrow> ('s, 'r) action" where
  "write_call debug service fd buf len offset f = async_write debug service fd buf len offset (On_write f)"

definition write_call_current ::
  "bool \<Rightarrow> ('s, 'f transfer_cb, 'r) super \<Rightarrow> int \<Rightarrow> addr \<Rightarrow> int \<Rightarrow> 'f \<Rightarrow> ('s, 'r) action" where
  "write_call_current debug service fd buf len f = write_call debug service fd buf len (- 1) f"

definition write_call_span ::
  "bool \<Rightarrow> ('s, 'f transfer_cb, 'r) super \<Rightarrow> int \<Rightarrow> addr \<times> int \<Rightarrow> int \<Rightarrow> 'f \<Rightarrow> ('s, 'r) action" where
  "write_call_span debug service fd bytes offset f =
     write_call debug service fd (fst bytes) (snd bytes) offset f"

definition write_call_span_current ::
  "bool \<Rightarrow> ('s, 'f transfer_cb, 'r) super \<Rightarrow> int \<Rightarrow> addr \<times> int \<Rightarrow> 'f \<Rightarrow> ('s, 'r) action" where
  "write_call_span_current debug service fd bytes f =
     write_call debug service fd (fst bytes) (snd bytes) (- 1) f"

definition send_call ::
  "('s, 'f transfer_cb, 'r) super \<Rightarrow> int \<Rightarrow> addr \<Rightarrow> int \<Rightarrow> int \<Rightarrow> 'f \<Rightarrow> ('s, 'r) action" where
  "send_call service fd buf buf_len flags f = async_send service fd buf buf_len flags (On_send f)"

definition send_call_plain ::
  "('s, 'f transfer_cb, 'r) super \<Rightarrow> int \<Rightarrow> addr \<Rightarrow> int \<Rightarrow> 'f \<Rightarrow> ('s, 'r) action" where
  "send_call_plain service fd buf buf_len f = send_call service fd buf buf_len 0 f"

definition send_call_span ::
  "('s, 'f transfer_cb, 'r) super \<Rightarrow> int \<Rightarrow> addr \<times> int \<Rightarrow> int \<Rightarrow> 'f \<Rightarrow> ('s, 'r) action" where
  "send_call_span service fd bytes flags f = send_call service fd (fst bytes) (snd bytes) flags f"

definition send_call_span_plain ::
  "('s, 'f transfer_cb, 'r) super \<Rightarrow> int \<Rightarrow> addr \<times> int \<Rightarrow> 'f \<Rightarrow> ('s, 'r) action" where
  "send_call_span_plain service fd bytes f = send_call service fd (fst bytes) (snd bytes) 0 f"

text \<open>The overload of \<open>recv\<close> for a buffer without flags passes one argument too few and has no model.\<close>

definition recv_call ::
  "('s, 'f transfer_cb, 'r) super \<Rightarrow> int \<Rightarrow> addr \<Rightarrow> int \<Rightarrow> int \<Rightarrow> 'f \<Rightarrow> ('s, 'r) action" where
  "recv_call service fd buf buf_len flags f = async_recv service fd buf buf_len flags (On_recv f)"

definition recv_call_span ::
  "('s, 'f transfer_cb, 'r) super \<Rightarrow> int \<Rightarrow> addr \<times> int \<Rightarrow> int \<Rightarrow> 'f \<Rightarrow> ('s, 'r) action" where
  "recv_call_span service fd bytes flags f = recv_call service fd (fst bytes) (snd bytes) flags f"

definition recv_call_span_plain ::
  "('s, 'f transfer_cb, 'r) super \<Rightarrow> int \<Rightarrow> addr \<times> int \<Rightarrow> 'f \<Rightarrow> ('s, 'r) action" where
  "recv_call_span_plain service fd bytes f = recv_call service fd (fst bytes) (snd bytes) 0 f"

definition poll_call :: "('s, 'f transfer_cb, 'r) super \<Rightarrow> int \<Rightarrow> int \<Rightarrow> 'f \<Rightarrow> ('s, 'r) action" where
  "poll_call service fd events f = async_poll_add service fd events (On_poll f)"

text \<open>
  \<open>accept\<close>: the address 0 is the null pointer; \<open>p\<close> is the address of the new length buffer and \<open>sock_len\<close>
  what it holds when the operation has completed.
\<close>

definition accept_call ::
  "addr \<Rightarrow> c_uint \<Rightarrow> ('s, 'f transfer_cb, 'r) super \<Rightarrow> int \<Rightarrow> addr \<Rightarrow> addr \<Rightarrow> int \<Rightarrow> 'f \<Rightarrow> ('s, 'r) action" where
  "accept_call p sock_len service fd a addr_len flags f =
     (if addr_len = 0 then async_accept service fd a 0 flags (On_accept f)
      else async_accept service fd a p flags (On_accept_len sock_len addr_len f))"

definition accept_call_plain ::
  "addr \<Rightarrow> c_uint \<Rightarrow> ('s, 'f transfer_cb, 'r) super \<Rightarrow> int \<Rightarrow> addr \<Rightarrow> addr \<Rightarrow> 'f \<Rightarrow> ('s, 'r) action" where
  "accept_call_plain p sock_len service fd a addr_len f = accept_call p sock_len service fd a addr_len 0 f"

definition accept_call_no_addr ::
  "addr \<Rightarrow> c_uint \<Rightarrow> ('s, 'f transfer_cb, 'r) super \<Rightarrow> int \<Rightarrow> int \<Rightarrow> 'f \<Rightarrow> ('s, 'r) action" where
  "accept_call_no_addr p sock_len service fd flags f = accept_call p sock_len service fd 0 0 flags f"

definition accept_call_only ::
  "addr \<Rightarrow> c_uint \<Rightarrow> ('s, 'f transfer_cb, 'r) super \<Rightarrow> int \<Rightarrow> 'f \<Rightarrow> ('s, 'r) action" where
  "accept_call_only p sock_len service fd f = accept_call p sock_len service fd 0 0 0 f"

lemmas posted_defs = write_posted_def send_posted_def recv_posted_def poll_posted_def accept_posted_def
  accept_len_posted_def

section \<open>Lemmas\<close>

primrec transfer_handler :: "'f transfer_cb \<Rightarrow> 'f" where
  "transfer_handler (On_write f) = f"
| "transfer_handler (On_send f) = f"
| "transfer_handler (On_recv f) = f"
| "transfer_handler (On_poll f) = f"
| "transfer_handler (On_accept f) = f"
| "transfer_handler (On_accept_len l a f) = f"

text \<open>The value that goes with an error, and the one a nonnegative result stands for.\<close>

definition no_value :: "'f transfer_cb \<Rightarrow> transfer_value" where
  "no_value cb = (case cb of On_poll f \<Rightarrow> Events 0 | On_accept f \<Rightarrow> Accepted (- 1)
     | On_accept_len l a f \<Rightarrow> Accepted (- 1) | _ \<Rightarrow> Bytes 0)"

definition transferred :: "'f transfer_cb \<Rightarrow> nat \<Rightarrow> transfer_value" where
  "transferred cb n = (case cb of On_poll f \<Rightarrow> Events (word_of_nat n) | On_accept f \<Rightarrow> Accepted (word_of_nat n)
     | On_accept_len l a f \<Rightarrow> Accepted (word_of_nat n) | _ \<Rightarrow> Bytes (word_of_nat n))"

definition posted_of :: "'f transfer_cb \<Rightarrow> c_int \<Rightarrow> 'f posted" where
  "posted_of cb result =
     (case cb of
        On_write f \<Rightarrow> write_posted f result
      | On_send f \<Rightarrow> send_posted f result
      | On_recv f \<Rightarrow> recv_posted f result
      | On_poll f \<Rightarrow> poll_posted f result
      | On_accept f \<Rightarrow> accept_posted f result
      | On_accept_len l a f \<Rightarrow> accept_len_posted l a f result)"

lemma transfer_callback_post: "transfer_callback post cb result e = post (posted_of cb result) e"
  by (cases cb) (simp_all add: transfer_callback_def posted_of_def)

text \<open>
  Every completion of these operations posts one callable. When the kernel fails with error \<open>e\<close> it calls
  the handler with \<open>e\<close> and the empty value and writes nothing; when it succeeds, the handler gets code 0
  and the result, and \<open>accept\<close> has written the length to the caller's \<open>*addr_len\<close>, and nowhere else.
\<close>

lemma transfer_callback_outcome:
  assumes "executor post pending" and "0 < e" and "e < 2 ^ 31" and "n < 2 ^ 31"
  shows "\<exists>failed ok.
     pending (transfer_callback post cb (- word_of_nat e) ex) = add_mset failed (pending ex)
   \<and> failed m = (Call_pair (transfer_handler cb) (word_of_nat e) (no_value cb), m)
   \<and> pending (transfer_callback post cb (word_of_nat n) ex) = add_mset ok (pending ex)
   \<and> ok m = (Call_pair (transfer_handler cb) 0 (transferred cb n),
        case cb of On_accept_len l a f \<Rightarrow> m(a := ucast l) | _ \<Rightarrow> m)"
  unfolding transfer_callback_post executor.pending_post [OF assms(1)]
  using word_neg_of_nat [OF assms(2,3)] word_nonneg_of_nat [OF assms(4)]
  by (intro exI [of _ "posted_of cb (- word_of_nat e)"] exI [of _ "posted_of cb (word_of_nat n)"])
    (cases cb; simp add: posted_of_def posted_defs no_value_def transferred_def invalid_handle_def)

text \<open>
  A timeout that expires completes with \<open>-ETIME\<close>, so the handler of a sleep that took its whole time is
  told the error \<open>ETIME\<close>, 62; code 0 is what it gets when it is woken by other completions.
\<close>

lemma sleep_expiry_is_an_error: "sleep_posted f (- 62) = Call_error_code f 62"
  by (simp add: sleep_posted_def word_sless_alt)

text \<open>The two forms of \<open>connect\<close> tell the handler the same code, with a different number of arguments.\<close>

fun told :: "'f pair_call + 'f handler_call \<Rightarrow> 'f \<times> c_int \<times> nat" where
  "told (Inl (Call_pair f e v)) = (f, e, 2)"
| "told (Inr (Call_error_code f e)) = (f, e, 1)"
| "told (Inr (Call_variant f x)) = (f, 0, 1)"

lemma connect_arguments:
  "connect_posted f result = Call_error_code f (if result <s 0 then - result else 0)
   \<and> told (connect_len_posted f result) =
      (if result <s 0 then (f, - result, 2) else (f, 0, 1))"
  by (simp add: connect_posted_def connect_len_posted_def)

end
