(* ===== verification/Completion_Tokens.thy ===== *)
theory Completion_Tokens
  imports Prelude
begin

text \<open>
  \<open>include/tcx/async/\<close>: what an asynchronous operation does with the completion object it is given
  (\<open>wrap_op.hpp\<close>), and the completion objects \<open>detached\<close>, \<open>detached_throw\<close>, \<open>use_future\<close> and
  \<open>use_awaitable\<close>. A \<open>std::promise\<close> and its future, and the state shared by an awaitable and its
  completion, are records; a coroutine handle is an abstract value.
\<close>

section \<open>wrap_op.hpp\<close>

text \<open>
  What the traits \<open>has_async_transform\<close> and \<open>has_async_result\<close> say of a completion object: it
  transforms into another one, it has a result for the caller, or it is a plain handler.
  \<open>async_result\<close> may change the state \<open>'s\<close>.
\<close>

datatype ('f, 't, 's) token =
    Plain 'f
  | With_result 'f "'s \<Rightarrow> ('t \<times> 's) cxx"
  | Transforms "('f, 't, 's) token"

fun wrap_op_call ::
  "('f \<Rightarrow> 's \<Rightarrow> 's cxx) \<Rightarrow> ('f, 't, 's) token \<Rightarrow> 's \<Rightarrow> ('t option \<times> 's) cxx" where
  "wrap_op_call op (Transforms t) s = wrap_op_call op t s"
| "wrap_op_call op (With_result f async_result) s =
     cxx_bind (async_result s) (\<lambda>(result, s1).
     cxx_bind (op f s1) (\<lambda>s2. Inr (Some result, s2)))"
| "wrap_op_call op (Plain f) s = cxx_bind (op f s) (\<lambda>s1. Inr (None, s1))"

section \<open>detached.hpp, detached_throw.hpp\<close>

definition detached_call :: "'a \<Rightarrow> 's \<Rightarrow> 's cxx" where
  "detached_call args s = Inr s"

definition detached_throw_call :: "c_int \<Rightarrow> 's \<Rightarrow> 's cxx" where
  "detached_throw_call ec s = (if ec \<noteq> 0 then Inl (System_error (sint ec)) else Inr s)"

section \<open>use_future.hpp\<close>

text \<open>The shared state of a promise: whether its future was taken, and what was stored.\<close>

record 'r promise =
  retrieved :: bool
  satisfied :: "(fault + 'r) option"

definition new_promise :: "'r promise" where
  "new_promise = \<lparr>retrieved = False, satisfied = None\<rparr>"

text \<open>\<open>async_result\<close>: \<open>get_future\<close>.\<close>

definition future_async_result :: "'r promise \<Rightarrow> (unit \<times> 'r promise) cxx" where
  "future_async_result p =
     (if retrieved p then Inl (Future_error Future_already_retrieved)
      else Inr ((), p\<lparr>retrieved := True\<rparr>))"

text \<open>\<open>set_exception\<close> and \<open>set_value\<close>.\<close>

definition satisfy :: "fault + 'r \<Rightarrow> 'r promise \<Rightarrow> 'r promise cxx" where
  "satisfy x p =
     (case satisfied p of
        None \<Rightarrow> Inr (p\<lparr>satisfied := Some x\<rparr>)
      | Some _ \<Rightarrow> Inl (Future_error Promise_already_satisfied))"

definition using_future_call :: "c_int \<Rightarrow> 'r \<Rightarrow> 'r promise \<Rightarrow> 'r promise cxx" where
  "using_future_call error v p =
     (if error \<noteq> 0 then satisfy (Inl (System_error (sint error))) p else satisfy (Inr v) p)"

text \<open>\<open>use_future\<close> transforms into a fresh \<open>using_future_t\<close>, which is the handler and has the result.\<close>

definition use_future :: "(unit, unit, 'r promise) token" where
  "use_future = Transforms (With_result () future_async_result)"

section \<open>use_awaitable.hpp\<close>

text \<open>The state shared by the handler and the awaitable; no coroutine is \<open>std::noop_coroutine()\<close>.\<close>

record ('r, 'h) await_state =
  m_result :: "(c_int + 'r) option"
  m_coroutine :: "'h option"

definition await_init :: "('r, 'h) await_state" where
  "await_init = \<lparr>m_result = None, m_coroutine = None\<rparr>"

text \<open>
  The handler: the coroutine it resumes, and the state. \<open>code\<close> is the value of an error code made
  from a \<open>std::future_errc\<close>.
\<close>

definition using_awaitable_call ::
  "(future_errc \<Rightarrow> int) \<Rightarrow> bool \<Rightarrow> c_int + 'r \<Rightarrow> ('r, 'h) await_state \<Rightarrow>
   ('h option \<times> ('r, 'h) await_state) cxx" where
  "using_awaitable_call code debug result s =
     (if debug \<and> m_result s \<noteq> None then Inl (System_error (code Promise_already_satisfied))
      else Inr (m_coroutine s, s\<lparr>m_result := Some result\<rparr>))"

definition await_ready :: bool where
  "await_ready = False"

definition await_suspend :: "'h \<Rightarrow> ('r, 'h) await_state \<Rightarrow> ('r, 'h) await_state" where
  "await_suspend h s = s\<lparr>m_coroutine := Some h\<rparr>"

text \<open>
  \<open>await_resume\<close> for a result type that is not \<open>void\<close>: what it returns or throws, and the state.
  Without a result a release build flows off the end of the function.
\<close>

definition await_resume ::
  "(future_errc \<Rightarrow> int) \<Rightarrow> bool \<Rightarrow> ('r, 'h) await_state \<Rightarrow> 'r cxx \<times> ('r, 'h) await_state" where
  "await_resume code debug s =
     (case m_result s of
        Some (Inl ec) \<Rightarrow> (Inl (System_error (sint ec)), s\<lparr>m_result := None\<rparr>)
      | Some (Inr v) \<Rightarrow> (Inr v, s\<lparr>m_result := None\<rparr>)
      | None \<Rightarrow> (if debug then Inl (System_error (code Future_already_retrieved)) else Inl Undefined, s))"

text \<open>
  The two sides as events, in the order in which they happen: the operation completes, or a coroutine
  awaits (\<open>await_ready\<close>, then \<open>await_suspend\<close>). The result lists the coroutines resumed.
\<close>

datatype ('r, 'h) await_event = Completed "c_int + 'r" | Awaited 'h

fun await_run ::
  "(future_errc \<Rightarrow> int) \<Rightarrow> bool \<Rightarrow> ('r, 'h) await_event list \<Rightarrow> ('r, 'h) await_state \<Rightarrow>
   ('h list \<times> ('r, 'h) await_state) cxx" where
  "await_run code debug [] s = Inr ([], s)"
| "await_run code debug (Completed r # es) s =
     cxx_bind (using_awaitable_call code debug r s) (\<lambda>(h, s1).
     cxx_bind (await_run code debug es s1) (\<lambda>(hs, s2).
     Inr ((case h of None \<Rightarrow> hs | Some x \<Rightarrow> x # hs), s2)))"
| "await_run code debug (Awaited h # es) s =
     (if await_ready then await_run code debug es s
      else await_run code debug es (await_suspend h s))"

section \<open>Lemmas\<close>

fun is_completed :: "('r, 'h) await_event \<Rightarrow> bool" where
  "is_completed (Completed r) = True"
| "is_completed (Awaited h) = False"

lemma await_run_no_completion:
  "list_all (\<lambda>e. \<not> is_completed e) es \<Longrightarrow>
   \<exists>s'. await_run code debug es s = Inr ([], s') \<and> m_result s' = m_result s"
proof (induction es arbitrary: s)
  case (Cons e es)
  obtain h where "e = Awaited h" using Cons.prems by (cases e) simp_all
  then show ?case
    using Cons.prems Cons.IH [of "await_suspend h s"] by (simp add: await_ready_def await_suspend_def)
qed simp

lemma await_run_append:
  "await_run code debug (es @ fs) s =
    cxx_bind (await_run code debug es s) (\<lambda>(hs, s1).
    cxx_bind (await_run code debug fs s1) (\<lambda>(hs', s2). Inr (hs @ hs', s2)))"
proof (induction es arbitrary: s)
  case Nil
  then show ?case by (cases "await_run code debug fs s") auto
next
  case (Cons e es)
  show ?case
  proof (cases e)
    case (Completed r)
    then show ?thesis
      by (auto simp: Cons.IH cxx_bind_def split: sum.splits option.splits prod.splits)
  next
    case (Awaited h)
    then show ?thesis by (simp add: Cons.IH)
  qed
qed

lemma last_awaited:
  "list_all (\<lambda>e. \<not> is_completed e) es \<Longrightarrow> await_run code debug (es @ [Awaited h]) s = Inr (hs, s') \<Longrightarrow>
   hs = [] \<and> m_coroutine s' = Some h \<and> m_result s' = m_result s"
  using await_run_no_completion [of es code debug s]
  by (auto simp: await_run_append await_ready_def await_suspend_def)

section \<open>Properties\<close>

text \<open>
  An operation awaited with \<open>use_awaitable\<close> before it completes resumes the last coroutine that
  awaited it, once, and that coroutine then gets the value, or the error as an exception. An
  operation that completes first is never picked up: however often it is awaited afterwards, no
  coroutine is resumed as long as it does not complete again.
\<close>

lemma use_awaitable_order:
  assumes "list_all (\<lambda>e. \<not> is_completed e) es"
  shows "(\<exists>s. await_run code debug (es @ [Awaited h, Completed r]) await_init = Inr ([h], s)
      \<and> fst (await_resume code debug s) =
          (case r of Inl ec \<Rightarrow> Inl (System_error (sint ec)) | Inr v \<Rightarrow> Inr v)
      \<and> m_result (snd (await_resume code debug s)) = None)
    \<and> (\<exists>s. await_run code debug (Completed r # es) await_init = Inr ([], s))"
proof -
  obtain s1 where s1: "await_run code debug es await_init = Inr ([], s1)" "m_result s1 = None"
    using await_run_no_completion [OF assms, of code debug await_init] by (auto simp: await_init_def)
  then have first: "await_run code debug (es @ [Awaited h, Completed r]) await_init =
      Inr ([h], s1\<lparr>m_coroutine := Some h, m_result := Some r\<rparr>)"
    by (simp add: await_run_append await_ready_def await_suspend_def using_awaitable_call_def)
  obtain s2 where "await_run code debug es (await_init\<lparr>m_result := Some r\<rparr>) = Inr ([], s2)"
    using await_run_no_completion [OF assms] by blast
  then have "await_run code debug (Completed r # es) await_init = Inr ([], s2)"
    by (simp add: using_awaitable_call_def) (simp add: await_init_def)
  with first show ?thesis
    by (simp add: await_resume_def split: sum.splits)
qed

lemma use_awaitable_order_witness:
  "\<exists>s. await_run (\<lambda>e. 1) True [Completed (Inr (7 :: nat)), Awaited ''main''] await_init = Inr ([], s)"
  using use_awaitable_order [of "[Awaited ''main'']" "\<lambda>e. 1" True "''main''" "Inr (7 :: nat)"] by simp

text \<open>
  An operation started with \<open>use_future\<close> gives its caller the future before it starts, whatever the
  operation does with the handler; completing it once makes the future ready with the value, or with
  a \<open>std::system_error\<close> of the code when that is not 0, and completing it again throws and leaves the
  future as it is.
\<close>

lemma use_future_completes:
  "wrap_op_call op use_future new_promise =
      cxx_bind (op () \<lparr>retrieved = True, satisfied = None\<rparr>) (\<lambda>s. Inr (Some (), s))
   \<and> wrap_op_call (\<lambda>f. using_future_call ec v) use_future new_promise =
      Inr (Some (), \<lparr>retrieved = True,
        satisfied = Some (if ec = 0 then Inr v else Inl (System_error (sint ec)))\<rparr>)
   \<and> wrap_op_call (\<lambda>f s. cxx_bind (using_future_call ec v s) (using_future_call ec' v')) use_future
       new_promise = Inl (Future_error Promise_already_satisfied)"
  by (simp add: use_future_def future_async_result_def new_promise_def using_future_call_def satisfy_def)

end
