(* ===== verification/Token_Composition.thy ===== *)
theory Token_Composition
  imports Ioring_End_To_End Completion_Tokens
begin

text \<open>
  Completion objects and operations together: which completion objects an operation accepts
  (\<open>async/concepts.hpp\<close>) and whether the call of the handler that the operation makes then fits, and
  the way of a result from the kernel to the coroutine that awaits it (\<open>use_awaitable.hpp\<close> over
  \<open>async/ioring/\<close> and an \<open>unsynchronized_execution_context\<close>).
\<close>

section \<open>concepts.hpp\<close>

text \<open>
  The types of arguments: the variant of an error code and a result, the error code, the result. An
  error code and a result convert to the variant.
\<close>

datatype arg_type = Variant_arg | Error_code_arg | Result_arg

fun converts :: "arg_type \<Rightarrow> arg_type \<Rightarrow> bool" where
  "converts a Variant_arg = True"
| "converts a b = (a = b)"

text \<open>
  The parameters of a single call operator without default arguments: a fixed list, or a list followed
  by any others, like those of the completion objects of the library. Overloaded call operators, default
  arguments and templates over the argument's type are not described: a handler that has them can fit
  more calls, or be accepted and not fit.
\<close>

datatype signature = Fixed "arg_type list" | Variadic "arg_type list"

primrec invocable :: "signature \<Rightarrow> arg_type list \<Rightarrow> bool" where
  "invocable (Fixed ps) as = list_all2 converts as ps"
| "invocable (Variadic ps) as = (length ps \<le> length as \<and> list_all2 converts (List.take (length ps) as) ps)"

text \<open>The type of a completion object: \<open>async_transform\<close> gives another one.\<close>

datatype completion_type = Handler signature | Transforming completion_type

primrec is_completion_handler :: "completion_type \<Rightarrow> bool" where
  "is_completion_handler (Handler s) = invocable s [Variant_arg]"
| "is_completion_handler (Transforming t) = is_completion_handler t"

text \<open>The handler that \<open>wrap_op\<close> ends up with.\<close>

primrec wrapped :: "completion_type \<Rightarrow> signature" where
  "wrapped (Handler s) = s"
| "wrapped (Transforming t) = wrapped t"

text \<open>
  A handler that is called with an error code on one path and with another argument after it on another
  path, as \<open>connect\<close> does, does not fit with a single fixed list of parameters.
\<close>

lemma two_calls_need_variadic:
  "invocable s [Error_code_arg] \<Longrightarrow> invocable s [Error_code_arg, a] \<Longrightarrow> \<exists>ps. s = Variadic ps"
  by (cases s) (auto dest!: list_all2_lengthD)

text \<open>The call operators of the library's completion objects.\<close>

definition detached_type :: completion_type where
  "detached_type = Handler (Variadic [])"

definition detached_throw_type :: completion_type where
  "detached_throw_type = Handler (Variadic [Error_code_arg])"

definition use_future_type :: completion_type where
  "use_future_type = Transforming (Handler (Fixed [Error_code_arg, Result_arg]))"

definition use_awaitable_type :: completion_type where
  "use_awaitable_type = Transforming (Handler (Fixed [Variant_arg]))"

section \<open>From the kernel to the coroutine\<close>

text \<open>
  The shared states of the operations in flight by address, and the coroutines resumed, each with what
  \<open>await_resume\<close> returned or threw. A handler is the address of its state.
\<close>

record 'h await_world =
  states :: "nat \<Rightarrow> (op_value, 'h) await_state"
  resumed :: "('h \<times> op_value cxx) list"

text \<open>
  The executor calls \<open>using_awaitable_t::operator()\<close>, which resumes the coroutine, whose \<open>await_resume\<close>
  runs first. What the coroutine does afterwards is left out.
\<close>

definition await_effect ::
  "(future_errc \<Rightarrow> int) \<Rightarrow> bool \<Rightarrow> nat handler_call \<Rightarrow> 'h await_world \<Rightarrow> 'h await_world" where
  "await_effect code debug c w =
     (let a = handler c
      in case using_awaitable_call code debug (as_variant c) (states w a) of
           Inl e \<Rightarrow> w
         | Inr (None, s) \<Rightarrow> w\<lparr>states := (states w)(a := s)\<rparr>
         | Inr (Some h, s) \<Rightarrow>
             (case await_resume code debug s of
                (r, s') \<Rightarrow> w\<lparr>states := (states w)(a := s'), resumed := resumed w @ [(h, r)]\<rparr>))"

definition await_throws ::
  "(future_errc \<Rightarrow> int) \<Rightarrow> bool \<Rightarrow> nat handler_call \<Rightarrow> 'h await_world \<Rightarrow> nat option" where
  "await_throws code debug c w =
     (case using_awaitable_call code debug (as_variant c) (states w (handler c)) of
        Inl e \<Rightarrow> Some 0 | Inr _ \<Rightarrow> None)"

section \<open>Lemmas\<close>

lemma converts_variant [simp]: "converts Variant_arg p \<longleftrightarrow> p = Variant_arg"
  by (cases p) simp_all

lemma accepted_signature:
  "is_completion_handler t \<Longrightarrow>
   wrapped t = Fixed [Variant_arg] \<or> wrapped t = Variadic [] \<or> wrapped t = Variadic [Variant_arg]"
proof (induction t)
  case (Handler s)
  then show ?case
  proof (cases s)
    case (Fixed ps)
    then show ?thesis using Handler by (auto simp: list_all2_Cons1)
  next
    case (Variadic ps)
    then show ?thesis using Handler by (cases ps) (auto simp: list_all2_Cons1)
  qed
qed simp

text \<open>What a coroutine gets from a call of its handler.\<close>

definition awaited :: "nat handler_call \<Rightarrow> op_value cxx" where
  "awaited c = (case as_variant c of Inl e \<Rightarrow> Inl (System_error (sint e)) | Inr v \<Rightarrow> Inr v)"

definition awaiting :: "'h \<Rightarrow> (op_value, 'h) await_state" where
  "awaiting h = await_suspend h await_init"

lemma await_call:
  assumes "states w (handler c) = awaiting h"
  shows "await_throws code debug c w = None"
    and "\<exists>s. await_effect code debug c w =
      w\<lparr>states := (states w)(handler c := s), resumed := resumed w @ [(h, awaited c)]\<rparr>"
  using assms
  by (auto simp: await_throws_def await_effect_def using_awaitable_call_def await_resume_def awaiting_def
      await_suspend_def await_init_def awaited_def Let_def split: sum.splits)

lemma await_calls:
  assumes "distinct (map handler cs)" and "list_all (\<lambda>c. states w (handler c) = awaiting (co (handler c))) cs"
  shows "none_throws (await_effect code debug) (await_throws code debug) cs w
    \<and> resumed (fold (await_effect code debug) cs w) = resumed w @ map (\<lambda>c. (co (handler c), awaited c)) cs"
  using assms
proof (induction cs arbitrary: w)
  case (Cons c cs)
  obtain s where s: "await_effect code debug c w =
      w\<lparr>states := (states w)(handler c := s), resumed := resumed w @ [(co (handler c), awaited c)]\<rparr>" (is "_ = ?w")
    using await_call(2) [of w c "co (handler c)"] Cons.prems(2) by auto
  have "list_all (\<lambda>c. states ?w (handler c) = awaiting (co (handler c))) cs"
    using Cons.prems by (auto simp: list_all_iff) (metis image_eqI)
  then show ?case
    using Cons.IH [of ?w] Cons.prems await_call(1) [of w c "co (handler c)"] s by simp
qed simp

lemma handler_callback_call [simp]: "handler (callback_call cb r) = callback_handler cb"
  by (cases cb) (simp_all add: callback_call_def)

lemma awaited_callback_call:
  "awaited (callback_call cb r) =
    (case cb of
       On_open f \<Rightarrow> if r <s 0 then Inl (System_error (sint (- r))) else Inr (Handle r)
     | On_close f \<Rightarrow> Inl (System_error (sint (if r <s 0 then - r else 0)))
     | On_read f \<Rightarrow> if r <s 0 then Inl (System_error (sint (- r))) else Inr (Count (scast r))
     | On_stat buf a f \<Rightarrow> if r <s 0 then Inl (System_error (sint r)) else Inr Done_value)"
  by (cases cb) (simp_all add: awaited_def callback_call_def open_outcome_def close_outcome_def
      read_outcome_def stat_outcome_def)

lemma run_all_silent: "run_all (\<lambda>f w. []) eff fs w = ([], fold eff fs w)"
  by (induction fs arbitrary: w) simp_all

section \<open>Properties\<close>

text \<open>
  What the concept \<open>completion_handler\<close> promises of a completion object whose call operator has one of
  these signatures. Every such object that it accepts, through any number of transformations, ends in a handler that fits the calls of \<open>open\<close>,
  \<open>read\<close> and \<open>stat\<close> (one variant) and of \<open>close\<close> (one error code); but the calls of the other
  operations, with an error code and a value, fit an accepted handler only if it takes any number of
  arguments. \<open>detached\<close> and \<open>use_awaitable\<close> are accepted, \<open>detached_throw\<close> and \<open>use_future\<close> are not.
\<close>

lemma completion_handler_soundness:
  "(is_completion_handler t \<longrightarrow>
      invocable (wrapped t) [Variant_arg] \<and> invocable (wrapped t) [Error_code_arg]
      \<and> (invocable (wrapped t) [Error_code_arg, Result_arg] \<longleftrightarrow> (\<exists>ps. wrapped t = Variadic ps)))
   \<and> is_completion_handler detached_type \<and> is_completion_handler use_awaitable_type
   \<and> \<not> is_completion_handler detached_throw_type \<and> \<not> is_completion_handler use_future_type"
  using accepted_signature [of t]
  by (auto simp: detached_type_def use_awaitable_type_def detached_throw_type_def use_future_type_def)

lemma completion_handler_soundness_witness:
  "invocable (wrapped use_awaitable_type) [Error_code_arg]
   \<and> \<not> invocable (wrapped use_awaitable_type) [Error_code_arg, Result_arg]"
  using completion_handler_soundness [of use_awaitable_type]
  by (simp add: use_awaitable_type_def)

text \<open>
  C17: Operations awaited with \<open>use_awaitable\<close>, end to end: when each of any number of \<open>open\<close>, \<open>close\<close>,
  \<open>read\<close> and \<open>stat\<close> operations is awaited by a coroutine, and the kernel then completes them in any
  order, \<open>run()\<close> of the executor resumes each coroutine once, in the order of completion. After \<open>open\<close>
  and \<open>read\<close> it gets its own descriptor or count, or an exception with the error. After \<open>close\<close> it
  always gets an exception, with code 0 when closing succeeded, since the error code that \<open>close\<close>
  passes becomes the error of the variant; after a failing \<open>stat\<close> the code is negative.
\<close>

theorem awaited_operations_resume:
  assumes "distinct (map (callback_handler \<circ> fst) cbs)"
    and "list_all (\<lambda>(cb, r). states w (callback_handler cb) = awaiting (co (callback_handler cb))) cbs"
  shows "\<exists>w'. uec_run (posting_exec uec_post (\<lambda>c w. []) (await_effect code debug) (await_throws code debug))
        (exec (fold (\<lambda>(cb, r). ring_callback uec_post cb r) cbs \<lparr>exec = uec_init, stats = st\<rparr>)) w =
      Some ((uec_init, w'), Inr (length cbs))
    \<and> resumed w' = resumed w @ map (\<lambda>(cb, r). (co (callback_handler cb),
        case cb of
          On_open f \<Rightarrow> if r <s 0 then Inl (System_error (sint (- r))) else Inr (Handle r)
        | On_close f \<Rightarrow> Inl (System_error (sint (if r <s 0 then - r else 0)))
        | On_read f \<Rightarrow> if r <s 0 then Inl (System_error (sint (- r))) else Inr (Count (scast r))
        | On_stat buf a f \<Rightarrow> if r <s 0 then Inl (System_error (sint r)) else Inr Done_value)) cbs"
proof -
  define cs where "cs = map (\<lambda>(cb, r). callback_call cb r) cbs"
  have handlers: "map handler cs = map (callback_handler \<circ> fst) cbs"
    unfolding cs_def by (induction cbs) (auto simp: handler_callback_call)
  have "list_all (\<lambda>c. states w (handler c) = awaiting (co (handler c))) cs"
    using assms(2) unfolding cs_def by (induction cbs) (auto simp: handler_callback_call)
  with assms(1) have calls:
    "none_throws (await_effect code debug) (await_throws code debug) cs w"
    "resumed (fold (await_effect code debug) cs w) = resumed w @ map (\<lambda>c. (co (handler c), awaited c)) cs"
    using await_calls [of cs w co code debug] handlers by auto
  have "map (\<lambda>c. (co (handler c), awaited c)) cs = map (\<lambda>(cb, r). (co (callback_handler cb),
        case cb of
          On_open f \<Rightarrow> if r <s 0 then Inl (System_error (sint (- r))) else Inr (Handle r)
        | On_close f \<Rightarrow> Inl (System_error (sint (if r <s 0 then - r else 0)))
        | On_read f \<Rightarrow> if r <s 0 then Inl (System_error (sint (- r))) else Inr (Count (scast r))
        | On_stat buf a f \<Rightarrow> if r <s 0 then Inl (System_error (sint r)) else Inr Done_value)) cbs"
    unfolding cs_def by (auto simp: awaited_callback_call handler_callback_call)
  then show ?thesis
    using uec_loop_batch [OF calls(1), of "\<lambda>c w. []" 0 "[]"] calls(2)
    by (simp add: callbacks_queue uec_init_def uec_run_def run_all_silent uec_loop_empty cs_def)
qed

theorem awaited_operations_resume_witness:
  "\<forall>st. \<exists>w'. uec_run (posting_exec uec_post (\<lambda>c w. []) (await_effect (\<lambda>e. 1) True) (await_throws (\<lambda>e. 1) True))
      (exec (fold (\<lambda>(cb, r). ring_callback uec_post cb r) [(On_close 1, 0), (On_open 0, 5)]
        \<lparr>exec = uec_init, stats = st\<rparr>)) \<lparr>states = (\<lambda>a. awaiting (a + 10)), resumed = []\<rparr> =
      Some ((uec_init, w'), Inr 2)
    \<and> resumed w' = [(11, Inl (System_error 0)), (10 :: nat, Inr (Handle 5))]"
proof
  fix st
  show "\<exists>w'. uec_run (posting_exec uec_post (\<lambda>c w. []) (await_effect (\<lambda>e. 1) True) (await_throws (\<lambda>e. 1) True))
      (exec (fold (\<lambda>(cb, r). ring_callback uec_post cb r) [(On_close 1, 0), (On_open 0, 5)]
        \<lparr>exec = uec_init, stats = st\<rparr>)) \<lparr>states = (\<lambda>a. awaiting (a + 10)), resumed = []\<rparr> =
      Some ((uec_init, w'), Inr 2)
    \<and> resumed w' = [(11, Inl (System_error 0)), (10 :: nat, Inr (Handle 5))]"
    using awaited_operations_resume [of "[(On_close 1, 0), (On_open 0, 5)]"
        "\<lparr>states = (\<lambda>a. awaiting (a + 10)), resumed = []\<rparr>" "\<lambda>a. a + 10" "\<lambda>e. 1" True st]
    by (simp add: word_sless_alt numeral_2_eq_2)
qed

end
