(* ===== verification/Epoll_Service.thy ===== *)
theory Epoll_Service
  imports Execution_Context Native_Result
begin

text \<open>
  \<open>include/tcx/services/epoll_service.hpp\<close>, \<open>src/epoll_service.cpp\<close> and
  \<open>async/epoll/accept.hpp\<close>. The system calls are arguments: each returns its result, \<open>errno\<close> and the
  kernel's next state. The interest list of the kernel is a map of its own, so that what the kernel
  still points to and what the service still owns can differ. \<open>tbb::concurrent_hash_map\<close> is used from
  one thread here and is a map. A completion object is an address.

  \<open>async_poll_add\<close> cannot be instantiated as written, for two reasons: it stores its completion in a
  type that does not convert to that of the map, and the function it calls the completion through casts
  the callback, an object, to a pointer to its type. The model is what it does apart from these two: the
  map owns the completion, and the call goes to the callback.
\<close>

record 'k epoll_os =
  os_create :: "'k \<Rightarrow> c_int \<times> int \<times> 'k"
  os_add :: "c_int \<Rightarrow> c_int \<Rightarrow> nat \<Rightarrow> c_uint \<Rightarrow> 'k \<Rightarrow> c_int \<times> int \<times> 'k"
  os_del :: "c_int \<Rightarrow> c_int \<Rightarrow> 'k \<Rightarrow> c_int \<times> int \<times> 'k"
  os_pwait :: "c_int \<Rightarrow> nat \<Rightarrow> 'k \<Rightarrow> c_int \<times> int \<times> (nat \<times> c_uint) list \<times> 'k"
  os_close :: "c_int \<Rightarrow> 'k \<Rightarrow> 'k"

text \<open>
  \<open>m_data\<close> maps a descriptor to the address of its completion, \<open>live\<close> is what lives at an address, and
  \<open>invoked\<close> the calls of callbacks so far.
\<close>

record ('f, 'k) epoll_service =
  m_handle :: handle_type
  m_data :: "c_int \<Rightarrow> nat option"
  live :: "nat \<Rightarrow> (c_int \<times> 'f) option"
  next_address :: nat
  kernel :: 'k
  invoked :: "('f \<times> c_int) list"

text \<open>
  \<open>ErasedDeleter\<close> of the map's pointers: default constructed it has no function, constructed for a type
  it has the one that deletes an object of that type.
\<close>

type_synonym 'w erased_deleter = "(nat \<Rightarrow> 'w \<Rightarrow> 'w) option"

definition erased_default :: "'w erased_deleter" where
  "erased_default = None"

definition erased_for :: "(nat \<Rightarrow> 'w \<Rightarrow> 'w) \<Rightarrow> 'w erased_deleter" where
  "erased_for delete = Some delete"

definition erased_call :: "'w erased_deleter \<Rightarrow> nat \<Rightarrow> 'w \<Rightarrow> 'w cxx" where
  "erased_call d ptr w = (case d of None \<Rightarrow> Inl Undefined | Some pfn_deleter \<Rightarrow> Inr (pfn_deleter ptr w))"

lemma erased_deleter_calls:
  "erased_call erased_default ptr w = Inl Undefined" "erased_call (erased_for delete) ptr w = Inr (delete ptr w)"
  by (simp_all add: erased_call_def erased_default_def erased_for_def)

definition epoll_create :: "'k epoll_os \<Rightarrow> 'k \<Rightarrow> ('f, 'k) epoll_service cxx" where
  "epoll_create os k =
     (case os_create os k of (h, errno, k') \<Rightarrow>
        if h <s 0 then Inl (System_error errno)
        else Inr \<lparr>m_handle = h, m_data = (\<lambda>_. None), live = (\<lambda>_. None), next_address = 0,
               kernel = k', invoked = []\<rparr>)"

text \<open>\<open>oneshot\<close> is \<open>EPOLLONESHOT\<close>; \<open>emplace\<close> does not replace an entry that is there.\<close>

unbundle bit_operations_syntax

definition epoll_poll_add ::
  "c_uint \<Rightarrow> 'k epoll_os \<Rightarrow> c_int \<Rightarrow> c_uint \<Rightarrow> 'f \<Rightarrow> ('f, 'k) epoll_service \<Rightarrow>
   ('f, 'k) epoll_service cxx" where
  "epoll_poll_add oneshot os fd events f s =
     (let p = next_address s
      in case os_add os (m_handle s) fd p (events OR oneshot) (kernel s) of (res, errno, k) \<Rightarrow>
           if res <s 0 then Inl (System_error errno)
           else if m_data s fd = None
             then Inr (s\<lparr>kernel := k, next_address := Suc p, live := (live s)(p := Some (fd, f)),
                    m_data := (m_data s)(fd := Some p)\<rparr>)
             else Inr (s\<lparr>kernel := k, next_address := Suc p\<rparr>))"

text \<open>\<open>pfn_invoke\<close> of the completion at an address.\<close>

definition pfn_invoke :: "nat \<Rightarrow> c_int \<Rightarrow> ('f, 'k) epoll_service \<Rightarrow> (c_int \<times> ('f, 'k) epoll_service) cxx" where
  "pfn_invoke p e s =
     (case live s p of
        None \<Rightarrow> Inl Undefined
      | Some (fd, f) \<Rightarrow> Inr (fd, s\<lparr>invoked := invoked s @ [(f, e)]\<rparr>))"

definition epoll_erase :: "c_int \<Rightarrow> ('f, 'k) epoll_service \<Rightarrow> ('f, 'k) epoll_service" where
  "epoll_erase fd s =
     (case m_data s fd of
        None \<Rightarrow> s
      | Some p \<Rightarrow> s\<lparr>m_data := (m_data s)(fd := None), live := (live s)(p := None)\<rparr>)"

text \<open>\<open>ecanceled\<close> is \<open>ECANCELED\<close>.\<close>

definition epoll_poll_remove ::
  "c_int \<Rightarrow> 'k epoll_os \<Rightarrow> c_int \<Rightarrow> ('f, 'k) epoll_service \<Rightarrow> ('f, 'k) epoll_service cxx" where
  "epoll_poll_remove ecanceled os fd s =
     (case os_del os (m_handle s) fd (kernel s) of (res, errno, k) \<Rightarrow>
        if res <s 0 then Inl (System_error errno)
        else
          let s1 = s\<lparr>kernel := k\<rparr>
          in case m_data s1 fd of
               None \<Rightarrow> Inr s1
             | Some p \<Rightarrow>
                 cxx_bind (pfn_invoke p (- ecanceled) s1) (\<lambda>(fd', s2). Inr (epoll_erase fd s2)))"

definition epoll_pending :: "('f, 'k) epoll_service \<Rightarrow> nat" where
  "epoll_pending s = card (dom (m_data s))"

text \<open>
  \<open>poll\<close>: the vector of events is empty, so the call asks for at most 0 events, and the loop is over
  the vector, not over what the call reports.
\<close>

fun epoll_events :: "(nat \<times> c_uint) list \<Rightarrow> ('f, 'k) epoll_service \<Rightarrow> ('f, 'k) epoll_service cxx" where
  "epoll_events [] s = Inr s"
| "epoll_events ((p, ev) # es) s =
     cxx_bind (pfn_invoke p ev s) (\<lambda>(fd, s1). epoll_events es (epoll_erase fd s1))"

definition epoll_poll :: "'k epoll_os \<Rightarrow> ('f, 'k) epoll_service \<Rightarrow> ('f, 'k) epoll_service cxx" where
  "epoll_poll os s =
     (let events = [] :: (nat \<times> c_uint) list
      in case os_pwait os (m_handle s) (length events) (kernel s) of (result, errno, written, k) \<Rightarrow>
           if result <s 0 then Inl (System_error errno)
           else
             let events' = map snd (zip events written)
             in epoll_events events' (s\<lparr>kernel := k\<rparr>))"

definition epoll_destroy ::
  "bool \<Rightarrow> 'k epoll_os \<Rightarrow> ('f, 'k) epoll_service \<Rightarrow> ('f, 'k) epoll_service cxx" where
  "epoll_destroy debug os s =
     cxx_bind (cxx_assert debug (epoll_pending s = 0)) (\<lambda>_.
     Inr (if m_handle s \<noteq> invalid_handle
          then s\<lparr>kernel := os_close os (m_handle s) (kernel s), m_handle := invalid_handle\<rparr> else s))"

section \<open>accept\<close>

text \<open>
  What the posted completion of \<open>epoll_accept_operation\<close> calls, the user's handler with an error code
  and a descriptor each time, and \<open>*addr_len\<close> after it (\<open>None\<close> for a null pointer). \<open>accept4\<close> takes the
  length and gives its result, \<open>errno\<close> as it is afterwards, and the length.
\<close>

definition epoll_accept ::
  "c_int \<Rightarrow> u64 option \<Rightarrow> (c_uint option \<Rightarrow> c_int \<times> c_int \<times> c_uint) \<Rightarrow>
   (c_int \<times> handle_type) list \<times> u64 option" where
  "epoll_accept result addr_len accept4 =
     (if result <s 0 then ([(- result, invalid_handle)], addr_len)
      else
        let (calls, addr_len') =
          (case addr_len of
             None \<Rightarrow> (case accept4 None of (new_fd, errno, real_len) \<Rightarrow>
               (if \<not> new_fd <s 0 then [(0, new_fd)] else [], None))
           | Some l \<Rightarrow> (case accept4 (Some (ucast l)) of (new_fd, errno, real_len) \<Rightarrow>
               if \<not> new_fd <s 0 then ([(0, new_fd)], Some (ucast real_len)) else ([], Some l)))
        in case accept4 (map_option ucast addr_len) of (new_fd, errno, real_len) \<Rightarrow>
             (calls @ [(errno, invalid_handle)], addr_len'))"

section \<open>Lemmas\<close>

text \<open>
  The service owns exactly the completions of its map, each registered under its own descriptor.
\<close>

definition epoll_inv :: "('f, 'k) epoll_service \<Rightarrow> bool" where
  "epoll_inv s \<longleftrightarrow> (\<forall>fd p. m_data s fd = Some p \<longrightarrow> (\<exists>f. live s p = Some (fd, f)))
     \<and> (\<forall>p fd f. live s p = Some (fd, f) \<longrightarrow> m_data s fd = Some p)
     \<and> (\<forall>p. next_address s \<le> p \<longrightarrow> live s p = None)
     \<and> finite (dom (m_data s))"

lemma epoll_inv_create: "epoll_create os k = Inr s \<Longrightarrow> epoll_inv s \<and> epoll_pending s = 0 \<and> invoked s = []"
  by (auto simp: epoll_create_def epoll_inv_def epoll_pending_def split: prod.splits if_splits)

text \<open>A connection that is accepted is reported, and then reported again as an error.\<close>

lemma accept_success_calls_twice:
  "\<not> result <s 0 \<Longrightarrow> accept4 (map_option ucast addr_len) = (new_fd, errno, real_len) \<Longrightarrow> \<not> new_fd <s 0 \<Longrightarrow>
   epoll_accept result addr_len accept4 =
     ([(0, new_fd), (errno, invalid_handle)], map_option (\<lambda>_. ucast real_len) addr_len)"
  by (cases addr_len) (simp_all add: epoll_accept_def Let_def)

text \<open>The callbacks that the service owns.\<close>

definition epoll_owned :: "('f, 'k) epoll_service \<Rightarrow> 'f multiset" where
  "epoll_owned s = image_mset (\<lambda>fd. snd (the (live s (the (m_data s fd))))) (mset_set (dom (m_data s)))"

lemma epoll_inv_live:
  assumes "epoll_inv s" "m_data s fd = Some p"
  shows "\<exists>f. live s p = Some (fd, f)"
  using assms(1) unfolding epoll_inv_def by (elim conjE allE [of _ fd]) (use assms(2) in blast)

lemma epoll_inv_data:
  assumes "epoll_inv s" "live s p = Some (fd, f)"
  shows "m_data s fd = Some p"
  using assms unfolding epoll_inv_def by metis

lemma epoll_inv_finite: "epoll_inv s \<Longrightarrow> finite (dom (m_data s))"
  unfolding epoll_inv_def by (elim conjE)

lemma epoll_inv_fresh:
  assumes "epoll_inv s" "next_address s \<le> p"
  shows "live s p = None"
  using assms unfolding epoll_inv_def by metis

lemma epoll_invI:
  assumes "\<And>fd p. m_data s fd = Some p \<Longrightarrow> \<exists>f. live s p = Some (fd, f)"
    and "\<And>p fd f. live s p = Some (fd, f) \<Longrightarrow> m_data s fd = Some p"
    and "\<And>p. next_address s \<le> p \<Longrightarrow> live s p = None"
    and "finite (dom (m_data s))"
  shows "epoll_inv s"
  unfolding epoll_inv_def using assms by (intro conjI allI impI)

lemma epoll_inv_unique:
  assumes "epoll_inv s" "m_data s fd = Some p" "m_data s fd' = Some p"
  shows "fd = fd'"
  using epoll_inv_live [OF assms(1,2)] epoll_inv_live [OF assms(1,3)] by auto

lemma epoll_inv_cong:
  assumes "epoll_inv s" "m_data s' = m_data s" "live s' = live s" "next_address s \<le> next_address s'"
  shows "epoll_inv s'"
proof (rule epoll_invI)
  show "\<exists>f. live s' p = Some (fd, f)" if "m_data s' fd = Some p" for fd p
    using epoll_inv_live [OF assms(1)] that assms by simp
  show "m_data s' fd = Some p" if "live s' p = Some (fd, f)" for p fd f
    using epoll_inv_data [OF assms(1)] that assms by simp
  show "live s' p = None" if "next_address s' \<le> p" for p
    using epoll_inv_fresh [OF assms(1)] that assms by simp
  show "finite (dom (m_data s'))"
    using epoll_inv_finite [OF assms(1)] assms by simp
qed

lemma epoll_owned_cong:
  "m_data s' = m_data s \<Longrightarrow> live s' = live s \<Longrightarrow> epoll_owned s' = epoll_owned s"
  by (simp add: epoll_owned_def)

text \<open>Registering under a free descriptor.\<close>

definition epoll_inserted :: "c_int \<Rightarrow> 'f \<Rightarrow> 'k \<Rightarrow> ('f, 'k) epoll_service \<Rightarrow> ('f, 'k) epoll_service" where
  "epoll_inserted fd f k s = s\<lparr>kernel := k, next_address := Suc (next_address s),
      live := (live s)(next_address s := Some (fd, f)), m_data := (m_data s)(fd := Some (next_address s))\<rparr>"

lemma epoll_insert:
  assumes inv: "epoll_inv s" and free: "m_data s fd = None"
  shows "epoll_inv (epoll_inserted fd f k s)" (is "epoll_inv ?s'")
    and "epoll_owned (epoll_inserted fd f k s) = add_mset f (epoll_owned s)"
proof -
  note s'_def = epoll_inserted_def
  have ne: "p \<noteq> next_address s" if "m_data s fd' = Some p" for fd' p
    using epoll_inv_live [OF inv that] epoll_inv_fresh [OF inv, of p] by auto
  have fresh: "live s (next_address s) = None"
    by (rule epoll_inv_fresh [OF inv]) simp
  show "epoll_inv ?s'"
  proof (rule epoll_invI)
    show "\<exists>g. live ?s' p = Some (fd', g)" if "m_data ?s' fd' = Some p" for fd' p
      using epoll_inv_live [OF inv, of fd' p] ne [of fd' p] that
      by (cases "fd' = fd") (simp_all add: s'_def)
    show "m_data ?s' fd' = Some p" if "live ?s' p = Some (fd', g)" for p fd' g
      using epoll_inv_data [OF inv, of p fd' g] free that
      by (cases "p = next_address s"; cases "fd' = fd") (simp_all add: s'_def)
    show "live ?s' p = None" if "next_address ?s' \<le> p" for p
      using epoll_inv_fresh [OF inv, of p] that by (simp add: s'_def)
    show "finite (dom (m_data ?s'))"
      using epoll_inv_finite [OF inv] by (simp add: s'_def)
  qed
  have d: "dom (m_data ?s') = insert fd (dom (m_data s))" "fd \<notin> dom (m_data s)"
    using free by (auto simp: s'_def)
  have "image_mset (\<lambda>x. snd (the (live ?s' (the (m_data ?s' x))))) (mset_set (dom (m_data s))) = epoll_owned s"
    unfolding epoll_owned_def
  proof (rule image_mset_cong)
    fix x
    assume "x \<in># mset_set (dom (m_data s))"
    then obtain p where p: "m_data s x = Some p"
      using epoll_inv_finite [OF inv] by auto
    moreover have "x \<noteq> fd"
      using p free by auto
    ultimately show "snd (the (live ?s' (the (m_data ?s' x)))) = snd (the (live s (the (m_data s x))))"
      using ne [OF p] by (simp add: s'_def)
  qed
  then show "epoll_owned ?s' = add_mset f (epoll_owned s)"
    using d epoll_inv_finite [OF inv] by (simp add: epoll_owned_def) (simp add: s'_def)
qed

text \<open>Erasing an entry.\<close>

lemma epoll_delete:
  assumes inv: "epoll_inv s" and at: "m_data s fd = Some p" "live s p = Some (fd, f)"
  shows "epoll_inv (epoll_erase fd s)" and "epoll_owned s = add_mset f (epoll_owned (epoll_erase fd s))"
proof -
  let ?s = "epoll_erase fd s"
  have e: "?s = s\<lparr>m_data := (m_data s)(fd := None), live := (live s)(p := None)\<rparr>"
    using at by (simp add: epoll_erase_def)
  have ne: "q \<noteq> p" if "m_data s x = Some q" "x \<noteq> fd" for x q
    using epoll_inv_unique [OF inv that(1)] at(1) that(2) by auto
  show "epoll_inv ?s"
  proof (rule epoll_invI)
    show "\<exists>g. live ?s q = Some (x, g)" if "m_data ?s x = Some q" for x q
      using epoll_inv_live [OF inv, of x q] ne [of x q] that by (cases "x = fd") (simp_all add: e)
    show "m_data ?s x = Some q" if "live ?s q = Some (x, g)" for q x g
      using epoll_inv_data [OF inv, of q x g] at that by (cases "q = p"; cases "x = fd") (simp_all add: e)
    show "live ?s q = None" if "next_address ?s \<le> q" for q
      using epoll_inv_fresh [OF inv, of q] that by (simp add: e)
    show "finite (dom (m_data ?s))"
      using epoll_inv_finite [OF inv] by (simp add: e)
  qed
  have d: "dom (m_data s) = insert fd (dom (m_data ?s))" "fd \<notin> dom (m_data ?s)"
    using at by (auto simp: e)
  have "image_mset (\<lambda>x. snd (the (live s (the (m_data s x))))) (mset_set (dom (m_data ?s))) = epoll_owned ?s"
    unfolding epoll_owned_def
  proof (rule image_mset_cong)
    fix x
    assume "x \<in># mset_set (dom (m_data ?s))"
    then have "x \<in> dom (m_data ?s)"
      using epoll_inv_finite [OF inv] by (simp add: e)
    then obtain q where q: "m_data s x = Some q" "x \<noteq> fd"
      by (auto simp: e split: if_splits)
    then show "snd (the (live s (the (m_data s x)))) = snd (the (live ?s (the (m_data ?s x))))"
      using ne [OF q] by (simp add: e)
  qed
  then show "epoll_owned s = add_mset f (epoll_owned ?s)"
    using d epoll_inv_finite [OF inv] at by (simp add: epoll_owned_def)
qed

section \<open>The kernel and sequences of calls\<close>

text \<open>
  What the manual says of the interest list \<open>reg\<close>: a descriptor can be added only when it is not on
  it, deleted only when it is, and waiting leaves it. (Closing a descriptor elsewhere is not
  one of these calls.)
\<close>

definition epoll_kernel :: "'k epoll_os \<Rightarrow> ('k \<Rightarrow> c_int set) \<Rightarrow> bool" where
  "epoll_kernel os reg \<longleftrightarrow>
     (\<forall>h fd p ev k res errno k'. os_add os h fd p ev k = (res, errno, k') \<longrightarrow> \<not> res <s 0 \<longrightarrow>
        reg k' = insert fd (reg k) \<and> fd \<notin> reg k)
     \<and> (\<forall>h fd k res errno k'. os_del os h fd k = (res, errno, k') \<longrightarrow> \<not> res <s 0 \<longrightarrow>
        reg k' = reg k - {fd} \<and> fd \<in> reg k)
     \<and> (\<forall>h n k res errno evs k'. os_pwait os h n k = (res, errno, evs, k') \<longrightarrow> reg k' = reg k)"

lemma epoll_kernel_add:
  assumes "epoll_kernel os reg" "os_add os h fd p ev k = (res, errno, k')" "\<not> res <s 0"
  shows "reg k' = insert fd (reg k)" "fd \<notin> reg k"
  using assms unfolding epoll_kernel_def by metis+

lemma epoll_kernel_del:
  assumes "epoll_kernel os reg" "os_del os h fd k = (res, errno, k')" "\<not> res <s 0"
  shows "reg k' = reg k - {fd}" "fd \<in> reg k"
  using assms unfolding epoll_kernel_def by metis+

lemma epoll_kernel_pwait:
  assumes "epoll_kernel os reg" "os_pwait os h n k = (res, errno, evs, k')"
  shows "reg k' = reg k"
  using assms unfolding epoll_kernel_def by metis

datatype 'f epoll_op = Poll_add c_int c_uint 'f | Poll_remove c_int | Poll_wait

definition epoll_step ::
  "c_uint \<Rightarrow> c_int \<Rightarrow> 'k epoll_os \<Rightarrow> 'f epoll_op \<Rightarrow> ('f, 'k) epoll_service \<Rightarrow> ('f, 'k) epoll_service cxx" where
  "epoll_step oneshot ecanceled os op s =
     (case op of
        Poll_add fd ev f \<Rightarrow> epoll_poll_add oneshot os fd ev f s
      | Poll_remove fd \<Rightarrow> epoll_poll_remove ecanceled os fd s
      | Poll_wait \<Rightarrow> epoll_poll os s)"

primrec epoll_run ::
  "c_uint \<Rightarrow> c_int \<Rightarrow> 'k epoll_os \<Rightarrow> 'f epoll_op list \<Rightarrow> ('f, 'k) epoll_service \<Rightarrow>
   ('f, 'k) epoll_service cxx" where
  "epoll_run oneshot ecanceled os [] s = Inr s"
| "epoll_run oneshot ecanceled os (op # ops) s =
     cxx_bind (epoll_step oneshot ecanceled os op s) (epoll_run oneshot ecanceled os ops)"

definition added :: "'f epoll_op \<Rightarrow> 'f multiset" where
  "added op = (case op of Poll_add fd ev f \<Rightarrow> {#f#} | _ \<Rightarrow> {#})"

text \<open>The service and the kernel agree on the descriptors.\<close>

definition epoll_agree :: "('k \<Rightarrow> c_int set) \<Rightarrow> ('f, 'k) epoll_service \<Rightarrow> bool" where
  "epoll_agree reg s \<longleftrightarrow> epoll_inv s \<and> dom (m_data s) = reg (kernel s)"

lemma epoll_agreeI: "epoll_inv s \<Longrightarrow> dom (m_data s) = reg (kernel s) \<Longrightarrow> epoll_agree reg s"
  by (simp add: epoll_agree_def)

text \<open>
  \<open>poll\<close> delivers no event, whatever the kernel reports: the vector it hands to \<open>epoll_pwait\<close> has no
  room, so the call either throws what \<open>epoll_pwait\<close> set in \<open>errno\<close> or returns with every callback
  uncalled and every registration in place.
\<close>

lemma epoll_poll_outcome:
  "epoll_poll os s =
     (case os_pwait os (m_handle s) 0 (kernel s) of (result, errno, written, k) \<Rightarrow>
        if result <s 0 then Inl (System_error errno) else Inr (s\<lparr>kernel := k\<rparr>))"
  by (simp add: epoll_poll_def split: prod.split)

text \<open>
  What one call keeps: the callbacks added before and by it are those called and those owned, and it
  calls with \<open>-ECANCELED\<close> only.
\<close>

definition epoll_keeps ::
  "c_int \<Rightarrow> ('k \<Rightarrow> c_int set) \<Rightarrow> 'f multiset \<Rightarrow> ('f, 'k) epoll_service \<Rightarrow> ('f, 'k) epoll_service cxx \<Rightarrow> bool" where
  "epoll_keeps ecanceled reg new s r \<longleftrightarrow>
     (case r of
        Inl e \<Rightarrow> e \<noteq> Undefined
      | Inr s' \<Rightarrow> epoll_agree reg s' \<and>
          mset (map fst (invoked s')) + epoll_owned s' = mset (map fst (invoked s)) + epoll_owned s + new \<and>
          (\<exists>fs. invoked s' = invoked s @ map (\<lambda>f. (f, - ecanceled)) fs))"

lemma epoll_add_keeps:
  assumes K: "epoll_kernel os reg" and agree: "epoll_agree reg s"
  shows "epoll_keeps ecanceled reg {#f#} s (epoll_poll_add oneshot os fd ev f s)"
proof (cases "os_add os (m_handle s) fd (next_address s) (ev OR oneshot) (kernel s)")
  case (fields res errno k)
  note ad = epoll_kernel_add [OF K fields]
  note inv = agree [unfolded epoll_agree_def]
  show ?thesis
  proof (cases "res <s 0")
    case True
    then show ?thesis
      by (simp add: epoll_poll_add_def epoll_keeps_def fields Let_def)
  next
    case False
    then have free: "m_data s fd = None"
      using ad(2) inv by auto
    have "epoll_poll_add oneshot os fd ev f s = Inr (epoll_inserted fd f k s)"
      using False free by (simp add: epoll_poll_add_def fields epoll_inserted_def Let_def)
    moreover have "epoll_agree reg (epoll_inserted fd f k s)"
      using epoll_insert(1) [OF conjunct1 [OF inv] free] ad(1) [OF False] inv
      by (intro epoll_agreeI) (simp_all add: epoll_inserted_def)
    moreover have "invoked (epoll_inserted fd f k s) = invoked s @ map (\<lambda>f. (f, - ecanceled)) []"
      by (simp add: epoll_inserted_def)
    ultimately show ?thesis
      using epoll_insert(2) [OF conjunct1 [OF inv] free]
      by (simp add: epoll_keeps_def)
  qed
qed

lemma epoll_remove_keeps:
  assumes K: "epoll_kernel os reg" and agree: "epoll_agree reg s"
  shows "epoll_keeps ecanceled reg {#} s (epoll_poll_remove ecanceled os fd s)"
proof (cases "os_del os (m_handle s) fd (kernel s)")
  case (fields res errno k)
  note de = epoll_kernel_del [OF K fields]
  have inv: "epoll_inv s" and dom: "dom (m_data s) = reg (kernel s)"
    using agree by (simp_all add: epoll_agree_def)
  show ?thesis
  proof (cases "res <s 0")
    case True
    then show ?thesis
      by (simp add: epoll_poll_remove_def epoll_keeps_def fields)
  next
    case False
    then have "fd \<in> dom (m_data s)"
      using de(2) dom by simp
    then obtain p where p: "m_data s fd = Some p"
      by blast
    then obtain f where f: "live s p = Some (fd, f)"
      using epoll_inv_live [OF inv] by blast
    define t where "t = s\<lparr>kernel := k, invoked := invoked s @ [(f, - ecanceled)]\<rparr>"
    have r: "epoll_poll_remove ecanceled os fd s = Inr (epoll_erase fd t)"
      using False p f by (simp add: epoll_poll_remove_def fields Let_def pfn_invoke_def t_def)
    have t: "epoll_inv t" "epoll_owned t = epoll_owned s" "m_data t fd = Some p" "live t p = Some (fd, f)"
      using epoll_inv_cong [OF inv, of t] epoll_owned_cong [of t s] p f by (simp_all add: t_def)
    have "dom (m_data (epoll_erase fd t)) = reg (kernel (epoll_erase fd t))"
      using t(3) de(1) [OF False] dom by (simp add: epoll_erase_def t_def)
    moreover have "invoked (epoll_erase fd t) = invoked s @ map (\<lambda>f. (f, - ecanceled)) [f]"
      using t(3) by (simp add: epoll_erase_def t_def)
    ultimately show ?thesis
      using epoll_delete [OF t(1,3,4)] t(2) unfolding r epoll_keeps_def
      by (simp add: epoll_agreeI exI [of _ "[f]"])
  qed
qed

lemma epoll_wait_keeps:
  assumes K: "epoll_kernel os reg" and agree: "epoll_agree reg s"
  shows "epoll_keeps ecanceled reg {#} s (epoll_poll os s)"
proof (cases "os_pwait os (m_handle s) 0 (kernel s)")
  case (fields res errno evs k)
  have "epoll_agree reg (s\<lparr>kernel := k\<rparr>)"
    using agree epoll_inv_cong [of s "s\<lparr>kernel := k\<rparr>"] epoll_kernel_pwait [OF K fields]
    by (intro epoll_agreeI) (simp_all add: epoll_agree_def)
  moreover have "epoll_owned (s\<lparr>kernel := k\<rparr>) = epoll_owned s"
    by (rule epoll_owned_cong) simp_all
  moreover have "invoked (s\<lparr>kernel := k\<rparr>) = invoked s @ map (\<lambda>f. (f, - ecanceled)) []"
    by simp
  ultimately show ?thesis
    by (simp add: epoll_poll_outcome epoll_keeps_def fields)
qed

lemma epoll_step_keeps:
  assumes "epoll_kernel os reg" "epoll_agree reg s"
  shows "epoll_keeps ecanceled reg (added op) s (epoll_step oneshot ecanceled os op s)"
  using assms epoll_add_keeps epoll_remove_keeps epoll_wait_keeps
  by (cases op) (simp_all add: epoll_step_def added_def)

lemma epoll_keepsD:
  assumes "epoll_keeps ecanceled reg new s r"
  shows "r \<noteq> Inl Undefined"
    and "r = Inr s' \<Longrightarrow> epoll_agree reg s'"
    and "r = Inr s' \<Longrightarrow>
      mset (map fst (invoked s')) + epoll_owned s' = mset (map fst (invoked s)) + epoll_owned s + new"
    and "r = Inr s' \<Longrightarrow> \<exists>fs. invoked s' = invoked s @ map (\<lambda>f. (f, - ecanceled)) fs"
  using assms unfolding epoll_keeps_def by (auto split: sum.splits)

lemma epoll_keeps_trans:
  assumes "epoll_keeps ecanceled reg m s (Inr s')" "epoll_keeps ecanceled reg n s' r"
  shows "epoll_keeps ecanceled reg (m + n) s r"
proof (cases r)
  case (Inl e)
  then show ?thesis
    using assms(2) by (simp add: epoll_keeps_def)
next
  case (Inr t)
  obtain fs where fs: "invoked s' = invoked s @ map (\<lambda>f. (f, - ecanceled)) fs"
    using epoll_keepsD(4) [OF assms(1) refl] by blast
  obtain gs where "invoked t = invoked s' @ map (\<lambda>f. (f, - ecanceled)) gs"
    using epoll_keepsD(4) [OF assms(2) Inr] by blast
  then have "invoked t = invoked s @ map (\<lambda>f. (f, - ecanceled)) (fs @ gs)"
    using fs by simp
  then have "\<exists>hs. invoked t = invoked s @ map (\<lambda>f. (f, - ecanceled)) hs"
    by blast
  then show ?thesis
    using epoll_keepsD(2,3) [OF assms(2) Inr] epoll_keepsD(3) [OF assms(1) refl] Inr
    by (simp only: epoll_keeps_def sum.case) (simp add: ac_simps)
qed

lemma epoll_run_keeps:
  assumes "epoll_kernel os reg" "epoll_agree reg s"
  shows "epoll_keeps ecanceled reg (sum_list (map added ops)) s (epoll_run oneshot ecanceled os ops s)"
  using assms(2)
proof (induction ops arbitrary: s)
  case Nil
  then show ?case
    by (simp add: epoll_keeps_def)
next
  case (Cons op ops)
  note step = epoll_step_keeps [OF assms(1) Cons.prems, of ecanceled op oneshot]
  show ?case
  proof (cases "epoll_step oneshot ecanceled os op s")
    case (Inl e)
    then show ?thesis
      using step by (simp add: epoll_keeps_def)
  next
    case (Inr s')
    then have "epoll_keeps ecanceled reg (added op) s (Inr s')"
      using step by simp
    from epoll_keeps_trans [OF this Cons.IH [OF epoll_keepsD(2) [OF step Inr]]] show ?thesis
      using Inr by simp
  qed
qed

section \<open>Properties\<close>

text \<open>
  Along any sequence of \<open>async_poll_add\<close>, \<open>poll_remove\<close> and \<open>poll\<close> on a fresh service, with a
  kernel that keeps its interest list as documented, no call touches a destroyed completion, and after
  it each callback that was added has been called once, with \<open>-ECANCELED\<close>, or is still owned: the
  service holds one completion for each descriptor that the kernel watches.
\<close>

lemma epoll_callbacks_conserved:
  assumes "epoll_kernel os reg" and "epoll_create os k = Inr s" and "reg (kernel s) = {}"
  shows "case epoll_run oneshot ecanceled os ops s of
           Inl e \<Rightarrow> e \<noteq> Undefined
         | Inr s' \<Rightarrow>
             mset (map fst (invoked s')) + epoll_owned s' = sum_list (map added ops) \<and>
             (\<forall>(f, e) \<in> set (invoked s'). e = - ecanceled) \<and>
             epoll_inv s' \<and> dom (m_data s') = reg (kernel s')"
proof -
  have fresh: "epoll_agree reg s" "invoked s = []" "epoll_owned s = {#}"
    using epoll_inv_create [OF assms(2)] assms(2,3)
    by (auto simp: epoll_agree_def epoll_owned_def epoll_create_def split: prod.splits if_splits)
  note run = epoll_run_keeps [OF assms(1) fresh(1), of ecanceled ops oneshot]
  show ?thesis
  proof (cases "epoll_run oneshot ecanceled os ops s")
    case (Inl e)
    then show ?thesis
      using epoll_keepsD(1) [OF run] by simp
  next
    case (Inr s')
    obtain fs where "invoked s' = map (\<lambda>f. (f, - ecanceled)) fs"
      using epoll_keepsD(4) [OF run Inr] fresh(2) by auto
    then show ?thesis
      using epoll_keepsD(2,3) [OF run Inr] fresh(2,3) Inr by (auto simp: epoll_agree_def)
  qed
qed

definition list_os :: "c_int list epoll_os" where
  "list_os = \<lparr>os_create = (\<lambda>k. (5, 0, k)),
     os_add = (\<lambda>h fd p ev k. if fd \<in> set k then (-1, 17, k) else (0, 0, fd # k)),
     os_del = (\<lambda>h fd k. if fd \<in> set k then (0, 0, removeAll fd k) else (-1, 2, k)),
     os_pwait = (\<lambda>h n k. (-1, 22, [], k)), os_close = (\<lambda>h k. k)\<rparr>"

lemma list_os_kernel: "epoll_kernel list_os set"
  by (auto simp: epoll_kernel_def list_os_def split: if_splits)

lemma epoll_callbacks_conserved_witness:
  "\<exists>s. epoll_create list_os [] = Inr s \<and>
     (case epoll_run 0x40000000 125 list_os [Poll_add 3 1 (7 :: nat), Poll_add 4 1 8, Poll_remove 3] s of
        Inl e \<Rightarrow> e \<noteq> Undefined
      | Inr s' \<Rightarrow>
          mset (map fst (invoked s')) + epoll_owned s' = {#7, 8#} \<and>
          (\<forall>(f, e) \<in> set (invoked s'). e = - 125) \<and>
          epoll_inv s' \<and> dom (m_data s') = set (kernel s'))"
proof -
  obtain s :: "(nat, c_int list) epoll_service" where
    s: "epoll_create list_os [] = Inr s" "set (kernel s) = {}"
    by (simp add: epoll_create_def list_os_def word_sless_alt)
  have calls: "sum_list (map added [Poll_add 3 1 7, Poll_add 4 1 8, Poll_remove 3]) = {#7 :: nat, 8#}"
    by (simp add: added_def)
  show ?thesis
    by (rule exI [of _ s], rule conjI [OF s(1)])
      (rule epoll_callbacks_conserved [OF list_os_kernel s, where oneshot = "0x40000000"
        and ecanceled = "125" and ops = "[Poll_add 3 1 7, Poll_add 4 1 8, Poll_remove 3]", unfolded calls])
qed

end
