(* ===== verification/Epoll_Nested.thy ===== *)
theory Epoll_Nested
  imports Epoll_Service
begin

unbundle bit_operations_syntax

text \<open>
  \<open>src/src/epoll_service.cpp\<close>: callbacks that call the service again. \<open>poll_remove\<close> runs the callback
  in the middle, after \<open>epoll_ctl\<close> and before it erases the entry, while its accessor holds the lock
  of the element. \<open>Epoll_Service\<close> records the calls of callbacks; here \<open>body f\<close> are the calls that the
  callback \<open>f\<close> makes, and they run at that point.
\<close>

section \<open>Calls within calls\<close>

text \<open>
  The calls nest, so what is left to do is a stack: calls still to make, and the ends of the
  \<open>poll_remove\<close>s whose callback is running. \<open>held\<close> are the keys whose elements they have locked. A
  \<open>find\<close> with an accessor waits for the lock of the element, and waits for ever when the same thread
  holds it; \<open>emplace\<close> without an accessor takes no lock and does not replace what is there. An exception
  of a nested call leaves the callback, and with it every call on the stack.
\<close>

datatype 'f task = Call_op "'f epoll_op" | End_remove c_int

partial_function (option) epoll_nested ::
  "c_uint \<Rightarrow> c_int \<Rightarrow> 'k epoll_os \<Rightarrow> ('f \<Rightarrow> 'f epoll_op list) \<Rightarrow> 'f task list \<Rightarrow> c_int list \<Rightarrow>
   ('f, 'k) epoll_service \<Rightarrow> ('f, 'k) epoll_service run" where
  "epoll_nested oneshot ecanceled os body tasks held s =
     (case tasks of
        [] \<Rightarrow> Some (Inr s)
      | End_remove fd # ts \<Rightarrow> epoll_nested oneshot ecanceled os body ts (tl held) (epoll_erase fd s)
      | Call_op op # ts \<Rightarrow>
          (case op of
             Poll_add fd ev f \<Rightarrow>
               (case epoll_poll_add oneshot os fd ev f s of
                  Inl e \<Rightarrow> Some (Inl e)
                | Inr s' \<Rightarrow> epoll_nested oneshot ecanceled os body ts held s')
           | Poll_wait \<Rightarrow>
               (case epoll_poll os s of
                  Inl e \<Rightarrow> Some (Inl e)
                | Inr s' \<Rightarrow> epoll_nested oneshot ecanceled os body ts held s')
           | Poll_remove fd \<Rightarrow>
               (case os_del os (m_handle s) fd (kernel s) of (res, errno, k) \<Rightarrow>
                  if res <s 0 then Some (Inl (System_error errno))
                  else
                    (case m_data s fd of
                       None \<Rightarrow> epoll_nested oneshot ecanceled os body ts held (s\<lparr>kernel := k\<rparr>)
                     | Some p \<Rightarrow>
                         if fd \<in> set held then None
                         else
                           (case live s p of
                              None \<Rightarrow> Some (Inl Undefined)
                            | Some (fd', f) \<Rightarrow>
                                epoll_nested oneshot ecanceled os body
                                  (map Call_op (body f) @ End_remove fd # ts) (fd # held)
                                  (s\<lparr>kernel := k, invoked := invoked s @ [(f, - ecanceled)]\<rparr>))))))"

section \<open>Lemmas\<close>

lemma epoll_nested_simps:
  "epoll_nested oneshot ecanceled os body [] held s = Some (Inr s)"
  "epoll_nested oneshot ecanceled os body (End_remove fd # ts) held s =
     epoll_nested oneshot ecanceled os body ts (tl held) (epoll_erase fd s)"
  "epoll_nested oneshot ecanceled os body (Call_op (Poll_add fd ev f) # ts) held s =
     (case epoll_poll_add oneshot os fd ev f s of
        Inl e \<Rightarrow> Some (Inl e) | Inr s' \<Rightarrow> epoll_nested oneshot ecanceled os body ts held s')"
  "epoll_nested oneshot ecanceled os body (Call_op Poll_wait # ts) held s =
     (case epoll_poll os s of
        Inl e \<Rightarrow> Some (Inl e) | Inr s' \<Rightarrow> epoll_nested oneshot ecanceled os body ts held s')"
  by (subst epoll_nested.simps; simp)+

lemma epoll_nested_remove:
  "os_del os (m_handle s) fd (kernel s) = (res, errno, k) \<Longrightarrow>
   epoll_nested oneshot ecanceled os body (Call_op (Poll_remove fd) # ts) held s =
     (if res <s 0 then Some (Inl (System_error errno))
      else case m_data s fd of
        None \<Rightarrow> epoll_nested oneshot ecanceled os body ts held (s\<lparr>kernel := k\<rparr>)
      | Some p \<Rightarrow>
          if fd \<in> set held then None
          else case live s p of
            None \<Rightarrow> Some (Inl Undefined)
          | Some (fd', f) \<Rightarrow>
              epoll_nested oneshot ecanceled os body (map Call_op (body f) @ End_remove fd # ts) (fd # held)
                (s\<lparr>kernel := k, invoked := invoked s @ [(f, - ecanceled)]\<rparr>))"
  by (subst epoll_nested.simps; simp)

text \<open>Callbacks that make no calls: the calls of \<open>Epoll_Service\<close>.\<close>

lemma epoll_nested_quiet:
  "epoll_nested oneshot ecanceled os (\<lambda>f. []) [Call_op op] [] s = Some (epoll_step oneshot ecanceled os op s)"
proof (cases op)
  case (Poll_remove fd)
  obtain res errno k where del: "os_del os (m_handle s) fd (kernel s) = (res, errno, k)"
    by (cases "os_del os (m_handle s) fd (kernel s)")
  show ?thesis
    unfolding Poll_remove epoll_nested_remove [OF del]
    by (auto simp: epoll_step_def epoll_poll_remove_def del pfn_invoke_def epoll_nested_simps Let_def
        split: option.splits)
qed (auto simp: epoll_nested_simps epoll_step_def split: sum.splits)

text \<open>
  A discipline for callbacks: each belongs to a descriptor, \<open>home\<close>, is registered under it, and calls
  the service for smaller descriptors only. What is below \<open>n\<close>:
\<close>

definition below :: "('f \<Rightarrow> c_int) \<Rightarrow> nat \<Rightarrow> 'f epoll_op \<Rightarrow> bool" where
  "below home n op \<longleftrightarrow>
     (case op of Poll_add fd ev f \<Rightarrow> unat fd < n \<and> home f = fd | Poll_remove fd \<Rightarrow> unat fd < n | Poll_wait \<Rightarrow> True)"

definition disciplined :: "('f \<Rightarrow> c_int) \<Rightarrow> ('f \<Rightarrow> 'f epoll_op list) \<Rightarrow> bool" where
  "disciplined home body \<longleftrightarrow> (\<forall>f. list_all (below home (unat (home f))) (body f))"

text \<open>The service within the calls that hold the keys \<open>H\<close>: the kernel no longer watches those.\<close>

definition nested_inv :: "('k \<Rightarrow> c_int set) \<Rightarrow> ('f \<Rightarrow> c_int) \<Rightarrow> c_int set \<Rightarrow> ('f, 'k) epoll_service \<Rightarrow> bool" where
  "nested_inv reg home H s \<longleftrightarrow> epoll_inv s \<and> (\<forall>p fd f. live s p = Some (fd, f) \<longrightarrow> home f = fd)
     \<and> dom (m_data s) = reg (kernel s) \<union> H \<and> H \<inter> reg (kernel s) = {}"

lemma nested_invD:
  assumes "nested_inv reg home H s"
  shows "epoll_inv s" "live s p = Some (fd, f) \<Longrightarrow> home f = fd" "dom (m_data s) = reg (kernel s) \<union> H"
    "H \<inter> reg (kernel s) = {}"
  using assms unfolding nested_inv_def by simp_all

lemma nested_invI:
  "epoll_inv s \<Longrightarrow> (\<And>p fd f. live s p = Some (fd, f) \<Longrightarrow> home f = fd) \<Longrightarrow>
   dom (m_data s) = reg (kernel s) \<union> H \<Longrightarrow> H \<inter> reg (kernel s) = {} \<Longrightarrow> nested_inv reg home H s"
  by (simp add: nested_inv_def)

text \<open>Every callback is accounted for: those called and those owned.\<close>

definition accounted :: "('f, 'k) epoll_service \<Rightarrow> 'f multiset" where
  "accounted s = mset (map fst (invoked s)) + epoll_owned s"

abbreviation all_added :: "'f epoll_op list \<Rightarrow> 'f multiset" where
  "all_added ops \<equiv> sum_list (map added ops)"

definition keeps_entries :: "c_int set \<Rightarrow> ('f, 'k) epoll_service \<Rightarrow> ('f, 'k) epoll_service \<Rightarrow> bool" where
  "keeps_entries H s s' \<longleftrightarrow>
     (\<forall>fd \<in> H. m_data s' fd = m_data s fd \<and> (\<forall>p. m_data s fd = Some p \<longrightarrow> live s' p = live s p))"

text \<open>
  From \<open>s\<close> to \<open>s'\<close> the calls \<open>ops\<close> were made and the callbacks \<open>fs\<close> called, with \<open>-ECANCELED\<close>, which made
  theirs.
\<close>

definition made_calls ::
  "c_int \<Rightarrow> ('f \<Rightarrow> 'f epoll_op list) \<Rightarrow> 'f epoll_op list \<Rightarrow> ('f, 'k) epoll_service \<Rightarrow> ('f, 'k) epoll_service \<Rightarrow> bool" where
  "made_calls ecanceled body ops s s' \<longleftrightarrow>
     (\<exists>fs. invoked s' = invoked s @ map (\<lambda>f. (f, - ecanceled)) fs
       \<and> accounted s' = accounted s + all_added ops + sum_list (map (\<lambda>f. all_added (body f)) fs))"

lemma made_calls_trans:
  assumes "made_calls ecanceled body ops s s'" "made_calls ecanceled body ops' s' s''"
  shows "made_calls ecanceled body (ops @ ops') s s''"
proof -
  obtain fs where fs: "invoked s' = invoked s @ map (\<lambda>f. (f, - ecanceled)) fs"
    "accounted s' = accounted s + all_added ops + sum_list (map (\<lambda>f. all_added (body f)) fs)"
    using assms(1) unfolding made_calls_def by blast
  obtain gs where gs: "invoked s'' = invoked s' @ map (\<lambda>f. (f, - ecanceled)) gs"
    "accounted s'' = accounted s' + all_added ops' + sum_list (map (\<lambda>f. all_added (body f)) gs)"
    using assms(2) unfolding made_calls_def by blast
  show ?thesis
    unfolding made_calls_def using fs gs by (intro exI [of _ "fs @ gs"]) (simp add: ac_simps)
qed

lemma keeps_entries_trans:
  "keeps_entries H s s' \<Longrightarrow> keeps_entries H s' s'' \<Longrightarrow> keeps_entries H s s''"
  by (auto simp: keeps_entries_def)

text \<open>What one call promises: it ends, without undefined behaviour, and either throws or keeps all that.\<close>

definition nested_good ::
  "('k \<Rightarrow> c_int set) \<Rightarrow> ('f \<Rightarrow> c_int) \<Rightarrow> c_int \<Rightarrow> ('f \<Rightarrow> 'f epoll_op list) \<Rightarrow> 'f epoll_op list \<Rightarrow> c_int set \<Rightarrow>
   ('f, 'k) epoll_service \<Rightarrow> ('f, 'k) epoll_service cxx \<Rightarrow> bool" where
  "nested_good reg home ecanceled body ops H s r \<longleftrightarrow>
     (case r of
        Inl e \<Rightarrow> e \<noteq> Undefined
      | Inr s' \<Rightarrow> nested_inv reg home H s' \<and> keeps_entries H s s' \<and> made_calls ecanceled body ops s s')"

lemma nested_good_seq:
  assumes "nested_good reg home ecanceled body ops H s (Inr s')" "nested_good reg home ecanceled body ops' H s' r"
  shows "nested_good reg home ecanceled body (ops @ ops') H s r"
  using assms keeps_entries_trans made_calls_trans unfolding nested_good_def
  by (cases r) (auto, blast+)

lemma nested_add:
  assumes K: "epoll_kernel os reg" and inv: "nested_inv reg home H s" and "home f = fd" "fd \<notin> H"
  shows "nested_good reg home ecanceled body [Poll_add fd ev f] H s (epoll_poll_add oneshot os fd ev f s)"
proof (cases "os_add os (m_handle s) fd (next_address s) (ev OR oneshot) (kernel s)")
  case (fields res errno k)
  note ad = epoll_kernel_add [OF K fields] and I = nested_invD [OF inv]
  show ?thesis
  proof (cases "res <s 0")
    case True
    then show ?thesis
      by (simp add: epoll_poll_add_def nested_good_def fields Let_def)
  next
    case False
    then have free: "m_data s fd = None"
      using ad(2) I(3) assms(4) by (auto simp: domIff [symmetric])
    let ?s = "epoll_inserted fd f k s"
    have r: "epoll_poll_add oneshot os fd ev f s = Inr ?s"
      using False free by (simp add: epoll_poll_add_def fields epoll_inserted_def Let_def)
    have "nested_inv reg home H ?s"
    proof (rule nested_invI)
      show "home g = fd'" if "live ?s p = Some (fd', g)" for p fd' g
        using that I(2) assms(3) by (auto simp: epoll_inserted_def split: if_splits)
    qed (use epoll_insert(1) [OF I(1) free] ad(1) [OF False] I(3,4) assms(4) in \<open>simp_all add: epoll_inserted_def\<close>)
    moreover have "keeps_entries H s ?s"
      unfolding keeps_entries_def
    proof
      fix x
      assume "x \<in> H"
      then have "x \<noteq> fd" using assms(4) by auto
      then have same: "m_data ?s x = m_data s x"
        by (simp add: epoll_inserted_def)
      have "live ?s p = live s p" if at: "m_data s x = Some p" for p
      proof -
        have "live s p \<noteq> None"
          using epoll_inv_live [OF I(1) at] by (elim exE) simp
        then have "p \<noteq> next_address s"
          using epoll_inv_fresh [OF I(1), of "next_address s"] by (intro notI) simp
        then show ?thesis
          by (simp add: epoll_inserted_def)
      qed
      with same show "m_data ?s x = m_data s x \<and> (\<forall>p. m_data s x = Some p \<longrightarrow> live ?s p = live s p)"
        by (intro conjI allI impI)
    qed
    moreover have "made_calls ecanceled body [Poll_add fd ev f] s ?s"
      using epoll_insert(2) [OF I(1) free, of f k] unfolding made_calls_def
      by (intro exI [of _ "[]"]) (simp add: accounted_def added_def epoll_inserted_def)
    ultimately show ?thesis
      by (simp add: r nested_good_def)
  qed
qed

lemma nested_wait:
  assumes K: "epoll_kernel os reg" and inv: "nested_inv reg home H s"
  shows "nested_good reg home ecanceled body [Poll_wait] H s (epoll_poll os s)"
proof (cases "os_pwait os (m_handle s) 0 (kernel s)")
  case (fields res errno evs k)
  note I = nested_invD [OF inv]
  have "nested_inv reg home H (s\<lparr>kernel := k\<rparr>)"
  proof (rule nested_invI)
    show "epoll_inv (s\<lparr>kernel := k\<rparr>)"
      using I(1) by (rule epoll_inv_cong) simp_all
    show "home f = fd" if "live (s\<lparr>kernel := k\<rparr>) p = Some (fd, f)" for p fd f
      using that I(2) [of p fd f] by simp
  qed (use I(3,4) epoll_kernel_pwait [OF K fields] in simp_all)
  moreover have "keeps_entries H s (s\<lparr>kernel := k\<rparr>)"
    by (simp add: keeps_entries_def)
  moreover have "made_calls ecanceled body [Poll_wait] s (s\<lparr>kernel := k\<rparr>)"
    unfolding made_calls_def using epoll_owned_cong [of "s\<lparr>kernel := k\<rparr>" s]
    by (intro exI [of _ "[]"]) (simp add: accounted_def added_def)
  ultimately show ?thesis
    by (simp add: epoll_poll_outcome nested_good_def fields)
qed

text \<open>The end of a \<open>poll_remove\<close>, after the calls of its callback.\<close>

lemma nested_end_remove:
  assumes inv: "nested_inv reg home H s" and fd: "fd \<notin> H" and at: "m_data s fd = Some p" "live s p = Some (fd, f)"
    and t: "t = s\<lparr>kernel := k, invoked := invoked s @ [(f, - ecanceled)]\<rparr>"
    and u: "nested_inv reg home (insert fd H) u" "keeps_entries (insert fd H) t u" "made_calls ecanceled body (body f) t u"
  shows "nested_good reg home ecanceled body [Poll_remove fd] H s (Inr (epoll_erase fd u))"
proof -
  let ?v = "epoll_erase fd u"
  note I = nested_invD [OF u(1)]
  have at_u: "m_data u fd = Some p" "live u p = Some (fd, f)"
    using u(2) at unfolding keeps_entries_def t by auto
  have v: "?v = u\<lparr>m_data := (m_data u)(fd := None), live := (live u)(p := None)\<rparr>"
    using at_u by (simp add: epoll_erase_def)
  note del = epoll_delete [OF I(1) at_u]
  have "nested_inv reg home H ?v"
  proof (rule nested_invI)
    show "epoll_inv ?v" by (rule del)
    show "home g = x" if "live ?v q = Some (x, g)" for q x g
      using that I(2) [of q x g] by (simp add: v split: if_splits)
    show "dom (m_data ?v) = reg (kernel ?v) \<union> H" "H \<inter> reg (kernel ?v) = {}"
      using I(3,4) fd by (auto simp: v)
  qed
  moreover have "keeps_entries H s ?v"
    unfolding keeps_entries_def
  proof
    fix x
    assume x: "x \<in> H"
    then have ne: "x \<noteq> fd" using fd by auto
    have same: "m_data u x = m_data s x" "\<And>q. m_data s x = Some q \<Longrightarrow> live u q = live s q"
      using u(2) x unfolding keeps_entries_def t by simp_all
    have "live ?v q = live s q" if q: "m_data s x = Some q" for q
    proof -
      have "q \<noteq> p"
        using epoll_inv_unique [OF I(1), of x p fd] at_u(1) same(1) q ne by auto
      then show ?thesis
        using same(2) [OF q] by (simp add: v)
    qed
    then show "m_data ?v x = m_data s x \<and> (\<forall>q. m_data s x = Some q \<longrightarrow> live ?v q = live s q)"
      using same(1) ne by (simp add: v)
  qed
  moreover have "made_calls ecanceled body [Poll_remove fd] s ?v"
  proof -
    obtain fs where fs: "invoked u = invoked t @ map (\<lambda>f. (f, - ecanceled)) fs"
      "accounted u = accounted t + all_added (body f) + sum_list (map (\<lambda>f. all_added (body f)) fs)"
      using u(3) unfolding made_calls_def by blast
    have "accounted t = add_mset f (accounted s)"
      using epoll_owned_cong [of t s] by (simp add: accounted_def t)
    moreover have "accounted u = add_mset f (accounted ?v)"
      using del(2) by (simp add: accounted_def v)
    ultimately have "accounted ?v = accounted s + all_added (body f) + sum_list (map (\<lambda>f. all_added (body f)) fs)"
      using fs(2) by simp
    then show ?thesis
      unfolding made_calls_def using fs(1)
      by (intro exI [of _ "f # fs"]) (simp add: v t added_def ac_simps)
  qed
  ultimately show ?thesis
    by (simp add: nested_good_def)
qed

definition nested_runs ::
  "('k \<Rightarrow> c_int set) \<Rightarrow> ('f \<Rightarrow> c_int) \<Rightarrow> c_uint \<Rightarrow> c_int \<Rightarrow> 'k epoll_os \<Rightarrow> ('f \<Rightarrow> 'f epoll_op list) \<Rightarrow>
   'f epoll_op list \<Rightarrow> c_int list \<Rightarrow> ('f, 'k) epoll_service \<Rightarrow> bool" where
  "nested_runs reg home oneshot ecanceled os body ops held s \<longleftrightarrow>
     (\<exists>r. nested_good reg home ecanceled body ops (set held) s r
       \<and> (\<forall>ts. epoll_nested oneshot ecanceled os body (map Call_op ops @ ts) held s =
           (case r of Inl e \<Rightarrow> Some (Inl e) | Inr s' \<Rightarrow> epoll_nested oneshot ecanceled os body ts held s')))"

lemma nested_runs_remove:
  assumes K: "epoll_kernel os reg" and inv: "nested_inv reg home (set held) s" and fd: "fd \<notin> set held"
    and runs: "\<And>f t. home f = fd \<Longrightarrow> nested_inv reg home (insert fd (set held)) t \<Longrightarrow>
      nested_runs reg home oneshot ecanceled os body (body f) (fd # held) t"
  shows "nested_runs reg home oneshot ecanceled os body [Poll_remove fd] held s"
proof (cases "os_del os (m_handle s) fd (kernel s)")
  case (fields res errno k)
  note de = epoll_kernel_del [OF K fields] and I = nested_invD [OF inv] and step = epoll_nested_remove [OF fields]
  show ?thesis
  proof (cases "res <s 0")
    case True
    then show ?thesis
      unfolding nested_runs_def
      by (intro exI [of _ "Inl (System_error errno)"]) (simp add: nested_good_def step)
  next
    case False
    then obtain p where p: "m_data s fd = Some p"
      using de(2) I(3) by blast
    then obtain f where f: "live s p = Some (fd, f)"
      using epoll_inv_live [OF I(1)] by blast
    define t where "t = s\<lparr>kernel := k, invoked := invoked s @ [(f, - ecanceled)]\<rparr>"
    have "nested_inv reg home (insert fd (set held)) t"
    proof (rule nested_invI)
      show "epoll_inv t"
        using I(1) by (rule epoll_inv_cong) (simp_all add: t_def)
      show "home g = x" if "live t q = Some (x, g)" for q x g
        using that I(2) [of q x g] by (simp add: t_def)
      show "dom (m_data t) = reg (kernel t) \<union> insert fd (set held)" "insert fd (set held) \<inter> reg (kernel t) = {}"
        using I(3,4) de False fd by (auto simp: t_def)
    qed
    then obtain r where good: "nested_good reg home ecanceled body (body f) (insert fd (set held)) t r"
      and run: "epoll_nested oneshot ecanceled os body (map Call_op (body f) @ ts) (fd # held) t =
        (case r of Inl e \<Rightarrow> Some (Inl e) | Inr u \<Rightarrow> epoll_nested oneshot ecanceled os body ts (fd # held) u)" for ts
      using runs [of f t] I(2) [OF f] unfolding nested_runs_def by auto
    have go: "epoll_nested oneshot ecanceled os body (Call_op (Poll_remove fd) # ts) held s =
        epoll_nested oneshot ecanceled os body (map Call_op (body f) @ End_remove fd # ts) (fd # held) t" for ts
      using False p f fd by (simp add: step t_def)
    show ?thesis
    proof (cases r)
      case (Inl e)
      then show ?thesis
        using good unfolding nested_runs_def by (intro exI [of _ "Inl e"]) (simp add: nested_good_def go run)
    next
      case (Inr u)
      then have u: "nested_inv reg home (insert fd (set held)) u" "keeps_entries (insert fd (set held)) t u"
        "made_calls ecanceled body (body f) t u"
        using good by (simp_all add: nested_good_def)
      show ?thesis
        unfolding nested_runs_def using nested_end_remove [OF inv fd p f t_def u]
        by (intro exI [of _ "Inr (epoll_erase fd u)"]) (simp add: go run Inr epoll_nested_simps)
    qed
  qed
qed

lemma nested_runs_seq:
  assumes "nested_runs reg home oneshot ecanceled os body [op] held s"
    and "\<And>s'. nested_inv reg home (set held) s' \<Longrightarrow> nested_runs reg home oneshot ecanceled os body ops held s'"
  shows "nested_runs reg home oneshot ecanceled os body (op # ops) held s"
proof -
  obtain r where good: "nested_good reg home ecanceled body [op] (set held) s r"
    and run: "\<And>ts. epoll_nested oneshot ecanceled os body (Call_op op # ts) held s =
      (case r of Inl e \<Rightarrow> Some (Inl e) | Inr s' \<Rightarrow> epoll_nested oneshot ecanceled os body ts held s')"
    using assms(1) unfolding nested_runs_def by auto
  show ?thesis
  proof (cases r)
    case (Inl e)
    then show ?thesis
      using good unfolding nested_runs_def by (intro exI [of _ "Inl e"]) (simp add: nested_good_def run)
  next
    case (Inr s')
    then have "nested_inv reg home (set held) s'"
      using good by (simp add: nested_good_def)
    then obtain r' where good': "nested_good reg home ecanceled body ops (set held) s' r'"
      and run': "\<And>ts. epoll_nested oneshot ecanceled os body (map Call_op ops @ ts) held s' =
        (case r' of Inl e \<Rightarrow> Some (Inl e) | Inr u \<Rightarrow> epoll_nested oneshot ecanceled os body ts held u)"
      using assms(2) [of s'] unfolding nested_runs_def by auto
    from good Inr have "nested_good reg home ecanceled body [op] (set held) s (Inr s')"
      by simp
    from nested_good_seq [OF this good'] show ?thesis
      unfolding nested_runs_def by (intro exI [of _ r']) (simp add: run run' Inr)
  qed
qed

lemma nested_runs_below:
  assumes K: "epoll_kernel os reg" and D: "disciplined home body"
  shows "list_all (below home n) ops \<Longrightarrow> (\<forall>x \<in> set held. n \<le> unat x) \<Longrightarrow> nested_inv reg home (set held) s \<Longrightarrow>
    nested_runs reg home oneshot ecanceled os body ops held s"
proof (induction n arbitrary: ops held s rule: less_induct)
  case (less n)
  note free = less.prems(2)
  from less.prems(1,3) show ?case
  proof (induction ops arbitrary: s)
    case Nil
    then show ?case
      unfolding nested_runs_def
      by (intro exI [of _ "Inr s"]) (auto simp: nested_good_def keeps_entries_def made_calls_def)
  next
    case (Cons op ops)
    have "nested_runs reg home oneshot ecanceled os body [op] held s"
    proof (cases op)
      case (Poll_add fd ev f)
      then have "home f = fd" "fd \<notin> set held"
        using Cons.prems(1) free by (auto simp: below_def)
      note nested_add [OF K Cons.prems(2) this, of ecanceled body ev oneshot]
      then show ?thesis
        unfolding nested_runs_def Poll_add
        by (intro exI [of _ "epoll_poll_add oneshot os fd ev f s"]) (simp add: epoll_nested_simps)
    next
      case Poll_wait
      show ?thesis
        unfolding nested_runs_def Poll_wait using nested_wait [OF K Cons.prems(2), of ecanceled body]
        by (intro exI [of _ "epoll_poll os s"]) (simp add: epoll_nested_simps)
    next
      case (Poll_remove fd)
      then have fd: "unat fd < n" "fd \<notin> set held"
        using Cons.prems(1) free by (auto simp: below_def)
      have "nested_runs reg home oneshot ecanceled os body (body f) (fd # held) t"
        if "home f = fd" "nested_inv reg home (insert fd (set held)) t" for f t
      proof (rule less.IH [OF fd(1)])
        show "list_all (below home (unat fd)) (body f)"
          using D that(1) unfolding disciplined_def by auto
        show "\<forall>x \<in> set (fd # held). unat fd \<le> unat x"
          using free fd(1) by auto
        show "nested_inv reg home (set (fd # held)) t"
          using that(2) by simp
      qed
      from nested_runs_remove [OF K Cons.prems(2) fd(2) this] show ?thesis
        unfolding Poll_remove .
    qed
    moreover have "nested_runs reg home oneshot ecanceled os body ops held s'"
      if "nested_inv reg home (set held) s'" for s'
      using Cons.IH [OF _ that] Cons.prems(1) by simp
    ultimately show ?case
      by (rule nested_runs_seq)
  qed
qed

section \<open>Properties\<close>

text \<open>
  C13: Callbacks may call the service again, as long as the callback of a descriptor only does so for
  smaller ones. Then any sequence of \<open>async_poll_add\<close>, \<open>poll_remove\<close> and \<open>poll\<close> on a fresh service, with
  a kernel that keeps its interest list as documented, returns or throws: it never waits for a lock of
  its own and never touches a destroyed completion. Each callback that was added, from outside or by a
  callback, has been called once, with \<open>-ECANCELED\<close>, or is still owned, and the service holds one
  completion for each descriptor that the kernel watches.
\<close>

theorem nested_callbacks_safe:
  assumes "epoll_kernel os reg" and "epoll_create os k = Inr s" and "reg (kernel s) = {}"
    and "disciplined home body" and "\<forall>fd ev f. Poll_add fd ev f \<in> set ops \<longrightarrow> home f = fd"
  shows "\<exists>r. epoll_nested oneshot ecanceled os body (map Call_op ops) [] s = Some r
    \<and> (case r of
         Inl e \<Rightarrow> e \<noteq> Undefined
       | Inr s' \<Rightarrow> \<exists>fs. invoked s' = map (\<lambda>f. (f, - ecanceled)) fs
           \<and> mset fs + epoll_owned s' =
               sum_list (map added ops) + sum_list (map (\<lambda>f. sum_list (map added (body f))) fs)
           \<and> epoll_inv s' \<and> dom (m_data s') = reg (kernel s'))"
proof -
  have fresh: "nested_inv reg home {} s" "invoked s = []" "epoll_owned s = {#}"
    using epoll_inv_create [OF assms(2)] assms(2,3)
    by (auto simp: nested_inv_def epoll_owned_def epoll_create_def split: prod.splits if_splits)
  have "below home (2 ^ 32) op" if "op \<in> set ops" for op
    using assms(5) that unsigned_less [where 'a = nat and 'b = 32]
    by (cases op) (auto simp: below_def)
  then have "list_all (below home (2 ^ 32)) ops"
    by (simp add: list_all_iff)
  then have "nested_runs reg home oneshot ecanceled os body ops [] s"
    using nested_runs_below [OF assms(1,4), of "2 ^ 32" ops "[]" s] fresh(1) by simp
  then obtain r where good: "nested_good reg home ecanceled body ops {} s r"
    and run: "\<And>ts. epoll_nested oneshot ecanceled os body (map Call_op ops @ ts) [] s =
      (case r of Inl e \<Rightarrow> Some (Inl e) | Inr s' \<Rightarrow> epoll_nested oneshot ecanceled os body ts [] s')"
    unfolding nested_runs_def by auto
  have "epoll_nested oneshot ecanceled os body (map Call_op ops) [] s = Some r"
    using run [of "[]"] by (cases r) (simp_all add: epoll_nested_simps)
  moreover have "case r of Inl e \<Rightarrow> e \<noteq> Undefined
     | Inr s' \<Rightarrow> \<exists>fs. invoked s' = map (\<lambda>f. (f, - ecanceled)) fs
         \<and> mset fs + epoll_owned s' = all_added ops + sum_list (map (\<lambda>f. all_added (body f)) fs)
         \<and> epoll_inv s' \<and> dom (m_data s') = reg (kernel s')"
  proof (cases r)
    case (Inl e)
    then show ?thesis using good by (simp add: nested_good_def)
  next
    case (Inr s')
    then have kept: "nested_inv reg home {} s'" "made_calls ecanceled body ops s s'"
      using good by (simp_all add: nested_good_def)
    obtain fs where fs: "invoked s' = invoked s @ map (\<lambda>f. (f, - ecanceled)) fs"
      "accounted s' = accounted s + all_added ops + sum_list (map (\<lambda>f. all_added (body f)) fs)"
      using kept(2) unfolding made_calls_def by (elim exE conjE)
    have "map (fst \<circ> (\<lambda>f. (f, - ecanceled))) fs = fs"
      by (simp add: comp_def)
    then have "mset fs + epoll_owned s' = accounted s'"
      using fs(1) fresh(2) by (simp add: accounted_def del: mset_map)
    then show ?thesis
      using Inr fs fresh(2,3) nested_invD [OF kept(1)] by (auto simp: accounted_def [of s])
  qed
  ultimately show ?thesis by blast
qed

text \<open>A callback of descriptor 4 that removes descriptor 3 when it is cancelled.\<close>

definition chain_body :: "nat \<Rightarrow> nat epoll_op list" where
  "chain_body f = (if f = 4 then [Poll_remove 3] else [])"

theorem nested_callbacks_safe_witness:
  "\<exists>s r. epoll_create list_os [] = Inr s
    \<and> epoll_nested 0x40000000 125 list_os chain_body (map Call_op [Poll_add 3 1 3, Poll_add 4 1 4, Poll_remove 4]) [] s = Some r
    \<and> r \<noteq> Inl Undefined"
proof -
  obtain s :: "(nat, c_int list) epoll_service" where
    s: "epoll_create list_os [] = Inr s" "set (kernel s) = {}"
    by (simp add: epoll_create_def list_os_def word_sless_alt)
  have d: "disciplined word_of_nat chain_body"
    by (simp add: disciplined_def chain_body_def below_def)
  let ?ops = "[Poll_add 3 1 3, Poll_add 4 1 4, Poll_remove 4] :: nat epoll_op list"
  have "\<forall>fd ev f. Poll_add fd ev f \<in> set ?ops \<longrightarrow> word_of_nat f = fd"
    by simp
  from nested_callbacks_safe [OF list_os_kernel s d this, of "0x40000000" 125]
  obtain r where "epoll_nested 0x40000000 125 list_os chain_body (map Call_op ?ops) [] s = Some r" "r \<noteq> Inl Undefined"
    by fastforce
  with s(1) show ?thesis by blast
qed

text \<open>
  C24: Without that discipline the service breaks. A callback that, on its cancellation, registers its
  own descriptor again succeeds with the kernel but not with the map, where the old entry still is: the
  new completion is destroyed at once, while the kernel keeps its address for the descriptor, which the
  service does not know any more when \<open>poll_remove\<close> returns. And if the callback then removes the
  descriptor again, \<open>poll_remove\<close> never returns: it waits for the lock that the same thread holds.
\<close>

theorem rearming_callback_dangles:
  assumes "epoll_inv s" and "m_data s fd = Some p" and "live s p = Some (fd, f)"
    and "os_del os (m_handle s) fd (kernel s) = (0, e1, k1)"
    and "os_add os (m_handle s) fd (next_address s) (ev OR oneshot) k1 = (0, e2, k2)"
    and "body f = Poll_add fd ev g # rest"
  shows "(rest = [] \<longrightarrow> (\<exists>s'. epoll_nested oneshot ecanceled os body [Call_op (Poll_remove fd)] [] s = Some (Inr s')
        \<and> kernel s' = k2 \<and> live s' (next_address s) = None \<and> m_data s' fd = None))
    \<and> (rest = [Poll_remove fd] \<and> os_del os (m_handle s) fd k2 = (0, e3, k3) \<longrightarrow>
        epoll_nested oneshot ecanceled os body [Call_op (Poll_remove fd)] [] s = None)"
proof -
  define t where "t = s\<lparr>kernel := k2, invoked := invoked s @ [(f, - ecanceled)], next_address := Suc (next_address s)\<rparr>"
  have add: "epoll_poll_add oneshot os fd ev g (s\<lparr>kernel := k1, invoked := invoked s @ [(f, - ecanceled)]\<rparr>) = Inr t"
    using assms(2,5) by (simp add: epoll_poll_add_def Let_def t_def)
  have go: "epoll_nested oneshot ecanceled os body [Call_op (Poll_remove fd)] [] s =
      epoll_nested oneshot ecanceled os body (map Call_op rest @ [End_remove fd]) [fd] t"
    by (simp add: epoll_nested_remove [OF assms(4)] assms(2,3,6) epoll_nested_simps add)
  have dead: "live s (next_address s) = None"
    using epoll_inv_fresh [OF assms(1)] by simp
  show ?thesis
  proof (intro conjI impI)
    assume "rest = []"
    then show "\<exists>s'. epoll_nested oneshot ecanceled os body [Call_op (Poll_remove fd)] [] s = Some (Inr s')
        \<and> kernel s' = k2 \<and> live s' (next_address s) = None \<and> m_data s' fd = None"
      using assms(2) dead by (simp add: go epoll_nested_simps epoll_erase_def t_def)
  next
    assume r: "rest = [Poll_remove fd] \<and> os_del os (m_handle s) fd k2 = (0, e3, k3)"
    then have "os_del os (m_handle t) fd (kernel t) = (0, e3, k3)" "m_data t fd = Some p"
      using assms(2) by (simp_all add: t_def)
    then show "epoll_nested oneshot ecanceled os body [Call_op (Poll_remove fd)] [] s = None"
      using r by (simp add: go epoll_nested_remove)
  qed
qed

definition watched :: "(nat, c_int list) epoll_service" where
  "watched = \<lparr>m_handle = 5, m_data = [3 \<mapsto> 0], live = [0 \<mapsto> (3, 7)], next_address = 1, kernel = [3], invoked = []\<rparr>"

theorem rearming_callback_dangles_witness:
  "\<exists>s'. epoll_nested 0x40000000 125 list_os (\<lambda>f. [Poll_add 3 1 8]) [Call_op (Poll_remove 3)] [] watched = Some (Inr s')
    \<and> kernel s' = [3] \<and> live s' 1 = None \<and> m_data s' 3 = None"
proof -
  have inv: "epoll_inv watched"
    by (auto simp: epoll_inv_def watched_def split: if_splits)
  have os: "os_del list_os (m_handle watched) 3 (kernel watched) = (0, 0, [])"
    "os_add list_os (m_handle watched) 3 (next_address watched) (1 OR 0x40000000) [] = (0, 0, [3])"
    by (simp_all add: list_os_def watched_def)
  show ?thesis
    using rearming_callback_dangles [OF inv _ _ os, of 0 7 "\<lambda>f. [Poll_add 3 1 8]" 8 "[]" 125]
    by (simp add: watched_def)
qed

end
