(* ===== verification/Epoll_Threads.thy ===== *)
theory Epoll_Threads
  imports Epoll_Service
begin

unbundle bit_operations_syntax

text \<open>
  \<open>include/tcx/services/epoll_service.hpp\<close> and \<open>src/src/epoll_service.cpp\<close>: one epoll service used by
  several threads, which is what its concurrent map is for. A call is taken apart at its accesses to
  what the threads share: the system call, and each operation on the map. Between them the other
  threads make steps. \<open>Epoll_Service\<close> has the same calls in one piece.

  \<open>added\<close>, \<open>dropped\<close> and \<open>thrown\<close> are ghost fields: the callbacks whose descriptor was added, the
  completions destroyed uncalled because the map had an entry, and the calls that ended with an exception.
\<close>

section \<open>Steps\<close>

text \<open>Where a thread is. There is any number of threads.\<close>

datatype 'f epoll_pc =
    Outside
  | Adding c_int nat 'f       \<comment> \<open>\<open>async_poll_add\<close>, after \<open>epoll_ctl\<close>, before \<open>emplace\<close>\<close>
  | Removing c_int            \<comment> \<open>\<open>poll_remove\<close>, after \<open>epoll_ctl\<close>, before \<open>find\<close>\<close>
  | Found c_int nat           \<comment> \<open>holding the accessor, before the callback\<close>
  | Invoked c_int nat         \<comment> \<open>after the callback, before \<open>erase\<close>\<close>

record ('f, 'k) epoll_threads = "('f, 'k) epoll_service" +
  pcs :: "nat \<Rightarrow> 'f epoll_pc"
  added_cbs :: "'f multiset"
  dropped :: "'f multiset"
  thrown :: "'f multiset"

definition epoll_threads_init :: "handle_type \<Rightarrow> 'k \<Rightarrow> ('f, 'k) epoll_threads" where
  "epoll_threads_init h k =
     \<lparr>m_handle = h, m_data = (\<lambda>_. None), live = (\<lambda>_. None), next_address = 0, kernel = k, invoked = [],
      pcs = (\<lambda>_. Outside), added_cbs = {#}, dropped = {#}, thrown = {#}\<rparr>"

abbreviation at_pc :: "('f, 'k) epoll_threads \<Rightarrow> nat \<Rightarrow> 'f epoll_pc \<Rightarrow> bool" where
  "at_pc s i p \<equiv> pcs s i = p"

abbreviation goto :: "nat \<Rightarrow> 'f epoll_pc \<Rightarrow> ('f, 'k) epoll_threads \<Rightarrow> ('f, 'k) epoll_threads" where
  "goto i p s \<equiv> s\<lparr>pcs := (pcs s)(i := p)\<rparr>"

text \<open>The element of a descriptor is locked while a thread holds an accessor to it.\<close>

definition locked :: "c_int \<Rightarrow> ('f, 'k) epoll_threads \<Rightarrow> bool" where
  "locked fd s \<longleftrightarrow> (\<exists>i p. at_pc s i (Found fd p) \<or> at_pc s i (Invoked fd p))"

text \<open>
  \<open>throws f\<close> says that a call of \<open>f\<close> ends with an exception: that leaves \<open>poll_remove\<close>, which releases
  the accessor and erases nothing. \<open>poll\<close> asks for no events and delivers none.
\<close>

inductive epoll_thread_step ::
  "c_uint \<Rightarrow> c_int \<Rightarrow> 'k epoll_os \<Rightarrow> ('f \<Rightarrow> bool) \<Rightarrow> ('f, 'k) epoll_threads \<Rightarrow> ('f, 'k) epoll_threads \<Rightarrow> bool"
  for oneshot :: c_uint and ecanceled :: c_int and os :: "'k epoll_os" and throws :: "'f \<Rightarrow> bool"
where
  add_ctl: "at_pc s i Outside \<Longrightarrow>
     os_add os (m_handle s) fd (next_address s) (ev OR oneshot) (kernel s) = (res, errno, k) \<Longrightarrow> \<not> res <s 0 \<Longrightarrow>
     epoll_thread_step oneshot ecanceled os throws s
       (goto i (Adding fd (next_address s) f) (s\<lparr>kernel := k, next_address := Suc (next_address s),
          live := (live s)(next_address s := Some (fd, f)), added_cbs := add_mset f (added_cbs s)\<rparr>))"
| add_throws: "at_pc s i Outside \<Longrightarrow>
     os_add os (m_handle s) fd (next_address s) (ev OR oneshot) (kernel s) = (res, errno, k) \<Longrightarrow> res <s 0 \<Longrightarrow>
     epoll_thread_step oneshot ecanceled os throws s (s\<lparr>kernel := k, next_address := Suc (next_address s)\<rparr>)"
| emplace: "at_pc s i (Adding fd p f) \<Longrightarrow> m_data s fd = None \<Longrightarrow>
     epoll_thread_step oneshot ecanceled os throws s (goto i Outside (s\<lparr>m_data := (m_data s)(fd := Some p)\<rparr>))"
| emplace_fails: "at_pc s i (Adding fd p f) \<Longrightarrow> m_data s fd \<noteq> None \<Longrightarrow>
     epoll_thread_step oneshot ecanceled os throws s
       (goto i Outside (s\<lparr>live := (live s)(p := None), dropped := add_mset f (dropped s)\<rparr>))"
| del_ctl: "at_pc s i Outside \<Longrightarrow> os_del os (m_handle s) fd (kernel s) = (res, errno, k) \<Longrightarrow> \<not> res <s 0 \<Longrightarrow>
     epoll_thread_step oneshot ecanceled os throws s (goto i (Removing fd) (s\<lparr>kernel := k\<rparr>))"
| del_throws: "at_pc s i Outside \<Longrightarrow> os_del os (m_handle s) fd (kernel s) = (res, errno, k) \<Longrightarrow> res <s 0 \<Longrightarrow>
     epoll_thread_step oneshot ecanceled os throws s (s\<lparr>kernel := k\<rparr>)"
| find_none: "at_pc s i (Removing fd) \<Longrightarrow> m_data s fd = None \<Longrightarrow>
     epoll_thread_step oneshot ecanceled os throws s (goto i Outside s)"
| find_some: "at_pc s i (Removing fd) \<Longrightarrow> m_data s fd = Some p \<Longrightarrow> \<not> locked fd s \<Longrightarrow>
     epoll_thread_step oneshot ecanceled os throws s (goto i (Found fd p) s)"
| invoke: "at_pc s i (Found fd p) \<Longrightarrow> live s p = Some (fd', f) \<Longrightarrow> \<not> throws f \<Longrightarrow>
     epoll_thread_step oneshot ecanceled os throws s
       (goto i (Invoked fd p) (s\<lparr>invoked := invoked s @ [(f, - ecanceled)]\<rparr>))"
| invoke_throws: "at_pc s i (Found fd p) \<Longrightarrow> live s p = Some (fd', f) \<Longrightarrow> throws f \<Longrightarrow>
     epoll_thread_step oneshot ecanceled os throws s
       (goto i Outside (s\<lparr>invoked := invoked s @ [(f, - ecanceled)], thrown := add_mset f (thrown s)\<rparr>))"
| erase: "at_pc s i (Invoked fd p) \<Longrightarrow>
     epoll_thread_step oneshot ecanceled os throws s
       (goto i Outside (s\<lparr>m_data := (m_data s)(fd := None), live := (live s)(p := None)\<rparr>))"
| wait: "at_pc s i Outside \<Longrightarrow> os_pwait os (m_handle s) 0 (kernel s) = (res, errno, evs, k) \<Longrightarrow>
     epoll_thread_step oneshot ecanceled os throws s (s\<lparr>kernel := k\<rparr>)"

inductive epoll_reachable ::
  "c_uint \<Rightarrow> c_int \<Rightarrow> 'k epoll_os \<Rightarrow> ('f \<Rightarrow> bool) \<Rightarrow> ('f, 'k) epoll_threads \<Rightarrow> ('f, 'k) epoll_threads \<Rightarrow> bool"
  for oneshot :: c_uint and ecanceled :: c_int and os :: "'k epoll_os" and throws :: "'f \<Rightarrow> bool"
    and s0 :: "('f, 'k) epoll_threads"
where
  start: "epoll_reachable oneshot ecanceled os throws s0 s0"
| step: "epoll_reachable oneshot ecanceled os throws s0 s \<Longrightarrow> epoll_thread_step oneshot ecanceled os throws s t \<Longrightarrow>
     epoll_reachable oneshot ecanceled os throws s0 t"

inductive_cases epoll_thread_stepE: "epoll_thread_step oneshot ecanceled os throws s t"

section \<open>What the threads keep\<close>

fun adds :: "'f epoll_pc \<Rightarrow> (c_int \<times> nat \<times> 'f) option" where
  "adds (Adding fd p f) = Some (fd, p, f)"
| "adds _ = None"

fun locks :: "'f epoll_pc \<Rightarrow> (c_int \<times> nat) option" where
  "locks (Found fd p) = Some (fd, p)"
| "locks (Invoked fd p) = Some (fd, p)"
| "locks _ = None"

lemma adds_Some: "adds pc = Some (fd, p, f) \<longleftrightarrow> pc = Adding fd p f"
  by (cases pc) auto

lemma locks_Some: "locks pc = Some (fd, p) \<longleftrightarrow> pc = Found fd p \<or> pc = Invoked fd p"
  by (cases pc) auto

lemma locked_iff: "locked fd s \<longleftrightarrow> (\<exists>i p. locks (pcs s i) = Some (fd, p))"
  by (simp add: locked_def locks_Some)

text \<open>
  An entry of the map refers to a completion for its descriptor. A thread that adds owns a completion
  outside of the map; one that removes holds the lock of an entry that is there.
\<close>

definition entries_live :: "('f, 'k) epoll_threads \<Rightarrow> bool" where
  "entries_live s \<longleftrightarrow> (\<forall>fd p. m_data s fd = Some p \<longrightarrow> (\<exists>f. live s p = Some (fd, f)))
     \<and> (\<forall>p. next_address s \<le> p \<longrightarrow> live s p = None)"

definition adders_own :: "('f, 'k) epoll_threads \<Rightarrow> bool" where
  "adders_own s \<longleftrightarrow>
     (\<forall>i fd p f. adds (pcs s i) = Some (fd, p, f) \<longrightarrow> live s p = Some (fd, f) \<and> m_data s fd \<noteq> Some p)
   \<and> (\<forall>i j p x y x' y'. adds (pcs s i) = Some (x, p, y) \<longrightarrow> adds (pcs s j) = Some (x', p, y') \<longrightarrow> i = j)"

definition locks_exclude :: "('f, 'k) epoll_threads \<Rightarrow> bool" where
  "locks_exclude s \<longleftrightarrow>
     (\<forall>i fd p. locks (pcs s i) = Some (fd, p) \<longrightarrow> m_data s fd = Some p)
   \<and> (\<forall>i j fd p q. locks (pcs s i) = Some (fd, p) \<longrightarrow> locks (pcs s j) = Some (fd, q) \<longrightarrow> i = j)"

definition threads_inv :: "('f, 'k) epoll_threads \<Rightarrow> bool" where
  "threads_inv s \<longleftrightarrow> entries_live s \<and> adders_own s \<and> locks_exclude s"

lemma threads_invD:
  assumes "threads_inv s"
  shows "m_data s fd = Some p \<Longrightarrow> \<exists>f. live s p = Some (fd, f)"
    and "next_address s \<le> p \<Longrightarrow> live s p = None"
    and "pcs s i = Adding fd p f \<Longrightarrow> live s p = Some (fd, f)" "pcs s i = Adding fd p f \<Longrightarrow> m_data s fd \<noteq> Some p"
    and "locks (pcs s i) = Some (fd, p) \<Longrightarrow> m_data s fd = Some p"
  using assms unfolding threads_inv_def entries_live_def adders_own_def locks_exclude_def
  by (elim conjE; simp add: adds_Some)+

lemma threads_inv_init: "threads_inv (epoll_threads_init h k)"
  by (simp add: threads_inv_def entries_live_def adders_own_def locks_exclude_def epoll_threads_init_def)

text \<open>Steps that move no completion.\<close>

lemma threads_inv_cong:
  assumes "threads_inv s" and "m_data t = m_data s" "live t = live s" "next_address s \<le> next_address t"
    and "\<And>i. adds (pcs t i) = adds (pcs s i) \<or> adds (pcs t i) = None"
    and "\<And>i. locks (pcs t i) = locks (pcs s i) \<or> locks (pcs t i) = None"
  shows "threads_inv t"
proof -
  have a: "adds (pcs s i) = Some x" if "adds (pcs t i) = Some x" for i x
    using assms(5) [of i] that by simp
  have l: "locks (pcs s i) = Some x" if "locks (pcs t i) = Some x" for i x
    using assms(6) [of i] that by simp
  have "entries_live t"
    using assms(1,4) by (simp add: threads_inv_def entries_live_def assms(2,3))
  moreover have "adders_own t"
    using assms(1) a unfolding threads_inv_def adders_own_def assms(2,3) by metis
  moreover have "locks_exclude t"
    using assms(1) l unfolding threads_inv_def locks_exclude_def assms(2,3) by metis
  ultimately show ?thesis by (simp add: threads_inv_def)
qed

text \<open>Completions that are there and not past their call.\<close>

definition waiting_at :: "('f, 'k) epoll_threads \<Rightarrow> nat set" where
  "waiting_at s = {p. p < next_address s \<and> live s p \<noteq> None \<and> (\<forall>i fd. \<not> at_pc s i (Invoked fd p))}"

definition waiting :: "('f, 'k) epoll_threads \<Rightarrow> 'f multiset" where
  "waiting s = image_mset (\<lambda>p. snd (the (live s p))) (mset_set (waiting_at s))"

definition balance :: "('f, 'k) epoll_threads \<Rightarrow> bool" where
  "balance s \<longleftrightarrow> mset (map fst (invoked s)) + dropped s + waiting s = added_cbs s + thrown s"

lemma finite_waiting_at [simp]: "finite (waiting_at s)"
  by (rule finite_subset [of _ "{..<next_address s}"]) (auto simp: waiting_at_def)

lemma waiting_cong:
  assumes "waiting_at t = waiting_at s" and "\<And>p. p \<in> waiting_at s \<Longrightarrow> live t p = live s p"
  shows "waiting t = waiting s"
  unfolding waiting_def assms(1) by (rule image_mset_cong) (simp add: assms(2))

lemma waiting_insert:
  assumes "waiting_at t = insert p (waiting_at s)" "p \<notin> waiting_at s"
    and "\<And>q. q \<in> waiting_at s \<Longrightarrow> live t q = live s q"
  shows "waiting t = add_mset (snd (the (live t p))) (waiting s)"
proof -
  have "image_mset (\<lambda>p. snd (the (live t p))) (mset_set (waiting_at s)) = waiting s"
    unfolding waiting_def by (rule image_mset_cong) (simp add: assms(3))
  then show ?thesis
    unfolding waiting_def [of t] assms(1) using assms(2) by simp
qed

lemma step_inv:
  assumes "epoll_thread_step oneshot ecanceled os throws s t" and inv: "threads_inv s"
  shows "threads_inv t"
  using assms(1)
proof cases
  case (add_ctl i fd ev res errno k f)
  let ?p = "next_address s"
  have fresh: "live s ?p = None" using threads_invD(2) [OF inv] by simp
  have ne: "m_data s fd' \<noteq> Some ?p" "pcs s j \<noteq> Adding fd' ?p f'" for fd' j f'
    using threads_invD(1) [OF inv, of fd' ?p] threads_invD(3) [OF inv, of j fd' ?p f'] fresh by auto
  have "entries_live t"
    using inv ne unfolding threads_inv_def entries_live_def add_ctl by auto
  moreover have "adders_own t"
    using inv ne fresh unfolding threads_inv_def adders_own_def add_ctl by (auto simp: adds_Some)
  moreover have "locks_exclude t"
    using inv unfolding threads_inv_def locks_exclude_def add_ctl by auto
  ultimately show ?thesis by (simp add: threads_inv_def)
next
  case (emplace i fd p f)
  have own: "live s p = Some (fd, f)" using threads_invD(3) [OF inv emplace(2)] .
  have "entries_live t"
    using inv own unfolding threads_inv_def entries_live_def emplace by auto
  moreover have "adders_own t"
    using inv emplace(2) unfolding threads_inv_def adders_own_def emplace(1)
    by (auto simp: adds_Some)
  moreover have "locks_exclude t"
    using inv emplace(3) unfolding threads_inv_def locks_exclude_def emplace(1) by (auto simp: locks_Some)
  ultimately show ?thesis by (simp add: threads_inv_def)
next
  case (emplace_fails i fd p f)
  have own: "live s p = Some (fd, f)" "m_data s fd \<noteq> Some p"
    using threads_invD(3,4) [OF inv emplace_fails(2)] .
  have "m_data s fd' \<noteq> Some p" for fd'
    using threads_invD(1) [OF inv, of fd' p] own by auto
  then have "entries_live t"
    using inv unfolding threads_inv_def entries_live_def emplace_fails(1) by auto
  moreover have "adders_own t"
    using inv emplace_fails(2) unfolding threads_inv_def adders_own_def emplace_fails(1)
    by (auto simp: adds_Some)
  moreover have "locks_exclude t"
    using inv unfolding threads_inv_def locks_exclude_def emplace_fails(1) by auto
  ultimately show ?thesis by (simp add: threads_inv_def)
next
  case (find_some i fd p)
  have "adders_own t"
    using inv unfolding threads_inv_def adders_own_def find_some(1) by auto
  moreover have "locks_exclude t"
    using inv find_some(3,4) unfolding threads_inv_def locks_exclude_def locked_iff find_some(1) by auto
  ultimately show ?thesis
    using inv by (simp add: threads_inv_def entries_live_def find_some(1))
next
  case (erase i fd p)
  have at: "m_data s fd = Some p" using threads_invD(5) [OF inv, of i fd p] erase(2) by simp
  obtain f where own: "live s p = Some (fd, f)" using threads_invD(1) [OF inv at] by blast
  have only: "fd' = fd" if "m_data s fd' = Some p" for fd'
    using threads_invD(1) [OF inv that] own by auto
  have "entries_live t"
    using inv only unfolding threads_inv_def entries_live_def erase(1) by auto
  moreover have "adders_own t"
    using inv at own unfolding threads_inv_def adders_own_def erase(1) by (auto simp: adds_Some)
  moreover have "locks_exclude t"
    using inv erase(2) unfolding threads_inv_def locks_exclude_def erase(1) by (auto simp: locks_Some)
  ultimately show ?thesis by (simp add: threads_inv_def)
qed (auto intro!: threads_inv_cong [OF inv] split: if_splits)

lemma inv_past:
  assumes "threads_inv s" and "at_pc s i (Invoked fd p)"
  shows "\<exists>f. live s p = Some (fd, f)"
  using threads_invD(1) [OF assms(1)] threads_invD(5) [OF assms(1), of i fd p] assms(2) by simp

text \<open>The thread that has found an entry is the only one in its callback.\<close>

lemma inv_found:
  assumes inv: "threads_inv s" and "at_pc s i (Found fd p)" and f: "live s p = Some (fd', f)"
  shows "fd' = fd" "p \<in> waiting_at s"
proof -
  show fd: "fd' = fd"
    using threads_invD(1) [OF inv] threads_invD(5) [OF inv, of i fd p] assms(2) f by force
  have "\<not> at_pc s j (Invoked fd1 p)" for j fd1
  proof
    assume j: "at_pc s j (Invoked fd1 p)"
    then have "fd1 = fd" using inv_past [OF inv j] f fd by simp
    then have "i = j"
      using inv j assms(2) unfolding threads_inv_def locks_exclude_def by (simp add: locks_Some)
    with j assms(2) show False by simp
  qed
  then show "p \<in> waiting_at s"
    using threads_invD(2) [OF inv, of p] f by (auto simp: waiting_at_def not_le [symmetric])
qed

lemma waiting_stays:
  assumes "next_address t = next_address s" "live t = live s"
    and "\<And>i fd p. pcs t i = Invoked fd p \<longleftrightarrow> pcs s i = Invoked fd p"
  shows "waiting t = waiting s"
  using assms by (intro waiting_cong) (simp_all add: waiting_at_def)

lemma step_balance:
  assumes "epoll_thread_step oneshot ecanceled os throws s t" and inv: "threads_inv s" and bal: "balance s"
  shows "balance t"
  using assms(1)
proof cases
  case (add_ctl i fd ev res errno k f)
  let ?p = "next_address s"
  have fresh: "live s ?p = None" using threads_invD(2) [OF inv] by simp
  then have "\<not> at_pc s j (Invoked fd' ?p)" for j fd'
    using inv_past [OF inv, of j fd' ?p] by auto
  moreover have "pcs t j = Invoked fd' q \<longleftrightarrow> pcs s j = Invoked fd' q" for j fd' q
    using add_ctl(2) by (simp add: add_ctl(1))
  ultimately have "waiting_at t = insert ?p (waiting_at s)"
    using fresh by (simp add: waiting_at_def) (auto simp: add_ctl(1) less_Suc_eq)
  then have "waiting t = add_mset (snd (the (live t ?p))) (waiting s)"
    by (rule waiting_insert) (auto simp: waiting_at_def add_ctl(1))
  with bal show ?thesis
    by (simp add: balance_def add_ctl(1))
next
  case (add_throws i fd ev res errno k)
  have "waiting t = waiting s"
    using threads_invD(2) [OF inv, of "next_address s"]
    by (intro waiting_cong) (auto simp: waiting_at_def add_throws(1) less_Suc_eq)
  with bal show ?thesis
    by (simp add: balance_def add_throws(1))
next
  case (emplace_fails i fd p f)
  have own: "live s p = Some (fd, f)" "p < next_address s"
    using threads_invD(3) [OF inv emplace_fails(2)] threads_invD(2) [OF inv, of p] by (auto simp: not_le [symmetric])
  have ni: "\<not> at_pc s j (Invoked fd' p)" for j fd'
  proof
    assume j: "at_pc s j (Invoked fd' p)"
    then have "fd' = fd" "m_data s fd' = Some p"
      using inv_past [OF inv j] own(1) threads_invD(5) [OF inv, of j fd' p] by simp_all
    with threads_invD(4) [OF inv emplace_fails(2)] show False by simp
  qed
  have "pcs t j = Invoked fd' q \<longleftrightarrow> pcs s j = Invoked fd' q" for j fd' q
    using emplace_fails(2) by (simp add: emplace_fails(1))
  then have "waiting_at s = insert p (waiting_at t)" "p \<notin> waiting_at t"
    using own ni by (simp_all add: waiting_at_def) (auto simp: emplace_fails(1))
  then have "waiting s = add_mset (snd (the (live s p))) (waiting t)"
    by (rule waiting_insert) (auto simp: waiting_at_def emplace_fails(1) split: if_splits)
  with bal own show ?thesis
    by (simp add: balance_def emplace_fails(1))
next
  case (invoke i fd p fd' f)
  note found = inv_found [OF inv invoke(2,3)]
  have "waiting_at s = insert p (waiting_at t)" "p \<notin> waiting_at t"
    using found(2) invoke(2) by (auto simp: waiting_at_def invoke(1) split: if_splits)
  then have "waiting s = add_mset (snd (the (live s p))) (waiting t)"
    by (rule waiting_insert) (simp add: invoke(1))
  with bal invoke(3) show ?thesis
    by (simp add: balance_def invoke(1))
next
  case (erase i fd p)
  have pc: "pcs t j = Invoked fd' q \<longleftrightarrow> pcs s j = Invoked fd' q" if "q \<noteq> p" for j fd' q
    using erase(2) that by (auto simp: erase(1))
  have gone: "p \<notin> waiting_at s" "p \<notin> waiting_at t"
    using erase(2) by (auto simp: waiting_at_def erase(1))
  have "q \<in> waiting_at t \<longleftrightarrow> q \<in> waiting_at s" for q
  proof (cases "q = p")
    case False
    then show ?thesis by (simp add: waiting_at_def pc) (simp add: erase(1))
  qed (simp add: gone)
  then have at: "waiting_at t = waiting_at s" by blast
  have "waiting t = waiting s"
    using gone(1) by (intro waiting_cong [OF at]) (auto simp: erase(1))
  with bal show ?thesis
    by (simp add: balance_def erase(1))
qed (use bal waiting_stays [of t s] in \<open>auto simp: balance_def split: if_splits\<close>)

text \<open>The calls that ended with an exception, and the result that every call is given.\<close>

definition calls_recorded :: "c_int \<Rightarrow> ('f \<Rightarrow> bool) \<Rightarrow> ('f, 'k) epoll_threads \<Rightarrow> bool" where
  "calls_recorded ecanceled throws s \<longleftrightarrow> thrown s = filter_mset throws (mset (map fst (invoked s)))
     \<and> (\<forall>(f, e) \<in> set (invoked s). e = - ecanceled)"

lemma step_calls:
  "epoll_thread_step oneshot ecanceled os throws s t \<Longrightarrow> calls_recorded ecanceled throws s \<Longrightarrow>
   calls_recorded ecanceled throws t"
  by (erule epoll_thread_step.cases) (auto simp: calls_recorded_def)

lemma reachable_keeps:
  assumes "epoll_reachable oneshot ecanceled os throws s0 s"
    and "threads_inv s0 \<and> balance s0 \<and> calls_recorded ecanceled throws s0"
  shows "threads_inv s \<and> balance s \<and> calls_recorded ecanceled throws s"
  using assms
proof (induction rule: epoll_reachable.induct)
  case (step s t)
  then show ?case
    using step_inv [OF step.hyps(2)] step_balance [OF step.hyps(2)] step_calls [OF step.hyps(2)] by simp
qed simp

lemma start_keeps:
  "threads_inv (epoll_threads_init h k) \<and> balance (epoll_threads_init h k)
   \<and> calls_recorded ecanceled throws (epoll_threads_init h k)"
proof -
  have "waiting (epoll_threads_init h k) = {#}"
    by (simp add: waiting_def waiting_at_def epoll_threads_init_def)
  then show ?thesis
    using threads_inv_init [of h k]
    by (simp add: balance_def calls_recorded_def) (simp add: epoll_threads_init_def)
qed

section \<open>A call that nobody interrupts\<close>

text \<open>The service without its threads.\<close>

definition service_of :: "('f, 'k) epoll_threads \<Rightarrow> ('f, 'k) epoll_service" where
  "service_of s = \<lparr>m_handle = m_handle s, m_data = m_data s, live = live s, next_address = next_address s,
     kernel = kernel s, invoked = invoked s\<rparr>"

lemma reach_one: "epoll_thread_step oneshot ecanceled os throws s t \<Longrightarrow> epoll_reachable oneshot ecanceled os throws s t"
  by (rule epoll_reachable.step [OF epoll_reachable.start])

lemma reach_trans:
  assumes "epoll_reachable oneshot ecanceled os throws t u" and "epoll_reachable oneshot ecanceled os throws s t"
  shows "epoll_reachable oneshot ecanceled os throws s u"
  using assms by (induction rule: epoll_reachable.induct) (auto intro: epoll_reachable.step)

lemma add_alone:
  assumes "threads_inv s" and "at_pc s i Outside" and "epoll_poll_add oneshot os fd ev f (service_of s) = Inr s'"
  shows "\<exists>t. epoll_reachable oneshot ecanceled os throws s t \<and> service_of t = s' \<and> pcs t = pcs s"
proof -
  obtain res errno k where add: "os_add os (m_handle s) fd (next_address s) (ev OR oneshot) (kernel s) = (res, errno, k)"
    by (cases "os_add os (m_handle s) fd (next_address s) (ev OR oneshot) (kernel s)")
  have res: "\<not> res <s 0"
    using assms(3) add by (auto simp: epoll_poll_add_def service_of_def Let_def)
  let ?u = "goto i (Adding fd (next_address s) f) (s\<lparr>kernel := k, next_address := Suc (next_address s),
      live := (live s)(next_address s := Some (fd, f)), added_cbs := add_mset f (added_cbs s)\<rparr>)"
  have u: "epoll_thread_step oneshot ecanceled os throws s ?u"
    using assms(2) add res by (rule epoll_thread_step.add_ctl)
  have at: "at_pc ?u i (Adding fd (next_address s) f)" by simp
  have fresh: "live s (next_address s) = None"
    using threads_invD(2) [OF assms(1)] by simp
  show ?thesis
  proof (cases "m_data s fd")
    case None
    let ?t = "goto i Outside (?u\<lparr>m_data := (m_data ?u)(fd := Some (next_address s))\<rparr>)"
    have "epoll_thread_step oneshot ecanceled os throws ?u ?t"
      using None by (intro epoll_thread_step.emplace [OF at]) simp
    then have "epoll_reachable oneshot ecanceled os throws s ?t"
      by (rule epoll_reachable.step [OF reach_one [OF u]])
    moreover have "service_of ?t = s'" "pcs ?t = pcs s"
      using None assms(2,3) add res by (auto simp: service_of_def epoll_poll_add_def Let_def)
    ultimately show ?thesis by blast
  next
    case (Some q)
    let ?t = "goto i Outside (?u\<lparr>live := (live ?u)(next_address s := None), dropped := add_mset f (dropped ?u)\<rparr>)"
    have "epoll_thread_step oneshot ecanceled os throws ?u ?t"
      using Some by (intro epoll_thread_step.emplace_fails [OF at]) simp
    then have "epoll_reachable oneshot ecanceled os throws s ?t"
      by (rule epoll_reachable.step [OF reach_one [OF u]])
    moreover have "service_of ?t = s'" "pcs ?t = pcs s"
      using Some assms(2,3) add res fresh by (auto simp: service_of_def epoll_poll_add_def Let_def fun_upd_idem)
    ultimately show ?thesis by blast
  qed
qed

text \<open>Adding while the map has an entry: the new completion is destroyed.\<close>

lemma add_dropped:
  assumes inv: "threads_inv s" and out: "at_pc s i Outside" and entry: "m_data s fd = Some p"
    and add: "os_add os (m_handle s) fd (next_address s) (ev OR oneshot) (kernel s) = (res, errno, k)" "\<not> res <s 0"
  shows "epoll_reachable oneshot ecanceled os throws s (s\<lparr>kernel := k, next_address := Suc (next_address s),
    added_cbs := add_mset f (added_cbs s), dropped := add_mset f (dropped s)\<rparr>)"
proof -
  let ?u = "goto i (Adding fd (next_address s) f) (s\<lparr>kernel := k, next_address := Suc (next_address s),
      live := (live s)(next_address s := Some (fd, f)), added_cbs := add_mset f (added_cbs s)\<rparr>)"
  let ?t = "goto i Outside (?u\<lparr>live := (live ?u)(next_address s := None), dropped := add_mset f (dropped ?u)\<rparr>)"
  have "epoll_thread_step oneshot ecanceled os throws ?u ?t"
    by (rule epoll_thread_step.emplace_fails) (use entry in auto)
  then have "epoll_reachable oneshot ecanceled os throws s ?t"
    using epoll_reachable.step [OF reach_one [OF epoll_thread_step.add_ctl [OF out add]]] by simp
  moreover have "?t = s\<lparr>kernel := k, next_address := Suc (next_address s),
      added_cbs := add_mset f (added_cbs s), dropped := add_mset f (dropped s)\<rparr>"
    using out threads_invD(2) [OF inv, of "next_address s"] by (cases s) (simp add: fun_upd_idem)
  ultimately show ?thesis by simp
qed

text \<open>Removing: the three accesses to the map after the system call, in order.\<close>

lemma remove_found:
  assumes "at_pc s i Outside" and "os_del os (m_handle s) fd (kernel s) = (res, errno, k)" "\<not> res <s 0"
    and "m_data s fd = Some p" "live s p = Some (fd, f)" "\<not> locked fd s"
  shows "epoll_reachable oneshot ecanceled os throws s
    (if throws f
     then s\<lparr>kernel := k, invoked := invoked s @ [(f, - ecanceled)], thrown := add_mset f (thrown s)\<rparr>
     else s\<lparr>kernel := k, invoked := invoked s @ [(f, - ecanceled)],
            m_data := (m_data s)(fd := None), live := (live s)(p := None)\<rparr>)"
proof -
  let ?s1 = "goto i (Removing fd) (s\<lparr>kernel := k\<rparr>)"
  let ?s2 = "goto i (Found fd p) ?s1"
  have 1: "epoll_reachable oneshot ecanceled os throws s ?s1"
    using reach_one [OF epoll_thread_step.del_ctl [OF assms(1-3)]] .
  have free: "\<not> locked fd ?s1"
    using assms(1,6) by (auto simp: locked_def)
  have 2: "epoll_reachable oneshot ecanceled os throws s ?s2"
    by (rule epoll_reachable.step [OF 1], rule epoll_thread_step.find_some [OF _ _ free]) (use assms(4) in simp_all)
  show ?thesis
  proof (cases "throws f")
    case True
    let ?t = "s\<lparr>kernel := k, invoked := invoked s @ [(f, - ecanceled)], thrown := add_mset f (thrown s)\<rparr>"
    have "epoll_thread_step oneshot ecanceled os throws ?s2
        (goto i Outside (?s2\<lparr>invoked := invoked ?s2 @ [(f, - ecanceled)], thrown := add_mset f (thrown ?s2)\<rparr>))"
      by (rule epoll_thread_step.invoke_throws) (use True assms(5) in simp_all)
    moreover have "goto i Outside (?s2\<lparr>invoked := invoked ?s2 @ [(f, - ecanceled)], thrown := add_mset f (thrown ?s2)\<rparr>) = ?t"
      using assms(1) by (cases s) (simp add: fun_upd_idem)
    ultimately show ?thesis
      using epoll_reachable.step [OF 2] True by simp
  next
    case False
    let ?s3 = "goto i (Invoked fd p) (?s2\<lparr>invoked := invoked ?s2 @ [(f, - ecanceled)]\<rparr>)"
    let ?t = "s\<lparr>kernel := k, invoked := invoked s @ [(f, - ecanceled)],
            m_data := (m_data s)(fd := None), live := (live s)(p := None)\<rparr>"
    have 3: "epoll_reachable oneshot ecanceled os throws s ?s3"
      by (rule epoll_reachable.step [OF 2], rule epoll_thread_step.invoke) (use False assms(5) in simp_all)
    have "epoll_thread_step oneshot ecanceled os throws ?s3
        (goto i Outside (?s3\<lparr>m_data := (m_data ?s3)(fd := None), live := (live ?s3)(p := None)\<rparr>))"
      by (rule epoll_thread_step.erase) simp
    moreover have "goto i Outside (?s3\<lparr>m_data := (m_data ?s3)(fd := None), live := (live ?s3)(p := None)\<rparr>) = ?t"
      using assms(1) by (cases s) (simp add: fun_upd_idem)
    ultimately show ?thesis
      using epoll_reachable.step [OF 3] False by simp
  qed
qed

lemma remove_nothing:
  assumes "at_pc s i Outside" and "os_del os (m_handle s) fd (kernel s) = (res, errno, k)" "\<not> res <s 0"
    and "m_data s fd = None"
  shows "epoll_reachable oneshot ecanceled os throws s (s\<lparr>kernel := k\<rparr>)"
proof -
  let ?s1 = "goto i (Removing fd) (s\<lparr>kernel := k\<rparr>)"
  have "epoll_thread_step oneshot ecanceled os throws ?s1 (goto i Outside ?s1)"
    by (rule epoll_thread_step.find_none) (use assms(4) in simp_all)
  moreover have "goto i Outside ?s1 = s\<lparr>kernel := k\<rparr>"
    using assms(1) by (cases s) (simp add: fun_upd_idem)
  ultimately show ?thesis
    using epoll_reachable.step [OF reach_one [OF epoll_thread_step.del_ctl [OF assms(1-3)]]] by simp
qed

lemma remove_alone:
  assumes inv: "threads_inv s" and "at_pc s i Outside" and "\<not> locked fd s"
    and rem: "epoll_poll_remove ecanceled os fd (service_of s) = Inr s'" and "\<And>f. \<not> throws f"
  shows "\<exists>t. epoll_reachable oneshot ecanceled os throws s t \<and> service_of t = s' \<and> pcs t = pcs s"
proof -
  obtain res errno k where del: "os_del os (m_handle s) fd (kernel s) = (res, errno, k)"
    by (cases "os_del os (m_handle s) fd (kernel s)")
  have res: "\<not> res <s 0"
    using rem del by (auto simp: epoll_poll_remove_def service_of_def)
  show ?thesis
  proof (cases "m_data s fd")
    case None
    show ?thesis
      by (rule exI [of _ "s\<lparr>kernel := k\<rparr>"])
        (use remove_nothing [OF assms(2) del res None] None rem del res in
          \<open>simp add: service_of_def epoll_poll_remove_def Let_def\<close>)
  next
    case (Some p)
    then obtain f where f: "live s p = Some (fd, f)"
      using threads_invD(1) [OF inv] by blast
    show ?thesis
      by (rule exI [of _ "s\<lparr>kernel := k, invoked := invoked s @ [(f, - ecanceled)],
            m_data := (m_data s)(fd := None), live := (live s)(p := None)\<rparr>"])
        (use remove_found [OF assms(2) del res Some f assms(3), of oneshot ecanceled throws] Some f rem del res assms(5) in
          \<open>simp add: service_of_def epoll_poll_remove_def epoll_erase_def pfn_invoke_def Let_def\<close>)
  qed
qed

section \<open>Entries that the kernel does not watch\<close>

fun concerns :: "c_int \<Rightarrow> 'f epoll_pc \<Rightarrow> bool" where
  "concerns fd (Adding fd' p f) \<longleftrightarrow> fd' = fd"
| "concerns fd (Removing fd') \<longleftrightarrow> fd' = fd"
| "concerns fd (Found fd' p) \<longleftrightarrow> fd' = fd"
| "concerns fd (Invoked fd' p) \<longleftrightarrow> fd' = fd"
| "concerns fd Outside \<longleftrightarrow> False"

text \<open>The entry is there, the kernel does not watch the descriptor, and no thread is busy with it.\<close>

definition abandoned :: "('k \<Rightarrow> c_int set) \<Rightarrow> c_int \<Rightarrow> nat \<Rightarrow> 'f \<Rightarrow> ('f, 'k) epoll_threads \<Rightarrow> bool" where
  "abandoned reg fd p f s \<longleftrightarrow> m_data s fd = Some p \<and> live s p = Some (fd, f) \<and> fd \<notin> reg (kernel s)
     \<and> (\<forall>i. \<not> concerns fd (pcs s i))"

text \<open>A call that fails leaves the interest list, too.\<close>

definition epoll_kernel_fails :: "'k epoll_os \<Rightarrow> ('k \<Rightarrow> c_int set) \<Rightarrow> bool" where
  "epoll_kernel_fails os reg \<longleftrightarrow>
     (\<forall>h fd p ev k res errno k'. os_add os h fd p ev k = (res, errno, k') \<longrightarrow> res <s 0 \<longrightarrow> reg k' = reg k)
     \<and> (\<forall>h fd k res errno k'. os_del os h fd k = (res, errno, k') \<longrightarrow> res <s 0 \<longrightarrow> reg k' = reg k)"

lemma unlocked: "\<forall>i. \<not> concerns fd (pcs s i) \<Longrightarrow> \<not> locked fd s"
  by (metis concerns.simps(3,4) locked_def)

lemma abandoned_cong:
  assumes "abandoned reg fd p f s" and "m_data t fd = m_data s fd" "live t p = live s p"
    and "fd \<in> reg (kernel t) \<Longrightarrow> fd \<in> reg (kernel s)" "\<And>l. concerns fd (pcs t l) \<Longrightarrow> concerns fd (pcs s l)"
  shows "abandoned reg fd p f t"
  using assms unfolding abandoned_def by auto

lemma abandoned_step:
  assumes "epoll_thread_step oneshot ecanceled os throws s t"
    and K: "epoll_kernel os reg" and F: "epoll_kernel_fails os reg" and inv: "threads_inv s"
    and ab: "abandoned reg fd p f s"
  shows "abandoned reg fd p f t \<or> (\<exists>i q g. at_pc t i (Adding fd q g))"
proof -
  have entry: "m_data s fd = Some p" "live s p = Some (fd, f)" "fd \<notin> reg (kernel s)"
    and quiet: "\<not> concerns fd (pcs s i)" for i
    using ab by (simp_all add: abandoned_def)
  have other: "fd' \<noteq> fd" if "concerns fd' (pcs s i)" for fd' i
    using quiet [of i] that by auto
  note cong = abandoned_cong [OF ab]
  from assms(1) show ?thesis
  proof cases
    case (add_ctl i fd' ev res errno k g)
    show ?thesis
    proof (cases "fd' = fd")
      case True
      then have "at_pc t i (Adding fd (next_address s) g)" by (simp add: add_ctl(1))
      then show ?thesis by blast
    next
      case False
      have "p \<noteq> next_address s" using threads_invD(2) [OF inv, of p] entry(2) by auto
      with False have "abandoned reg fd p f t"
        using epoll_kernel_add(1) [OF K add_ctl(3,4)]
        by (intro cong) (auto simp: add_ctl(1) split: if_splits)
      then show ?thesis ..
    qed
  next
    case (add_throws i fd' ev res errno k)
    then have "reg k = reg (kernel s)" using F unfolding epoll_kernel_fails_def by blast
    then have "abandoned reg fd p f t" by (intro cong) (simp_all add: add_throws(1))
    then show ?thesis ..
  next
    case (del_throws i fd' res errno k)
    then have "reg k = reg (kernel s)" using F unfolding epoll_kernel_fails_def by blast
    then have "abandoned reg fd p f t" by (intro cong) (simp_all add: del_throws(1))
    then show ?thesis ..
  next
    case (wait i res errno evs k)
    then have "abandoned reg fd p f t"
      using epoll_kernel_pwait [OF K wait(3)] by (intro cong) simp_all
    then show ?thesis ..
  next
    case (del_ctl i fd' res errno k)
    note del = epoll_kernel_del [OF K del_ctl(3,4)]
    then have "fd' \<noteq> fd" using entry(3) by auto
    then have "abandoned reg fd p f t"
      using del(1) by (intro cong) (auto simp: del_ctl(1) split: if_splits)
    then show ?thesis ..
  next
    case (emplace i fd' q g)
    then have "fd' \<noteq> fd" using other [of fd' i] by simp
    then have "abandoned reg fd p f t"
      by (intro cong) (auto simp: emplace(1) split: if_splits)
    then show ?thesis ..
  next
    case (emplace_fails i fd' q g)
    then have "fd' \<noteq> fd" using other [of fd' i] by simp
    moreover from this have "p \<noteq> q"
      using threads_invD(3) [OF inv emplace_fails(2)] entry(2) by auto
    ultimately have "abandoned reg fd p f t"
      by (intro cong) (auto simp: emplace_fails(1) split: if_splits)
    then show ?thesis ..
  next
    case (find_some i fd' q)
    then have "fd' \<noteq> fd" using other [of fd' i] by simp
    then have "abandoned reg fd p f t"
      by (intro cong) (auto simp: find_some(1) split: if_splits)
    then show ?thesis ..
  next
    case (erase i fd' q)
    then have "fd' \<noteq> fd" using other [of fd' i] by simp
    moreover from this have "p \<noteq> q"
      using inv_past [OF inv erase(2)] entry(2) by auto
    ultimately have "abandoned reg fd p f t"
      by (intro cong) (auto simp: erase(1) split: if_splits)
    then show ?thesis ..
  next
    case (invoke i fd' q fd'' g)
    then have "fd' \<noteq> fd" using other [of fd' i] by simp
    then have "abandoned reg fd p f t"
      by (intro cong) (auto simp: invoke(1) split: if_splits)
    then show ?thesis ..
  qed (use entry quiet in \<open>auto simp: abandoned_def\<close>)
qed

lemma abandoned_stays:
  assumes "epoll_reachable oneshot ecanceled os throws s t"
    and "epoll_kernel os reg" "epoll_kernel_fails os reg"
    and "threads_inv s \<and> balance s \<and> calls_recorded ecanceled throws s" "abandoned reg fd p f s"
  shows "abandoned reg fd p f t \<or> (\<exists>u i q g. epoll_reachable oneshot ecanceled os throws s u
    \<and> epoll_reachable oneshot ecanceled os throws u t \<and> at_pc u i (Adding fd q g))"
  using assms(1)
proof (induction rule: epoll_reachable.induct)
  case start
  then show ?case using assms(5) by simp
next
  case (step t v)
  have inv: "threads_inv t"
    using reachable_keeps [OF step.hyps(1) assms(4)] by simp
  from step.IH show ?case
  proof (elim disjE exE conjE)
    assume "abandoned reg fd p f t"
    from abandoned_step [OF step.hyps(2) assms(2,3) inv this] show ?thesis
      using epoll_reachable.step [OF step.hyps] epoll_reachable.start by blast
  next
    fix u i q g
    assume "epoll_reachable oneshot ecanceled os throws s u" "epoll_reachable oneshot ecanceled os throws u t"
      "at_pc u i (Adding fd q g)"
    then show ?thesis
      using epoll_reachable.step [OF _ step.hyps(2)] by blast
  qed
qed

text \<open>What holds until something else has been seen on the way.\<close>

definition seen ::
  "c_uint \<Rightarrow> c_int \<Rightarrow> 'k epoll_os \<Rightarrow> ('f \<Rightarrow> bool) \<Rightarrow> ('f, 'k) epoll_threads \<Rightarrow> ('f, 'k) epoll_threads \<Rightarrow>
   (('f, 'k) epoll_threads \<Rightarrow> bool) \<Rightarrow> bool" where
  "seen oneshot ecanceled os throws s t P \<longleftrightarrow>
     (\<exists>u. epoll_reachable oneshot ecanceled os throws s u \<and> epoll_reachable oneshot ecanceled os throws u t \<and> P u)"

lemma holds_until:
  assumes "epoll_reachable oneshot ecanceled os throws s t" and "Q s" and inv: "threads_inv s"
    and step: "\<And>t v. threads_inv t \<Longrightarrow> Q t \<Longrightarrow> epoll_thread_step oneshot ecanceled os throws t v \<Longrightarrow> Q v \<or> P t \<or> P v"
  shows "Q t \<or> seen oneshot ecanceled os throws s t P"
  using assms(1)
proof (induction rule: epoll_reachable.induct)
  case start
  then show ?case using assms(2) by simp
next
  case (step t v)
  have inv: "threads_inv t"
    using step.hyps(1) by (induction rule: epoll_reachable.induct) (use inv step_inv in blast)+
  from step.IH show ?case
  proof
    assume "Q t"
    from assms(4) [OF inv this step.hyps(2)] show ?thesis
      unfolding seen_def using step.hyps epoll_reachable.step [OF step.hyps] reach_one [OF step.hyps(2)]
        epoll_reachable.start by blast
  next
    assume "seen oneshot ecanceled os throws s t P"
    then show ?thesis
      unfolding seen_def using epoll_reachable.step [OF _ step.hyps(2)] by blast
  qed
qed

text \<open>
  The interest list with the address that the kernel hands out for each descriptor, \<open>event.data.ptr\<close>:
  a call that succeeds enters or removes it, one that fails and a wait leave it.
\<close>

definition epoll_kernel_points :: "'k epoll_os \<Rightarrow> ('k \<Rightarrow> c_int \<Rightarrow> nat option) \<Rightarrow> bool" where
  "epoll_kernel_points os ptr \<longleftrightarrow>
     (\<forall>h fd p ev k res errno k'. os_add os h fd p ev k = (res, errno, k') \<longrightarrow>
        (if res <s 0 then ptr k' = ptr k else ptr k fd = None \<and> ptr k' = (ptr k)(fd := Some p)))
     \<and> (\<forall>h fd k res errno k'. os_del os h fd k = (res, errno, k') \<longrightarrow>
        (if res <s 0 then ptr k' = ptr k else ptr k fd \<noteq> None \<and> ptr k' = (ptr k)(fd := None)))
     \<and> (\<forall>h n k res errno evs k'. os_pwait os h n k = (res, errno, evs, k') \<longrightarrow> ptr k' = ptr k)"

lemma points_add:
  assumes "epoll_kernel_points os ptr" "os_add os h fd p ev k = (res, errno, k')"
  shows "if res <s 0 then ptr k' = ptr k else ptr k fd = None \<and> ptr k' = (ptr k)(fd := Some p)"
  using assms(1) [unfolded epoll_kernel_points_def, THEN conjunct1, rule_format, OF assms(2)] .

lemma points_del:
  assumes "epoll_kernel_points os ptr" "os_del os h fd k = (res, errno, k')"
  shows "if res <s 0 then ptr k' = ptr k else ptr k fd \<noteq> None \<and> ptr k' = (ptr k)(fd := None)"
  using assms(1) [unfolded epoll_kernel_points_def, THEN conjunct2, THEN conjunct1, rule_format, OF assms(2)] .

lemma points_pwait:
  assumes "epoll_kernel_points os ptr" "os_pwait os h n k = (res, errno, evs, k')"
  shows "ptr k' = ptr k"
  using assms(1) [unfolded epoll_kernel_points_def, THEN conjunct2, THEN conjunct2, rule_format, OF assms(2)] .

lemma points_kernel:
  assumes "epoll_kernel_points os ptr"
  shows "epoll_kernel os (\<lambda>k. dom (ptr k))" and "epoll_kernel_fails os (\<lambda>k. dom (ptr k))"
proof -
  have a: "dom (ptr k') = insert fd (dom (ptr k)) \<and> fd \<notin> dom (ptr k)"
    if "os_add os h fd p ev k = (res, errno, k')" "\<not> res <s 0" for h fd p ev k res errno k'
    using points_add [OF assms that(1)] that(2) by auto
  have d: "dom (ptr k') = dom (ptr k) - {fd} \<and> fd \<in> dom (ptr k)"
    if "os_del os h fd k = (res, errno, k')" "\<not> res <s 0" for h fd k res errno k'
    using points_del [OF assms that(1)] that(2) by auto
  have w: "dom (ptr k') = dom (ptr k)" if "os_pwait os h n k = (res, errno, evs, k')" for h n k res errno evs k'
    using points_pwait [OF assms that] by simp
  show "epoll_kernel os (\<lambda>k. dom (ptr k))"
    unfolding epoll_kernel_def using a d w by blast
  have "dom (ptr k') = dom (ptr k)" if "os_add os h fd p ev k = (res, errno, k')" "res <s 0" for h fd p ev k res errno k'
    using points_add [OF assms that(1)] that(2) by simp
  moreover have "dom (ptr k') = dom (ptr k)" if "os_del os h fd k = (res, errno, k')" "res <s 0" for h fd k res errno k'
    using points_del [OF assms that(1)] that(2) by simp
  ultimately show "epoll_kernel_fails os (\<lambda>k. dom (ptr k))"
    unfolding epoll_kernel_fails_def by blast
qed

text \<open>The kernel keeps the address until the descriptor is removed.\<close>

lemma address_kept:
  assumes "epoll_reachable oneshot ecanceled os throws s t" and "epoll_kernel_points os ptr" and "threads_inv s"
    and "ptr (kernel s) fd = Some q"
  shows "ptr (kernel t) fd = Some q \<or> seen oneshot ecanceled os throws s t (\<lambda>u. \<exists>j. at_pc u j (Removing fd))"
  using assms(1,4,3)
proof (rule holds_until)
  fix t v
  assume q: "ptr (kernel t) fd = Some q" and step: "epoll_thread_step oneshot ecanceled os throws t v"
  from step show "ptr (kernel v) fd = Some q \<or> (\<exists>j. at_pc t j (Removing fd)) \<or> (\<exists>j. at_pc v j (Removing fd))"
  proof cases
    case (add_ctl i fd' ev res errno k g)
    then show ?thesis using points_add [OF assms(2) add_ctl(3)] q by (auto split: if_splits)
  next
    case (add_throws i fd' ev res errno k)
    then show ?thesis using points_add [OF assms(2) add_throws(3)] q by simp
  next
    case (del_ctl i fd' res errno k)
    show ?thesis
    proof (cases "fd' = fd")
      case True
      then have "at_pc v i (Removing fd)" by (simp add: del_ctl(1))
      then show ?thesis by blast
    next
      case False
      then show ?thesis using points_del [OF assms(2) del_ctl(3)] del_ctl(1,4) q by simp
    qed
  next
    case (del_throws i fd' res errno k)
    then show ?thesis using points_del [OF assms(2) del_throws(3)] q by simp
  next
    case (wait i res errno evs k)
    then show ?thesis using points_pwait [OF assms(2) wait(3)] q by simp
  qed (use q in simp_all)
qed

text \<open>
  An entry stays until the call of its callback has returned, and meanwhile the completion \<open>q\<close> that
  thread \<open>i\<close> brings is only waiting to be destroyed.
\<close>

definition losing ::
  "c_int \<Rightarrow> nat \<Rightarrow> 'f \<Rightarrow> nat \<Rightarrow> nat \<Rightarrow> 'f \<Rightarrow> 'f multiset \<Rightarrow> ('f, 'k) epoll_threads \<Rightarrow> bool" where
  "losing fd p f i q g D s \<longleftrightarrow> m_data s fd = Some p \<and> live s p = Some (fd, f) \<and> q < next_address s
     \<and> (at_pc s i (Adding fd q g) \<and> D \<subseteq># dropped s \<or> live s q = None \<and> add_mset g D \<subseteq># dropped s)"

lemma losing_cong:
  assumes "losing fd p f i q g D s" and "m_data t fd = m_data s fd" "live t p = live s p" "live t q = live s q"
    and "next_address s \<le> next_address t" "dropped s \<subseteq># dropped t"
    and "at_pc s i (Adding fd q g) \<Longrightarrow> at_pc t i (Adding fd q g)"
  shows "losing fd p f i q g D t"
  using assms unfolding losing_def by (auto intro: subset_mset.order_trans)

lemma losing_step:
  assumes step: "epoll_thread_step oneshot ecanceled os throws s t" and inv: "threads_inv s"
    and lo: "losing fd p f i q g D s"
  shows "losing fd p f i q g D t \<or> (\<exists>j. at_pc s j (Invoked fd p)) \<or> (\<exists>j. at_pc t j (Invoked fd p))"
proof -
  have entry: "m_data s fd = Some p" "live s p = Some (fd, f)" and q: "q < next_address s"
    using lo by (simp_all add: losing_def)
  note cong = losing_cong [OF lo]
  have fresh: "p \<noteq> next_address s" "q \<noteq> next_address s"
    using threads_invD(2) [OF inv, of p] entry(2) q by auto
  from step show ?thesis
  proof cases
    case (emplace j fd' r h)
    then have "fd' \<noteq> fd" using entry(1) by auto
    then have "losing fd p f i q g D t"
      using emplace(2) by (intro cong) (auto simp: emplace(1))
    then show ?thesis ..
  next
    case (emplace_fails j fd' r h)
    have own: "live s r = Some (fd', h)" "m_data s fd' \<noteq> Some r"
      using threads_invD(3,4) [OF inv emplace_fails(2)] .
    then have r: "r \<noteq> p" using entry by auto
    have "losing fd p f i q g D t"
    proof (cases "j = i \<and> at_pc s i (Adding fd q g)")
      case True
      then have "r = q" "h = g" "D \<subseteq># dropped s"
        using emplace_fails(2) lo own(1) by (auto simp: losing_def)
      then show ?thesis
        using entry q r by (simp add: losing_def emplace_fails(1))
    next
      case False
      have "q = r \<Longrightarrow> live s q = None \<Longrightarrow> False" using own by simp
      moreover have "live s q = None" if "q = r"
      proof (rule ccontr)
        assume "live s q \<noteq> None"
        then have i: "at_pc s i (Adding fd q g)" using lo by (auto simp: losing_def)
        with emplace_fails(2) that have "i = j"
          using inv unfolding threads_inv_def adders_own_def by (metis adds.simps(1))
        with False i show False by simp
      qed
      ultimately have "q \<noteq> r" by auto
      then show ?thesis
        using r emplace_fails(2) False by (intro cong) (auto simp: emplace_fails(1))
    qed
    then show ?thesis ..
  next
    case (erase j fd' r)
    show ?thesis
    proof (cases "fd' = fd")
      case True
      then have "r = p" using threads_invD(5) [OF inv, of j fd r] erase(2) entry(1) by simp
      with erase(2) True show ?thesis by blast
    next
      case False
      obtain h where own: "live s r = Some (fd', h)" using inv_past [OF inv erase(2)] by blast
      have at: "m_data s fd' = Some r" using threads_invD(5) [OF inv, of j fd' r] erase(2) by simp
      have "r \<noteq> p" using own entry(2) False by auto
      moreover have "r \<noteq> q" if "at_pc s i (Adding fd q g)"
        using threads_invD(3) [OF inv that] own False by auto
      ultimately have "losing fd p f i q g D t"
        using lo False erase(2) entry by (auto simp: losing_def erase(1))
      then show ?thesis ..
    qed
  next
    case (add_ctl j fd' ev res errno k h)
    then have "losing fd p f i q g D t"
      using fresh by (intro cong) (auto simp: add_ctl(1))
    then show ?thesis ..
  qed (rule disjI1, rule cong; auto)+
qed

text \<open>Adding the descriptor of an abandoned entry again.\<close>

lemma added_again:
  assumes "epoll_thread_step oneshot ecanceled os throws s s1" and "threads_inv s"
    and "m_data s fd = Some p" "live s p = Some (fd, f)" "\<forall>l. \<not> concerns fd (pcs s l)"
    and "at_pc s1 i (Adding fd (next_address s) g)" and "epoll_kernel_points os ptr"
  shows "losing fd p f i (next_address s) g (dropped s) s1" and "ptr (kernel s1) fd = Some (next_address s)"
proof -
  have before: "pcs s i \<noteq> Adding fd q g" for q
    using assms(5) by (metis concerns.simps(1))
  from assms(1) have "losing fd p f i (next_address s) g (dropped s) s1 \<and> ptr (kernel s1) fd = Some (next_address s)"
  proof cases
    case (add_ctl j fd' ev res errno k h)
    then have "j = i" "fd' = fd" "h = g"
      using assms(6) before by (auto split: if_splits)
    moreover have "p \<noteq> next_address s"
      using threads_invD(2) [OF assms(2), of p] assms(4) by auto
    ultimately show ?thesis
      using assms(3,4) points_add [OF assms(7) add_ctl(3)] add_ctl(4) by (auto simp: losing_def add_ctl(1))
  qed (use assms(6) before in \<open>auto split: if_splits\<close>)
  then show "losing fd p f i (next_address s) g (dropped s) s1" "ptr (kernel s1) fd = Some (next_address s)"
    by simp_all
qed

lemma losing_until:
  assumes "epoll_reachable oneshot ecanceled os throws s t" and "threads_inv s" and "losing fd p f i q g D s"
  shows "losing fd p f i q g D t \<or> seen oneshot ecanceled os throws s t (\<lambda>u. \<exists>j. at_pc u j (Invoked fd p))"
  using assms(1,3,2) by (rule holds_until) (rule losing_step)

text \<open>The race: another thread removes between the system call of \<open>async_poll_add\<close> and its \<open>emplace\<close>.\<close>

lemma race_abandons:
  assumes K: "epoll_kernel os reg" and inv: "threads_inv s"
    and "at_pc s i (Adding fd p f)" "m_data s fd = None" "\<And>l. l \<noteq> i \<Longrightarrow> \<not> concerns fd (pcs s l)"
    and "at_pc s j Outside" and del: "os_del os (m_handle s) fd (kernel s) = (res, errno, k)" "\<not> res <s 0"
  shows "\<exists>t. epoll_reachable oneshot ecanceled os throws s t \<and> abandoned reg fd p f t \<and> invoked t = invoked s"
proof -
  let ?u = "s\<lparr>kernel := k\<rparr>"
  let ?t = "goto i Outside (?u\<lparr>m_data := (m_data ?u)(fd := Some p)\<rparr>)"
  have "epoll_reachable oneshot ecanceled os throws s ?u"
    by (rule remove_nothing [OF assms(6) del assms(4)])
  moreover have "epoll_thread_step oneshot ecanceled os throws ?u ?t"
    by (rule epoll_thread_step.emplace) (use assms(3,4) in simp_all)
  ultimately have "epoll_reachable oneshot ecanceled os throws s ?t"
    by (rule epoll_reachable.step)
  moreover have "abandoned reg fd p f ?t"
    using threads_invD(3) [OF inv assms(3)] epoll_kernel_del [OF K del] assms(5) by (auto simp: abandoned_def)
  ultimately show ?thesis by auto
qed

lemma exception_abandons:
  assumes K: "epoll_kernel os reg" and inv: "threads_inv s"
    and "m_data s fd = Some p" "live s p = Some (fd, f)" "\<And>l. \<not> concerns fd (pcs s l)"
    and "at_pc s j Outside" and del: "os_del os (m_handle s) fd (kernel s) = (res, errno, k)" "\<not> res <s 0"
    and "throws f"
  shows "\<exists>t. epoll_reachable oneshot ecanceled os throws s t \<and> abandoned reg fd p f t
    \<and> invoked t = invoked s @ [(f, - ecanceled)]"
  using remove_found [OF assms(6) del assms(3,4) unlocked, of oneshot ecanceled throws] assms(3-5,9)
    epoll_kernel_del [OF K del]
  by (intro exI conjI) (simp, simp_all add: abandoned_def)

section \<open>Properties\<close>

text \<open>
  C14: Whatever the threads of a service do and however their calls interleave, every callback that was
  added is accounted for: it has been called and returned, once, or its completion was destroyed
  uncalled, or its completion is still there and waits. (A callback that throws still waits after the
  call.) No thread is ever about to call a completion that was destroyed, no two threads are in
  \<open>poll_remove\<close> past the \<open>find\<close> of the same descriptor, and every call passes \<open>-ECANCELED\<close>.
\<close>

theorem epoll_threads_account:
  assumes "epoll_reachable oneshot ecanceled os throws (epoll_threads_init h k) s"
  shows "filter_mset (\<lambda>f. \<not> throws f) (mset (map fst (invoked s))) + dropped s + waiting s = added_cbs s
    \<and> (at_pc s i (Found fd p) \<longrightarrow> (\<exists>f. live s p = Some (fd, f)))
    \<and> (locks (pcs s i) = Some (fd, p) \<and> locks (pcs s j) = Some (fd, q) \<longrightarrow> i = j)
    \<and> (\<forall>(f, e) \<in> set (invoked s). e = - ecanceled)"
proof -
  have inv: "threads_inv s" and bal: "balance s" and calls: "calls_recorded ecanceled throws s"
    using reachable_keeps [OF assms start_keeps] by simp_all
  have "filter_mset (\<lambda>f. \<not> throws f) (mset (map fst (invoked s))) + thrown s = mset (map fst (invoked s))"
    using calls multiset_partition [of "mset (map fst (invoked s))" throws] unfolding calls_recorded_def
    by (simp add: ac_simps)
  then have "filter_mset (\<lambda>f. \<not> throws f) (mset (map fst (invoked s))) + dropped s + waiting s + thrown s
      = added_cbs s + thrown s"
    using bal unfolding balance_def by (metis (no_types, lifting) add.assoc add.commute)
  moreover have "\<exists>f. live s p = Some (fd, f)" if "at_pc s i (Found fd p)"
    using threads_invD(1) [OF inv] threads_invD(5) [OF inv, of i fd p] that by simp
  moreover have "i = j" if "locks (pcs s i) = Some (fd, p)" "locks (pcs s j) = Some (fd, q)"
    using inv that unfolding threads_inv_def locks_exclude_def by blast
  ultimately show ?thesis
    using calls unfolding calls_recorded_def by auto
qed

text \<open>Thread 0 has added descriptor 3 with the callback 7 to the kernel.\<close>

definition adding_threads :: "(nat, c_int list) epoll_threads" where
  "adding_threads = (epoll_threads_init 5 [])\<lparr>kernel := [3], next_address := 1, live := (\<lambda>_. None)(0 := Some (3, 7)),
     added_cbs := {#7#}, pcs := (\<lambda>_. Outside)(0 := Adding 3 0 7)\<rparr>"

lemma adding_reachable:
  "epoll_reachable 0x40000000 125 list_os throws (epoll_threads_init 5 []) adding_threads"
proof -
  let ?s = "epoll_threads_init 5 [] :: (nat, c_int list) epoll_threads"
  have "os_add list_os (m_handle ?s) 3 (next_address ?s) (1 OR 0x40000000) (kernel ?s) = (0, 0, [3])"
    by (simp add: epoll_threads_init_def list_os_def)
  from epoll_thread_step.add_ctl [OF _ this, of 0 "125" throws 7]
  show ?thesis
    by (intro reach_one) (simp add: adding_threads_def epoll_threads_init_def)
qed

theorem epoll_threads_account_witness:
  "dropped adding_threads + waiting adding_threads = {#7#}"
  using epoll_threads_account [OF adding_reachable, of "\<lambda>_. False"]
  by (simp add: adding_threads_def epoll_threads_init_def)

text \<open>
  C15: Two ways to lose a callback. If another thread removes the descriptor between the system call of
  \<open>async_poll_add\<close> and its \<open>emplace\<close>, its \<open>poll_remove\<close> finds nothing to cancel and the entry is made
  afterwards; and if a callback throws out of \<open>poll_remove\<close>, its entry stays. Either way the service
  ends with an entry for a descriptor that the kernel does not watch, with no call under way.
\<close>

theorem epoll_entry_abandoned:
  assumes "epoll_kernel os reg" and "epoll_reachable oneshot ecanceled os throws (epoll_threads_init h k) s"
    and "at_pc s j Outside" and "os_del os (m_handle s) fd (kernel s) = (res, errno, k')" "\<not> res <s 0"
  shows "(at_pc s i (Adding fd p f) \<and> m_data s fd = None \<and> (\<forall>l. l \<noteq> i \<longrightarrow> \<not> concerns fd (pcs s l)) \<longrightarrow>
      (\<exists>t. epoll_reachable oneshot ecanceled os throws s t \<and> abandoned reg fd p f t \<and> invoked t = invoked s))
    \<and> (m_data s fd = Some p \<and> live s p = Some (fd, f) \<and> (\<forall>l. \<not> concerns fd (pcs s l)) \<and> throws f \<longrightarrow>
      (\<exists>t. epoll_reachable oneshot ecanceled os throws s t \<and> abandoned reg fd p f t
        \<and> invoked t = invoked s @ [(f, - ecanceled)]))"
proof -
  have inv: "threads_inv s"
    using reachable_keeps [OF assms(2) start_keeps] by simp
  show ?thesis
    using race_abandons [OF assms(1) inv _ _ _ assms(3-5), of i p f]
      exception_abandons [OF assms(1) inv _ _ _ assms(3-5), of p f throws] by blast
qed

theorem epoll_entry_abandoned_witness:
  "\<exists>t. epoll_reachable 0x40000000 125 list_os (\<lambda>f. f = 9) adding_threads t \<and> abandoned set 3 0 7 t \<and> invoked t = []"
proof -
  have "at_pc adding_threads 1 Outside"
    and "os_del list_os (m_handle adding_threads) 3 (kernel adding_threads) = (0, 0, [])"
    by (simp_all add: adding_threads_def epoll_threads_init_def list_os_def)
  from epoll_entry_abandoned [OF list_os_kernel adding_reachable this, where i = 0 and p = 0 and f = 7 and throws = "\<lambda>f. f = 9"]
  show ?thesis
    by (simp add: adding_threads_def epoll_threads_init_def)
qed

text \<open>
  C16: A lost entry stays for as long as nobody adds its descriptor again: no \<open>poll_remove\<close> gets past its
  system call for it, so its callback is never called. And adding it again makes it worse. The kernel
  then watches the descriptor with the address of the new completion, until some thread removes it. But
  the map keeps the old entry until the old callback has been called and has returned: until then the
  thread that adds can only destroy the new completion uncalled, with the kernel still having its
  address, and every \<open>poll_remove\<close> that gets past its \<open>find\<close> has found the old one; and at any time
  then a \<open>poll_remove\<close> that is not interrupted calls the old callback, a second time if it threw.
\<close>

theorem abandoned_entry_stays:
  assumes "epoll_kernel_points os ptr"
    and "epoll_reachable oneshot ecanceled os throws (epoll_threads_init h k) s"
    and "abandoned (\<lambda>k. dom (ptr k)) fd p f s"
  shows "(\<forall>t. epoll_reachable oneshot ecanceled os throws s t \<longrightarrow> abandoned (\<lambda>k. dom (ptr k)) fd p f t
      \<or> seen oneshot ecanceled os throws s t (\<lambda>u. \<exists>i q g. at_pc u i (Adding fd q g)))
    \<and> (\<forall>i g s1 t. epoll_thread_step oneshot ecanceled os throws s s1 \<and> at_pc s1 i (Adding fd (next_address s) g)
          \<and> epoll_reachable oneshot ecanceled os throws s1 t \<longrightarrow>
        (ptr (kernel t) fd = Some (next_address s)
          \<or> seen oneshot ecanceled os throws s1 t (\<lambda>u. \<exists>j. at_pc u j (Removing fd)))
      \<and> (m_data t fd = Some p \<and> live t p = Some (fd, f) \<and> (\<forall>j r. at_pc t j (Found fd r) \<longrightarrow> r = p)
            \<and> (at_pc t i (Adding fd (next_address s) g)
               \<or> live t (next_address s) = None \<and> add_mset g (dropped s) \<subseteq># dropped t)
          \<or> seen oneshot ecanceled os throws s1 t (\<lambda>u. \<exists>j. at_pc u j (Invoked fd p)))
      \<and> (\<forall>j res errno k2. m_data t fd = Some p \<and> live t p = Some (fd, f) \<and> \<not> locked fd t \<and> at_pc t j Outside
            \<and> os_del os (m_handle t) fd (kernel t) = (res, errno, k2) \<and> \<not> res <s 0 \<longrightarrow>
          (\<exists>v. epoll_reachable oneshot ecanceled os throws t v \<and> invoked v = invoked t @ [(f, - ecanceled)])))"
proof (intro conjI allI impI; (elim conjE)?)
  note keeps = reachable_keeps [OF assms(2) start_keeps]
  then have inv: "threads_inv s" by simp
  have entry: "m_data s fd = Some p" "live s p = Some (fd, f)" and quiet: "\<forall>l. \<not> concerns fd (pcs s l)"
    using assms(3) by (simp_all add: abandoned_def)
  fix t
  {
    assume "epoll_reachable oneshot ecanceled os throws s t"
    from abandoned_stays [OF this points_kernel [OF assms(1)] keeps assms(3)]
    show "abandoned (\<lambda>k. dom (ptr k)) fd p f t
      \<or> seen oneshot ecanceled os throws s t (\<lambda>u. \<exists>i q g. at_pc u i (Adding fd q g))"
      unfolding seen_def by blast
  }
  fix i g s1
  assume step: "epoll_thread_step oneshot ecanceled os throws s s1"
    and at: "at_pc s1 i (Adding fd (next_address s) g)" and t: "epoll_reachable oneshot ecanceled os throws s1 t"
  note again = added_again [OF step inv entry quiet at assms(1)]
  have inv1: "threads_inv s1" and invt: "threads_inv t"
    using step_inv [OF step inv] reachable_keeps [OF reach_trans [OF t reach_trans [OF reach_one [OF step] assms(2)]] start_keeps]
    by simp_all
  have found: "r = p" if "at_pc t j (Found fd r)" "m_data t fd = Some p" for j r
    using threads_invD(5) [OF invt, of j fd r] that by simp
  show "ptr (kernel t) fd = Some (next_address s)
      \<or> seen oneshot ecanceled os throws s1 t (\<lambda>u. \<exists>j. at_pc u j (Removing fd))"
    by (rule address_kept [OF t assms(1) inv1 again(2)])
  show "m_data t fd = Some p \<and> live t p = Some (fd, f) \<and> (\<forall>j r. at_pc t j (Found fd r) \<longrightarrow> r = p)
        \<and> (at_pc t i (Adding fd (next_address s) g)
           \<or> live t (next_address s) = None \<and> add_mset g (dropped s) \<subseteq># dropped t)
      \<or> seen oneshot ecanceled os throws s1 t (\<lambda>u. \<exists>j. at_pc u j (Invoked fd p))"
    using losing_until [OF t inv1 again(1)] found unfolding losing_def by blast
  fix j res errno k2
  assume "m_data t fd = Some p" "live t p = Some (fd, f)" "\<not> locked fd t" "at_pc t j Outside"
    "os_del os (m_handle t) fd (kernel t) = (res, errno, k2)" "\<not> res <s 0"
  then show "\<exists>v. epoll_reachable oneshot ecanceled os throws t v \<and> invoked v = invoked t @ [(f, - ecanceled)]"
    using remove_found [of t j os fd res errno k2 p f oneshot ecanceled throws] by (intro exI conjI) (assumption, simp)
qed

text \<open>An interest list with the addresses, and a race that leaves descriptor 3 abandoned in it.\<close>

definition map_os :: "(c_int \<Rightarrow> nat option) epoll_os" where
  "map_os = \<lparr>os_create = (\<lambda>k. (5, 0, k)),
     os_add = (\<lambda>h fd p ev k. if k fd \<noteq> None then (- 1, 17, k) else (0, 0, k(fd := Some p))),
     os_del = (\<lambda>h fd k. if k fd = None then (- 1, 2, k) else (0, 0, k(fd := None))),
     os_pwait = (\<lambda>h n k. (0, 0, [], k)), os_close = (\<lambda>h k. k)\<rparr>"

lemma map_os_points: "epoll_kernel_points map_os (\<lambda>k. k)"
  by (auto simp: epoll_kernel_points_def map_os_def split: if_splits)

definition racing_threads :: "(nat, c_int \<Rightarrow> nat option) epoll_threads" where
  "racing_threads = (epoll_threads_init 5 (\<lambda>_. None))\<lparr>kernel := (\<lambda>_. None)(3 := Some 0), next_address := 1,
     live := (\<lambda>_. None)(0 := Some (3, 7)), added_cbs := {#7#}, pcs := (\<lambda>_. Outside)(0 := Adding 3 0 7)\<rparr>"

definition abandoned_threads :: "(nat, c_int \<Rightarrow> nat option) epoll_threads" where
  "abandoned_threads = (epoll_threads_init 5 (\<lambda>_. None))\<lparr>next_address := 1, live := (\<lambda>_. None)(0 := Some (3, 7)),
     added_cbs := {#7#}, m_data := (\<lambda>_. None)(3 := Some 0)\<rparr>"

lemma abandoned_reachable:
  "epoll_reachable 0x40000000 125 map_os throws (epoll_threads_init 5 (\<lambda>_. None)) abandoned_threads"
proof -
  let ?s = "epoll_threads_init 5 (\<lambda>_. None) :: (nat, c_int \<Rightarrow> nat option) epoll_threads"
  have "os_add map_os (m_handle ?s) 3 (next_address ?s) (1 OR 0x40000000) (kernel ?s) = (0, 0, (\<lambda>_. None)(3 := Some 0))"
    by (simp add: epoll_threads_init_def map_os_def)
  from epoll_thread_step.add_ctl [OF _ this, of 0 "125" throws 7]
  have 1: "epoll_reachable 0x40000000 125 map_os throws ?s racing_threads"
    by (intro reach_one) (simp add: racing_threads_def epoll_threads_init_def)
  have 2: "epoll_reachable 0x40000000 125 map_os throws racing_threads (racing_threads\<lparr>kernel := (\<lambda>_. None)\<rparr>)"
    by (rule remove_nothing [of _ 1 _ 3 0 0]) (simp_all add: racing_threads_def epoll_threads_init_def map_os_def)
  have 3: "epoll_thread_step 0x40000000 125 map_os throws (racing_threads\<lparr>kernel := (\<lambda>_. None)\<rparr>) abandoned_threads"
    using epoll_thread_step.emplace [of "racing_threads\<lparr>kernel := (\<lambda>_. None)\<rparr>" 0 3 0 7]
    by (simp add: racing_threads_def abandoned_threads_def epoll_threads_init_def fun_upd_idem)
  show ?thesis
    by (rule epoll_reachable.step [OF reach_trans [OF 2 1] 3])
qed

definition readded_threads :: "(nat, c_int \<Rightarrow> nat option) epoll_threads" where
  "readded_threads = goto 0 (Adding 3 1 8) (abandoned_threads\<lparr>kernel := (\<lambda>_. None)(3 := Some 1), next_address := 2,
     live := (live abandoned_threads)(1 := Some (3, 8)), added_cbs := {#7, 8#}\<rparr>)"

theorem abandoned_entry_stays_witness:
  "\<exists>v. epoll_reachable 0x40000000 125 map_os (\<lambda>f. f = 9) readded_threads v \<and> invoked v = [(7, - 125)]"
proof -
  have ab: "abandoned (\<lambda>k. dom k) 3 0 7 abandoned_threads"
    by (simp add: abandoned_def abandoned_threads_def epoll_threads_init_def)
  have at: "at_pc abandoned_threads 0 Outside"
    and add: "os_add map_os (m_handle abandoned_threads) 3 (next_address abandoned_threads) (1 OR 0x40000000)
      (kernel abandoned_threads) = (0, 0, (\<lambda>_. None)(3 := Some 1))" and ok: "\<not> (0 :: c_int) <s 0"
    by (simp_all add: abandoned_threads_def epoll_threads_init_def map_os_def)
  have step: "epoll_thread_step 0x40000000 125 map_os (\<lambda>f. f = 9) abandoned_threads readded_threads"
    using epoll_thread_step.add_ctl [OF at add ok, of "125" "\<lambda>f. f = 9" 8]
    by (simp add: readded_threads_def) (simp add: abandoned_threads_def epoll_threads_init_def numeral_2_eq_2 add_mset_commute)
  have "at_pc readded_threads 0 (Adding 3 (next_address abandoned_threads) 8)"
    and del: "m_data readded_threads 3 = Some 0 \<and> live readded_threads 0 = Some (3, 7) \<and> \<not> locked 3 readded_threads
      \<and> at_pc readded_threads 1 Outside
      \<and> os_del map_os (m_handle readded_threads) 3 (kernel readded_threads) = (0, 0, \<lambda>_. None) \<and> \<not> (0 :: c_int) <s 0"
    by (simp_all add: readded_threads_def abandoned_threads_def epoll_threads_init_def map_os_def locked_def fun_eq_iff)
  with abandoned_entry_stays [OF map_os_points abandoned_reachable ab, where throws = "\<lambda>f. f = 9"] step
  have "epoll_reachable 0x40000000 125 map_os (\<lambda>f. f = 9) readded_threads t \<Longrightarrow>
      m_data t 3 = Some 0 \<and> live t 0 = Some (3, 7) \<and> \<not> locked 3 t \<and> at_pc t j Outside
      \<and> os_del map_os (m_handle t) 3 (kernel t) = (res, errno, k2) \<and> \<not> res <s 0 \<Longrightarrow>
      \<exists>v. epoll_reachable 0x40000000 125 map_os (\<lambda>f. f = 9) t v \<and> invoked v = invoked t @ [(7, - 125)]" for t j res errno k2
    by (elim conjE allE) blast
  from this [OF epoll_reachable.start del] show ?thesis
    by (simp add: readded_threads_def abandoned_threads_def epoll_threads_init_def)
qed

end
