(* ===== verification/Allocator_Aware.thy ===== *)
theory Allocator_Aware
  imports Prelude
begin

text \<open>
  \<open>include/tcx/allocator_aware.hpp\<close>: allocating, creating and deleting objects through a rebound
  allocator. The allocator is an argument; what it requires of its callers is written out in
  \<open>checked_allocator\<close>, which answers a call outside its contract with undefined behaviour.
\<close>

text \<open>\<open>'k\<close> is the state of the allocator. An allocation may throw.\<close>

record 'k allocator =
  allocate :: "nat \<Rightarrow> 'k \<Rightarrow> (nat \<times> 'k) cxx"
  deallocate :: "nat \<Rightarrow> nat \<Rightarrow> 'k \<Rightarrow> 'k cxx"

record ('o, 'k) allocator_world =
  objects :: "nat \<Rightarrow> 'o option"
  blocks :: 'k

text \<open>\<open>n\<close> is 1 where the caller leaves it out.\<close>

definition allocate_object ::
  "'k allocator \<Rightarrow> nat \<Rightarrow> ('o, 'k) allocator_world \<Rightarrow> (nat \<times> ('o, 'k) allocator_world) cxx" where
  "allocate_object al n w =
     cxx_bind (allocate al n (blocks w)) (\<lambda>(p, k). Inr (p, w\<lparr>blocks := k\<rparr>))"

text \<open>\<open>n\<close> is 0 where the caller leaves it out.\<close>

definition deallocate_object ::
  "'k allocator \<Rightarrow> nat \<Rightarrow> nat \<Rightarrow> ('o, 'k) allocator_world \<Rightarrow> ('o, 'k) allocator_world cxx" where
  "deallocate_object al p n w =
     cxx_bind (deallocate al p n (blocks w)) (\<lambda>k. Inr (w\<lparr>blocks := k\<rparr>))"

text \<open>
  \<open>construct\<close> is the constructor with its arguments: an object, or the exception it throws. \<open>new_object\<close>
  returns the address, or throws, in either case with the world as it is then.
\<close>

definition new_object ::
  "'k allocator \<Rightarrow> 'o cxx \<Rightarrow> ('o, 'k) allocator_world \<Rightarrow> (fault + nat) \<times> ('o, 'k) allocator_world" where
  "new_object al construct w =
     (case allocate_object al 1 w of
        Inl e \<Rightarrow> (Inl e, w)
      | Inr (ptr, w1) \<Rightarrow>
          (case construct of
             Inr x \<Rightarrow> (Inr ptr, w1\<lparr>objects := (objects w1)(ptr := Some x)\<rparr>)
           | Inl e \<Rightarrow>
               (case deallocate_object al ptr 0 w1 of Inl e' \<Rightarrow> (Inl e', w1) | Inr w2 \<Rightarrow> (Inl e, w2))))"

definition delete_object ::
  "'k allocator \<Rightarrow> nat \<Rightarrow> ('o, 'k) allocator_world \<Rightarrow> ('o, 'k) allocator_world cxx" where
  "delete_object al ptr w =
     (if objects w ptr = None then Inl Undefined
      else deallocate_object al ptr 0 (w\<lparr>objects := (objects w)(ptr := None)\<rparr>))"

section \<open>The contract of an allocator\<close>

text \<open>
  A block is given back with the number of objects it was allocated for. The state is the number of
  blocks handed out so far and the sizes of those not given back.
\<close>

definition checked_allocator :: "(nat \<times> (nat \<Rightarrow> nat option)) allocator" where
  "checked_allocator = \<lparr>
     allocate = (\<lambda>n (i, live). Inr (i, Suc i, live(i := Some n))),
     deallocate = (\<lambda>p n (i, live). if live p = Some n then Inr (i, live(p := None)) else Inl Undefined)\<rparr>"

text \<open>
  An allocator that does not look at the number, as \<open>std::allocator\<close> over an \<open>operator delete\<close> without
  a size.
\<close>

definition lax_allocator :: "(nat \<times> (nat \<Rightarrow> nat option)) allocator" where
  "lax_allocator = checked_allocator\<lparr>
     deallocate := (\<lambda>p n (i, live). if live p \<noteq> None then Inr (i, live(p := None)) else Inl Undefined)\<rparr>"

section \<open>Properties\<close>

text \<open>
  \<open>new_object\<close> allocates for one object but both ways to give the block back pass 0: with an
  allocator that holds its callers to its contract, a constructor that throws and every
  \<open>delete_object\<close> of what \<open>new_object\<close> returned run into undefined behaviour. With one that ignores the
  number the pair is balanced: a throwing constructor passes its exception on and leaves nothing
  allocated, and deletion restores the state before, apart from the count of blocks.
\<close>

lemma new_delete_object:
  "let w = \<lparr>objects = obs, blocks = (i, live)\<rparr>
   in new_object checked_allocator (Inl e) w =
        (Inl Undefined, \<lparr>objects = obs, blocks = (Suc i, live(i := Some 1))\<rparr>)
    \<and> (\<exists>w'. new_object checked_allocator (Inr x) w = (Inr i, w') \<and> delete_object checked_allocator i w' = Inl Undefined)
    \<and> new_object lax_allocator (Inl e) w = (Inl e, \<lparr>objects = obs, blocks = (Suc i, live(i := None))\<rparr>)
    \<and> (\<exists>w'. new_object lax_allocator (Inr x) w = (Inr i, w')
        \<and> objects w' i = Some x
        \<and> delete_object lax_allocator i w' = Inr \<lparr>objects = obs(i := None), blocks = (Suc i, live(i := None))\<rparr>)"
  by (simp add: Let_def new_object_def delete_object_def allocate_object_def deallocate_object_def
      checked_allocator_def lax_allocator_def)

end
