(* ===== verification/Uring_Allocation.thy ===== *)
theory Uring_Allocation
  imports Uring_Context Allocator_Aware
begin

text \<open>
  \<open>uring_context_allocating_base\<close> of \<open>include/tcx/services/uring_service.hpp\<close> over the allocator it
  really uses: \<open>submit\<close> and \<open>complete\<close> with \<open>new_object\<close> and \<open>delete_object\<close> of \<open>Allocator_Aware\<close>. An
  allocation may throw, so may the constructor of the callback, and the allocator may hold its callers
  to its contract. \<open>Uring_Context\<close> has fresh addresses and no failure instead; the refinement below
  says when that is what happens.
\<close>

section \<open>The context\<close>

record ('u, 'f, 'k) allocating_context =
  uring :: 'u
  heap :: "('f, 'k) allocator_world"
  pending_ops :: nat

text \<open>
  \<open>submit\<close>. \<open>construct\<close> is the constructor of the callback in the completion: the callback, or an
  exception. The result is what \<open>submit\<close> returns or throws, and the context.
\<close>

definition alloc_submit ::
  "'k allocator \<Rightarrow> bool \<Rightarrow> (entry \<Rightarrow> 'u \<Rightarrow> (void_result \<times> 'u) run) \<Rightarrow> sqe \<Rightarrow> 'f cxx \<Rightarrow>
   ('u, 'f, 'k) allocating_context \<Rightarrow> (nat result cxx \<times> ('u, 'f, 'k) allocating_context) run" where
  "alloc_submit al debug submit_one operation construct c =
     (case new_object al construct (heap c) of
        (Inl e, h) \<Rightarrow> Some (Inr (Inl e, c\<lparr>heap := h\<rparr>))
      | (Inr completion, h) \<Rightarrow>
          run_bind (submit_one (operation, completion) (uring c)) (\<lambda>(r, u).
            if void_has_error r
            then cxx_then (delete_object al completion h) (\<lambda>h'.
                 cxx_then (from_error debug True (void_error r)) (\<lambda>x.
                   Some (Inr (Inr x, c\<lparr>uring := u, heap := h'\<rparr>))))
            else Some (Inr (Inr (from_value completion), c\<lparr>uring := u, heap := h\<rparr>))))"

text \<open>\<open>complete\<close> and \<open>Completion::invoke\<close>, as in \<open>context_complete\<close>.\<close>

definition alloc_complete ::
  "'k allocator \<Rightarrow> c_uint \<Rightarrow>
   ('f \<Rightarrow> cqe \<Rightarrow> ('u, 'f, 'k) allocating_context \<Rightarrow> fault option \<times> 'f \<times> ('u, 'f, 'k) allocating_context) \<Rightarrow>
   cqe \<Rightarrow> ('u, 'f, 'k) allocating_context \<Rightarrow> (fault option \<times> ('u, 'f, 'k) allocating_context) cxx" where
  "alloc_complete al f_more call cqe c =
     (let completion = user_data cqe
      in case objects (heap c) completion of
           None \<Rightarrow> Inl Undefined
         | Some callback \<Rightarrow>
             (case call callback cqe c of
                (ex, callback', c') \<Rightarrow>
                  let h = (heap c')\<lparr>objects := (objects (heap c'))(completion := Some callback')\<rparr>
                  in if cqe_flags cqe AND f_more \<noteq> 0 then Inr (ex, c'\<lparr>heap := h\<rparr>)
                     else (case ex of
                         None \<Rightarrow> Inr (None, c'\<lparr>heap := h\<rparr>)
                       | Some e \<Rightarrow>
                           cxx_bind (delete_object al completion h) (\<lambda>h'. Inr (Some e, c'\<lparr>heap := h'\<rparr>)))))"

text \<open>
  Several submissions one after the other, each with the constructor of its callback; an exception of
  one of them is caught. The results, and the context after the last.
\<close>

fun alloc_submits ::
  "'k allocator \<Rightarrow> bool \<Rightarrow> (entry \<Rightarrow> 'u \<Rightarrow> (void_result \<times> 'u) run) \<Rightarrow> (sqe \<times> 'f cxx) list \<Rightarrow>
   ('u, 'f, 'k) allocating_context \<Rightarrow> (nat result cxx list \<times> ('u, 'f, 'k) allocating_context) run" where
  "alloc_submits al debug submit_one [] c = Some (Inr ([], c))"
| "alloc_submits al debug submit_one ((q, construct) # ops) c =
     run_bind (alloc_submit al debug submit_one q construct c) (\<lambda>(x, c1).
     run_bind (alloc_submits al debug submit_one ops c1) (\<lambda>(xs, c2).
     Some (Inr (x # xs, c2))))"

section \<open>Allocators that do not look at the number\<close>

text \<open>
  \<open>live\<close> are the blocks handed out and not given back. An allocation that succeeds returns one that is
  not live; a live block can be given back with any number, which is what \<open>std::allocator\<close> does over
  an \<open>operator delete\<close> without a size. The laws are about states that the allocator reaches, \<open>reached\<close>.
  The world is accounted for when every live block holds an object and every object is in a live block.
\<close>

definition blocks_accounted :: "('k \<Rightarrow> bool) \<Rightarrow> ('k \<Rightarrow> nat set) \<Rightarrow> ('o, 'k) allocator_world \<Rightarrow> bool" where
  "blocks_accounted reached live w \<longleftrightarrow> reached (blocks w) \<and> live (blocks w) = dom (objects w)"

locale forgiving_allocator =
  fixes al :: "'k allocator" and reached :: "'k \<Rightarrow> bool" and live :: "'k \<Rightarrow> nat set"
  assumes allocate_fresh: "reached k \<Longrightarrow> allocate al n k = Inr (p, k') \<Longrightarrow>
      reached k' \<and> p \<notin> live k \<and> live k' = insert p (live k)"
    and deallocate_live: "reached k \<Longrightarrow> p \<in> live k \<Longrightarrow>
      \<exists>k'. deallocate al p n k = Inr k' \<and> reached k' \<and> live k' = live k - {p}"
begin

abbreviation balanced :: "('o, 'k) allocator_world \<Rightarrow> bool" where
  "balanced \<equiv> blocks_accounted reached live"

lemmas balanced_def = blocks_accounted_def [of reached live]

lemma new_object_failed:
  assumes "balanced w" and "new_object al construct w = (Inl e, w')"
  shows "balanced w' \<and> objects w' = objects w \<and> (construct = Inl e \<or> allocate al 1 (blocks w) = Inl e)"
proof (cases "allocate al 1 (blocks w)")
  case (Inl e)
  then show ?thesis
    using assms by (simp add: new_object_def allocate_object_def)
next
  case (Inr y)
  obtain p k where y: "y = (p, k)" by (cases y)
  obtain x where x: "construct = Inl x"
    using assms(2) Inr y by (cases construct) (simp_all add: new_object_def allocate_object_def)
  have "reached k \<and> p \<notin> live (blocks w) \<and> live k = insert p (live (blocks w))"
    using assms(1) Inr y unfolding balanced_def by (intro allocate_fresh) simp_all
  moreover from this obtain k' where "deallocate al p 0 k = Inr k'" "reached k'" "live k' = live k - {p}"
    using deallocate_live [of k p 0] by auto
  ultimately show ?thesis
    using Inr y x assms by (auto simp: new_object_def allocate_object_def deallocate_object_def balanced_def)
qed

lemma new_object_done:
  assumes "balanced w" and "new_object al construct w = (Inr p, w')"
  shows "balanced w' \<and> objects w p = None \<and> (\<exists>x. construct = Inr x \<and> objects w' = (objects w)(p := Some x))"
proof -
  obtain k where k: "allocate al 1 (blocks w) = Inr (p, k)" and
      x: "\<exists>x. construct = Inr x \<and> w' = w\<lparr>blocks := k, objects := (objects w)(p := Some x)\<rparr>"
    using assms(2) by (auto simp: new_object_def allocate_object_def cxx_bind_def split: sum.splits)
  have "reached k \<and> p \<notin> live (blocks w) \<and> live k = insert p (live (blocks w))"
    using assms(1) k unfolding balanced_def by (intro allocate_fresh) simp_all
  then show ?thesis
    using x assms(1) unfolding balanced_def by auto
qed

lemma delete_object_balanced:
  assumes "balanced w" and "objects w p \<noteq> None"
  shows "\<exists>w'. delete_object al p w = Inr w' \<and> balanced w' \<and> objects w' = (objects w)(p := None)"
proof -
  have "p \<in> live (blocks w)"
    using assms by (auto simp: balanced_def)
  then obtain k where "deallocate al p 0 (blocks w) = Inr k" "reached k" "live k = live (blocks w) - {p}"
    using deallocate_live [of "blocks w" p 0] assms(1) unfolding balanced_def by blast
  with assms show ?thesis
    by (auto simp: delete_object_def deallocate_object_def balanced_def)
qed

end

text \<open>The context of \<open>Uring_Context\<close> whose next completion has the address \<open>p\<close>.\<close>

definition as_context :: "nat \<Rightarrow> ('u, 'f, 'k) allocating_context \<Rightarrow> ('u, 'f) uring_context" where
  "as_context p c = \<lparr>ring = uring c, completions = objects (heap c), next_completion = p, m_pending = pending_ops c\<rparr>"

lemma as_context_sel [simp]:
  "ring (as_context p c) = uring c" "completions (as_context p c) = objects (heap c)"
  "next_completion (as_context p c) = p" "m_pending (as_context p c) = pending_ops c"
  by (simp_all add: as_context_def)

text \<open>A run that ends like another one, with contexts that correspond.\<close>

definition ends_like ::
  "(nat result \<times> ('u, 'f) uring_context) run \<Rightarrow> (('f, 'k) allocator_world \<Rightarrow> bool) \<Rightarrow>
   (nat result cxx \<times> ('u, 'f, 'k) allocating_context) run \<Rightarrow> bool" where
  "ends_like spec ok impl \<longleftrightarrow>
     (case spec of
        None \<Rightarrow> impl = None
      | Some (Inl e) \<Rightarrow> impl = Some (Inl e)
      | Some (Inr (x, d)) \<Rightarrow>
          (\<exists>c'. impl = Some (Inr (Inr x, c')) \<and> d = as_context (next_completion d) c' \<and> ok (heap c')))"

context forgiving_allocator
begin

lemma alloc_submit_refines:
  assumes "balanced (heap c)" and "new_object al (Inr f) (heap c) = (Inr p, h)"
  shows "ends_like (context_submit debug submit_one q f (as_context p c)) balanced
    (alloc_submit al debug submit_one q (Inr f) c)"
proof (cases "submit_one (q, p) (uring c)")
  case None
  then show ?thesis
    by (simp add: ends_like_def context_submit_def alloc_submit_def assms(2) Let_def)
next
  case (Some y)
  have h: "balanced h" "objects h = (objects (heap c))(p := Some f)"
    using new_object_done [OF assms] by auto
  obtain h' where h': "delete_object al p h = Inr h'" "balanced h'" "objects h' = (objects h)(p := None)"
    using delete_object_balanced [OF h(1), of p] h(2) by auto
  show ?thesis
  proof (cases y)
    case (Inl e)
    with Some show ?thesis
      by (simp add: ends_like_def context_submit_def alloc_submit_def assms(2) Let_def)
  next
    case (Inr ru)
    then obtain r u where ru: "y = Inr (r, u)" by (cases ru) simp
    show ?thesis
    proof (cases "r = 0")
      case True
      with Some ru h h' show ?thesis
        by (auto simp: ends_like_def context_submit_def alloc_submit_def assms(2) Let_def void_defs from_error_def as_context_def)
    next
      case False
      with Some ru h show ?thesis
        by (auto simp: ends_like_def context_submit_def alloc_submit_def assms(2) Let_def void_defs as_context_def)
    qed
  qed
qed

text \<open>An exception out of \<open>submit\<close> has not reached the ring, and nothing is left of the completion.\<close>

lemma alloc_submit_throws:
  assumes "balanced (heap c)" and "new_object al construct (heap c) = (Inl e, h)"
  shows "alloc_submit al debug submit_one q construct c = Some (Inr (Inl e, c\<lparr>heap := h\<rparr>))
    \<and> (construct = Inl e \<or> allocate al 1 (blocks (heap c)) = Inl e)
    \<and> objects h = objects (heap c) \<and> live (blocks h) = live (blocks (heap c))"
  using new_object_failed [OF assms] assms unfolding balanced_def by (simp add: alloc_submit_def)

text \<open>
  An accepted operation leaves no completion; a refused one leaves its completion at its address.
\<close>

lemma alloc_submit_accepted:
  assumes "balanced (heap c)" and "new_object al (Inr f) (heap c) = (Inr p, h)"
    and "submit_one (q, p) (uring c) = Some (Inr (0, u))"
  shows "\<exists>h'. alloc_submit al debug submit_one q (Inr f) c =
      Some (Inr (Inr \<lparr>res_first = 0, res_second = None\<rparr>, c\<lparr>uring := u, heap := h'\<rparr>))
    \<and> balanced h' \<and> objects h' = objects (heap c)"
proof -
  have h: "balanced h" "objects (heap c) p = None" "objects h = (objects (heap c))(p := Some f)"
    using new_object_done [OF assms(1,2)] by auto
  obtain h' where "delete_object al p h = Inr h'" "balanced h'" "objects h' = (objects h)(p := None)"
    using delete_object_balanced [OF h(1), of p] h(3) by auto
  then show ?thesis
    using h assms(2,3) by (intro exI [of _ h']) (simp add: alloc_submit_def void_defs from_error_def fun_upd_idem)
qed

lemma alloc_submit_refused:
  assumes "balanced (heap c)" and "new_object al (Inr f) (heap c) = (Inr p, h)"
    and "submit_one (q, p) (uring c) = Some (Inr (r, u))" and "r \<noteq> 0"
  shows "alloc_submit al debug submit_one q (Inr f) c = Some (Inr (Inr (from_value p), c\<lparr>uring := u, heap := h\<rparr>))
    \<and> balanced h \<and> objects h p = Some f"
  using new_object_done [OF assms(1,2)] assms(2-4) by (auto simp: alloc_submit_def void_defs)

text \<open>
  What one submission does to the completions: none is left, unless the ring refuses the operation,
  which \<open>submit\<close> reports as a success.
\<close>

lemma alloc_submit_objects:
  assumes "balanced (heap c)" and "alloc_submit al debug submit_one q construct c = Some (Inr (x, c'))"
  shows "balanced (heap c') \<and>
    (objects (heap c') = objects (heap c) \<and> (\<forall>p. x \<noteq> Inr (from_value p))
     \<or> (\<exists>p g r u. x = Inr (from_value p) \<and> construct = Inr g \<and> objects (heap c) p = None
          \<and> objects (heap c') = (objects (heap c))(p := Some g)
          \<and> submit_one (q, p) (uring c) = Some (Inr (r, u)) \<and> r \<noteq> 0))"
proof -
  obtain y h where new: "new_object al construct (heap c) = (y, h)"
    by (cases "new_object al construct (heap c)")
  show ?thesis
  proof (cases y)
    case (Inl e)
    then show ?thesis
      using new new_object_failed [OF assms(1), of construct e h] assms(2) by (auto simp: alloc_submit_def)
  next
    case (Inr p)
    from new_object_done [OF assms(1) new [unfolded Inr]] obtain g where
      g: "construct = Inr g" "balanced h" "objects (heap c) p = None" "objects h = (objects (heap c))(p := Some g)"
      by (elim exE conjE)
    obtain r u where ru: "submit_one (q, p) (uring c) = Some (Inr (r, u))"
      using assms(2) new Inr
      by (cases "submit_one (q, p) (uring c)"; cases "the (submit_one (q, p) (uring c))") (auto simp: alloc_submit_def)
    show ?thesis
    proof (cases "r = 0")
      case True
      from alloc_submit_accepted [OF assms(1) new [unfolded Inr g(1)], of submit_one q u debug] ru True show ?thesis
        using assms(2) g(1) by (auto simp: from_value_def)
    next
      case False
      from alloc_submit_refused [OF assms(1) new [unfolded Inr g(1)], of submit_one q r u debug] ru False show ?thesis
        using assms(2) g ru False by auto
    qed
  qed
qed

text \<open>
  A completion stays where it is, and no later submission returns its address; where none is, there is
  one afterwards exactly if a later submission was refused at that address, and it is that one's.
\<close>

lemma alloc_submits_ConsD:
  assumes "alloc_submits al debug submit_one ((q, construct) # ops) c = Some (Inr (ys, c'))"
  shows "\<exists>x c1 xs. alloc_submit al debug submit_one q construct c = Some (Inr (x, c1))
    \<and> alloc_submits al debug submit_one ops c1 = Some (Inr (xs, c')) \<and> ys = x # xs"
  using assms by (auto simp: run_bind_def cxx_then_def split: option.splits sum.splits)

lemma alloc_submits_occupied:
  assumes "alloc_submits al debug submit_one ops c = Some (Inr (ys, c'))" and "balanced (heap c)"
    and "objects (heap c) p = Some g"
  shows "objects (heap c') p = Some g \<and> Inr (from_value p) \<notin> set ys"
  using assms
proof (induction ops arbitrary: c ys)
  case (Cons op ops)
  obtain q construct where op: "op = (q, construct)" by (cases op)
  from alloc_submits_ConsD [OF Cons.prems(1) [unfolded op]] obtain x c1 xs where
    x: "alloc_submit al debug submit_one q construct c = Some (Inr (x, c1))"
      "alloc_submits al debug submit_one ops c1 = Some (Inr (xs, c'))" "ys = x # xs"
    by (elim exE conjE)
  from alloc_submit_objects [OF Cons.prems(2) x(1)] Cons.prems(3)
  have "balanced (heap c1)" "objects (heap c1) p = Some g" "x \<noteq> Inr (from_value p)"
    by (auto simp: from_value_def split: if_splits)
  then show ?case
    using Cons.IH [OF x(2)] x(3) by simp
qed simp

lemma alloc_submits_free:
  assumes "alloc_submits al debug submit_one ops c = Some (Inr (ys, c'))" and "balanced (heap c)"
    and "objects (heap c) p = None"
  shows "if Inr (from_value p) \<in> set ys
    then \<exists>ops1 q g ops2 ys1 ys2 v r v'. ops = ops1 @ (q, Inr g) # ops2 \<and> ys = ys1 @ Inr (from_value p) # ys2
      \<and> length ys1 = length ops1 \<and> Inr (from_value p) \<notin> set ys1 \<union> set ys2
      \<and> submit_one (q, p) v = Some (Inr (r, v')) \<and> r \<noteq> 0 \<and> objects (heap c') p = Some g
    else objects (heap c') p = None"
  using assms
proof (induction ops arbitrary: c ys)
  case (Cons op ops)
  obtain q construct where op: "op = (q, construct)" by (cases op)
  from alloc_submits_ConsD [OF Cons.prems(1) [unfolded op]] obtain x c1 xs where
    x: "alloc_submit al debug submit_one q construct c = Some (Inr (x, c1))"
      "alloc_submits al debug submit_one ops c1 = Some (Inr (xs, c'))" "ys = x # xs"
    by (elim exE conjE)
  note first = alloc_submit_objects [OF Cons.prems(2) x(1)]
  show ?case
  proof (cases "x = Inr (from_value p)")
    case True
    with first obtain g r v' where
      g: "construct = Inr g" "objects (heap c1) p = Some g" "submit_one (q, p) (uring c) = Some (Inr (r, v'))" "r \<noteq> 0"
      by (auto simp: from_value_def)
    have later: "objects (heap c') p = Some g" "Inr (from_value p) \<notin> set xs"
      using alloc_submits_occupied [OF x(2) conjunct1 [OF first] g(2)] by simp_all
    have "\<exists>ops1 q' g' ops2 ys1 ys2 v r v'. op # ops = ops1 @ (q', Inr g') # ops2 \<and> ys = ys1 @ Inr (from_value p) # ys2
      \<and> length ys1 = length ops1 \<and> Inr (from_value p) \<notin> set ys1 \<union> set ys2
      \<and> submit_one (q', p) v = Some (Inr (r, v')) \<and> r \<noteq> 0 \<and> objects (heap c') p = Some g'"
      by (rule exI [of _ "[]"], rule exI [of _ q], rule exI [of _ g], rule exI [of _ ops], rule exI [of _ "[]"],
          rule exI [of _ xs], rule exI [of _ "uring c"], rule exI [of _ r], rule exI [of _ v'])
        (use op g later x(3) True in simp)
    then show ?thesis
      using x(3) True by simp
  next
    case False
    with False first Cons.prems(3) have "objects (heap c1) p = None"
      by (auto simp: from_value_def split: if_splits)
    from Cons.IH [OF x(2) conjunct1 [OF first] this] show ?thesis
    proof (cases "Inr (from_value p) \<in> set xs")
      case True
      with Cons.IH [OF x(2) conjunct1 [OF first] \<open>objects (heap c1) p = None\<close>]
      obtain ops1 q' g' ops2 ys1 ys2 v r v' where
        "ops = ops1 @ (q', Inr g') # ops2" "xs = ys1 @ Inr (from_value p) # ys2" "length ys1 = length ops1"
        "Inr (from_value p) \<notin> set ys1 \<union> set ys2" "submit_one (q', p) v = Some (Inr (r, v'))" "r \<noteq> 0"
        "objects (heap c') p = Some g'"
        by (simp only: if_True) (elim exE conjE)
      then have later: "op # ops = (op # ops1) @ (q', Inr g') # ops2 \<and> ys = (x # ys1) @ Inr (from_value p) # ys2
          \<and> length (x # ys1) = length (op # ops1) \<and> Inr (from_value p) \<notin> set (x # ys1) \<union> set ys2
          \<and> submit_one (q', p) v = Some (Inr (r, v')) \<and> r \<noteq> 0 \<and> objects (heap c') p = Some g'"
        using x(3) False by simp
      have "Inr (from_value p) \<in> set ys"
        using True x(3) by simp
      then show ?thesis
        unfolding if_P [OF \<open>Inr (from_value p) \<in> set ys\<close>] by (intro exI) (rule later)
    qed (use False x(3) in simp)
  qed
qed simp

text \<open>
  Completing corresponds too, for callbacks that act alike on both contexts and leave the completion
  that is being invoked in place.
\<close>

lemma alloc_complete_refines:
  assumes "balanced (heap c)"
    and "\<And>f. objects (heap c) (user_data cqe) = Some f \<Longrightarrow>
      \<exists>ex f' c1 p1. call f cqe c = (ex, f', c1) \<and> call' f cqe (as_context p c) = (ex, f', as_context p1 c1)
        \<and> balanced (heap c1) \<and> objects (heap c1) (user_data cqe) \<noteq> None"
  shows "case context_complete f_more call' cqe (as_context p c) of
      Inl e \<Rightarrow> alloc_complete al f_more call cqe c = Inl e
    | Inr (ex, d) \<Rightarrow> \<exists>c'. alloc_complete al f_more call cqe c = Inr (ex, c')
        \<and> d = as_context (next_completion d) c' \<and> balanced (heap c')"
proof (cases "objects (heap c) (user_data cqe)")
  case None
  then show ?thesis by (simp add: context_complete_def alloc_complete_def Let_def)
next
  case (Some f)
  then obtain ex f' c1 p1 where c1: "call f cqe c = (ex, f', c1)"
      "call' f cqe (as_context p c) = (ex, f', as_context p1 c1)"
      "balanced (heap c1)" "objects (heap c1) (user_data cqe) \<noteq> None"
    using assms(2) by blast
  let ?h = "(heap c1)\<lparr>objects := (objects (heap c1))(user_data cqe := Some f')\<rparr>"
  have h: "balanced ?h"
    using c1(3,4) by (auto simp: balanced_def)
  obtain h' where "delete_object al (user_data cqe) ?h = Inr h'" "balanced h'"
      "objects h' = (objects ?h)(user_data cqe := None)"
    using delete_object_balanced [OF h, of "user_data cqe"] by auto
  with Some c1 h show ?thesis
    by (auto simp: context_complete_def alloc_complete_def Let_def as_context_def split: option.split)
qed

end

text \<open>The allocators of \<open>Allocator_Aware\<close> and one that hands out the lowest free address again.\<close>

interpretation lax: forgiving_allocator lax_allocator "\<lambda>(i, m). \<forall>p \<ge> i. m p = None" "\<lambda>(i, m). dom m"
  by unfold_locales (auto simp: lax_allocator_def checked_allocator_def split: prod.splits)

definition first_fit :: "nat list allocator" where
  "first_fit = \<lparr>
     allocate = (\<lambda>n ps. case find (\<lambda>p. p \<notin> set ps) [0..<Suc (length ps)] of
        Some p \<Rightarrow> Inr (p, p # ps) | None \<Rightarrow> Inl Undefined),
     deallocate = (\<lambda>p n ps. if p \<in> set ps then Inr (removeAll p ps) else Inl Undefined)\<rparr>"

interpretation first_fit: forgiving_allocator first_fit "\<lambda>_. True" set
  by unfold_locales (auto simp: first_fit_def find_Some_iff split: option.splits if_splits)

section \<open>Properties\<close>

text \<open>
  C10: \<open>submit\<close> over any allocator that does not look at the number of objects when a block is given
  back. Either creating the completion fails, by an exception of the allocation or of the callback's
  constructor: then \<open>submit\<close> throws that exception, the ring has not been touched, and the block is not
  left allocated. Or it succeeds at an address where no completion is: then \<open>submit\<close> is the
  \<open>context_submit\<close> of \<open>Uring_Context\<close> at that address, with the same result and the same ring and
  completions, and afterwards the allocated blocks are exactly those of the completions that exist.
\<close>

theorem submit_over_allocator:
  assumes "forgiving_allocator al reached live" and "blocks_accounted reached live (heap c)"
  shows "case new_object al construct (heap c) of
      (Inl e, h) \<Rightarrow> alloc_submit al debug submit_one q construct c = Some (Inr (Inl e, c\<lparr>heap := h\<rparr>))
        \<and> (construct = Inl e \<or> allocate al 1 (blocks (heap c)) = Inl e)
        \<and> objects h = objects (heap c) \<and> live (blocks h) = live (blocks (heap c))
    | (Inr p, h) \<Rightarrow> objects (heap c) p = None \<and> (\<exists>f. construct = Inr f
        \<and> ends_like (context_submit debug submit_one q f (as_context p c)) (blocks_accounted reached live)
            (alloc_submit al debug submit_one q construct c))"
proof -
  obtain r h where rh: "new_object al construct (heap c) = (r, h)"
    by (cases "new_object al construct (heap c)")
  show ?thesis
  proof (cases r)
    case (Inl e)
    with rh forgiving_allocator.alloc_submit_throws [OF assms, of construct e h] show ?thesis
      by simp
  next
    case (Inr p)
    with rh obtain f where "construct = Inr f" "objects (heap c) p = None"
      using forgiving_allocator.new_object_done [OF assms, of construct p h] by auto
    with rh Inr forgiving_allocator.alloc_submit_refines [OF assms, of f p h] show ?thesis
      by auto
  qed
qed

text \<open>A context with the small ring of \<open>Uring_Context\<close> and nothing allocated.\<close>

definition small_allocating :: "nat \<Rightarrow> 'k \<Rightarrow> (small_ring, nat, 'k) allocating_context" where
  "small_allocating n k =
     \<lparr>uring = \<lparr>cap = n, queue = [], finished = []\<rparr>, heap = \<lparr>objects = (\<lambda>_. None), blocks = k\<rparr>, pending_ops = 0\<rparr>"

lemma first_fit_Nil: "new_object first_fit (Inr f) \<lparr>objects = obs, blocks = []\<rparr> =
    (Inr 0, \<lparr>objects = obs(0 := Some f), blocks = [0]\<rparr>)"
  by (simp add: new_object_def allocate_object_def first_fit_def)

lemma first_fit_delete: "delete_object first_fit 0 \<lparr>objects = obs(0 := Some f), blocks = [0]\<rparr> =
    Inr \<lparr>objects = obs(0 := None), blocks = []\<rparr>"
  by (simp add: delete_object_def deallocate_object_def first_fit_def)

lemma small_accounted: "blocks_accounted (\<lambda>_. True) set (heap (small_allocating n []))"
  by (simp add: blocks_accounted_def small_allocating_def)

theorem submit_over_allocator_witness:
  "alloc_submit first_fit True (unsync_submit_one small_lu) (Prep_close 3) (Inl (Callback_exception 7)) (small_allocating 4 [])
     = Some (Inr (Inl (Callback_exception 7), small_allocating 4 []))"
proof -
  have new: "new_object first_fit (Inl (Callback_exception 7)) (heap (small_allocating 4 [])) =
      (Inl (Callback_exception 7), heap (small_allocating 4 []))"
    by (simp add: new_object_def allocate_object_def deallocate_object_def first_fit_def small_allocating_def)
  show ?thesis
    using submit_over_allocator [OF first_fit.forgiving_allocator_axioms small_accounted [of 4],
        where construct = "Inl (Callback_exception 7)" and debug = True and submit_one = "unsync_submit_one small_lu"
          and q = "Prep_close 3"]
    unfolding new by simp
qed

text \<open>
  With an allocator that holds its callers to its contract, no accepted operation survives
  \<open>submit\<close>: the completion was allocated for one object and \<open>delete_object\<close> gives it back for none. So
  whenever the ring takes the entry, \<open>submit\<close> is undefined behaviour; when the ring reports an error it
  returns normally and keeps the completion.
\<close>

lemma submit_breaks_the_contract:
  assumes "submit_one (q, fst (blocks (heap c))) (uring c) = Some (Inr (r, u))"
  shows "alloc_submit checked_allocator debug submit_one q (Inr f) c =
    (if r = 0 then Some (Inl Undefined)
     else Some (Inr (Inr (from_value (fst (blocks (heap c)))),
       c\<lparr>uring := u, heap := \<lparr>objects = (objects (heap c))(fst (blocks (heap c)) := Some f),
         blocks = (Suc (fst (blocks (heap c))), (snd (blocks (heap c)))(fst (blocks (heap c)) := Some 1))\<rparr>\<rparr>)))"
proof -
  obtain i m where "blocks (heap c) = (i, m)" by (cases "blocks (heap c)")
  then show ?thesis
    using assms by (simp add: alloc_submit_def new_object_def allocate_object_def delete_object_def
      deallocate_object_def checked_allocator_def void_defs)
qed

lemma submit_breaks_the_contract_witness:
  "alloc_submit checked_allocator False (unsync_submit_one small_lu) (Prep_close 3) (Inr 5)
     (small_allocating 4 (0, \<lambda>_. None)) = Some (Inl Undefined)"
  using submit_breaks_the_contract [of "unsync_submit_one small_lu" "Prep_close 3" "small_allocating 4 (0, \<lambda>_. None)" 0
      "\<lparr>cap = 4, queue = [(Prep_close 3, 0)], finished = []\<rparr>" False 5]
  by (simp add: small_allocating_def small_submit_one)

text \<open>
  C11: What completing an accepted operation does, over any allocator that may reuse addresses. \<open>submit\<close>
  has freed its completion while the kernel keeps the address \<open>p\<close>. After any further submissions, in
  which the ring accepts or refuses and allocations and constructors may throw, completing it is
  undefined, unless one of them was refused by the ring at the same address: \<open>submit\<close> returns \<open>p\<close> as
  that operation's handle, exactly once, and keeps its completion. Then completing the first operation
  calls the callback of that refused one, with the entry of the first. Its own callback is never
  called.
\<close>

theorem completion_calls_another:
  assumes "forgiving_allocator al reached live" and "blocks_accounted reached live (heap c)"
    and "new_object al (Inr f) (heap c) = (Inr p, h)" and "submit_one (q, p) (uring c) = Some (Inr (0, u))"
    and "alloc_submit al debug submit_one q (Inr f) c = Some (Inr (x, c1))"
    and "alloc_submits al debug submit_one ops c1 = Some (Inr (ys, c2))" and "user_data cqe = p"
  shows "x = Inr \<lparr>res_first = 0, res_second = None\<rparr> \<and>
    (if Inr (from_value p) \<in> set ys
     then \<exists>ops1 q' g ops2 ys1 ys2 v r v'. ops = ops1 @ (q', Inr g) # ops2 \<and> ys = ys1 @ Inr (from_value p) # ys2
       \<and> length ys1 = length ops1 \<and> Inr (from_value p) \<notin> set ys1 \<union> set ys2
       \<and> submit_one (q', p) v = Some (Inr (r, v')) \<and> r \<noteq> 0
       \<and> (\<forall>call g' c3. call g cqe c2 = (None, g', c3) \<longrightarrow>
           alloc_complete al f_more call cqe c2 =
             Inr (None, c3\<lparr>heap := (heap c3)\<lparr>objects := (objects (heap c3))(p := Some g')\<rparr>\<rparr>))
     else alloc_complete al f_more call cqe c2 = Inl Undefined)"
proof -
  note F = assms(1)
  have c1: "x = Inr \<lparr>res_first = 0, res_second = None\<rparr>" "blocks_accounted reached live (heap c1)"
      "objects (heap c1) p = None"
    using forgiving_allocator.alloc_submit_accepted [OF F assms(2,3), of submit_one q u debug] assms(4,5)
      forgiving_allocator.new_object_done [OF F assms(2,3)] by auto
  note after = forgiving_allocator.alloc_submits_free [OF F assms(6) c1(2,3)]
  show ?thesis
  proof (cases "Inr (from_value p) \<in> set ys")
    case True
    with after obtain ops1 q' g ops2 ys1 ys2 v r v' where
      *: "ops = ops1 @ (q', Inr g) # ops2" "ys = ys1 @ Inr (from_value p) # ys2" "length ys1 = length ops1"
        "Inr (from_value p) \<notin> set ys1 \<union> set ys2" "submit_one (q', p) v = Some (Inr (r, v'))" "r \<noteq> 0"
        "objects (heap c2) p = Some g"
      by (simp only: if_True) (elim exE conjE)
    have "alloc_complete al f_more call cqe c2 =
        Inr (None, c3\<lparr>heap := (heap c3)\<lparr>objects := (objects (heap c3))(p := Some g')\<rparr>\<rparr>)"
      if "call g cqe c2 = (None, g', c3)" for call g' c3
      using that *(7) assms(7) by (simp add: alloc_complete_def Let_def)
    with * have refused: "ops = ops1 @ (q', Inr g) # ops2 \<and> ys = ys1 @ Inr (from_value p) # ys2
       \<and> length ys1 = length ops1 \<and> Inr (from_value p) \<notin> set ys1 \<union> set ys2
       \<and> submit_one (q', p) v = Some (Inr (r, v')) \<and> r \<noteq> 0
       \<and> (\<forall>call g' c3. call g cqe c2 = (None, g', c3) \<longrightarrow>
           alloc_complete al f_more call cqe c2 =
             Inr (None, c3\<lparr>heap := (heap c3)\<lparr>objects := (objects (heap c3))(p := Some g')\<rparr>\<rparr>))"
      by simp
    show ?thesis
      unfolding if_P [OF True] by (rule conjI [OF c1(1)], (rule exI)+, rule refused)
  next
    case False
    with after c1(1) assms(7) show ?thesis
      by (simp add: alloc_complete_def Let_def)
  qed
qed

text \<open>A ring of one slot whose kernel is busy: the second operation is refused, at the same address.\<close>

lemma busy_submit_one:
  "unsync_submit_one busy_lu (q, p) \<lparr>cap = Suc 0, queue = [], finished = []\<rparr> =
     Some (Inr (0, \<lparr>cap = Suc 0, queue = [(q, p)], finished = []\<rparr>))"
  "unsync_submit_one busy_lu (q', p) \<lparr>cap = Suc 0, queue = [e], finished = []\<rparr> =
     Some (Inr (11, \<lparr>cap = Suc 0, queue = [e], finished = []\<rparr>))"
  by (subst unsync_submit_one.simps, simp add: busy_lu_def small_lu_def void_defs EINTR_def EBADR_def)+

definition confused_context :: "(small_ring, nat, nat list) allocating_context" where
  "confused_context = \<lparr>uring = \<lparr>cap = 1, queue = [(Prep_close 3, 0)], finished = []\<rparr>,
     heap = \<lparr>objects = (\<lambda>_. None)(0 := Some 43), blocks = [0]\<rparr>, pending_ops = 0\<rparr>"

theorem completion_calls_another_witness:
  "alloc_complete first_fit 2 (\<lambda>f cqe c. (None, f + 1, c)) \<lparr>user_data = 0, cqe_res = 0, cqe_flags = 0\<rparr> confused_context
     = Inr (None, confused_context\<lparr>heap := \<lparr>objects = (\<lambda>_. None)(0 := Some 44), blocks = [0]\<rparr>\<rparr>)"
proof -
  let ?c1 = "\<lparr>uring = \<lparr>cap = 1, queue = [(Prep_close 3, 0)], finished = []\<rparr>,
    heap = \<lparr>objects = (\<lambda>_. None), blocks = []\<rparr>, pending_ops = 0\<rparr>"
  have first: "alloc_submit first_fit True (unsync_submit_one busy_lu) (Prep_close 3) (Inr 42) (small_allocating 1 []) =
      Some (Inr (Inr \<lparr>res_first = 0, res_second = None\<rparr>, ?c1))"
    by (simp add: alloc_submit_def small_allocating_def first_fit_Nil busy_submit_one void_defs from_error_def
        first_fit_delete)
  have second: "alloc_submit first_fit True (unsync_submit_one busy_lu) Prep_nop (Inr 43) ?c1 =
      Some (Inr (Inr (from_value 0), confused_context))"
    by (simp add: alloc_submit_def first_fit_Nil busy_submit_one void_defs confused_context_def)
  have "alloc_submits first_fit True (unsync_submit_one busy_lu) [(Prep_nop, Inr 43)] ?c1 =
      Some (Inr ([Inr (from_value 0)], confused_context))"
    using second by simp
  note later = this
  have new: "new_object first_fit (Inr 42) (heap (small_allocating 1 [])) = (Inr 0, \<lparr>objects = (\<lambda>_. None)(0 := Some 42), blocks = [0]\<rparr>)"
    by (simp add: small_allocating_def first_fit_Nil)
  have sub: "unsync_submit_one busy_lu (Prep_close 3, 0) (uring (small_allocating 1 [])) = Some (Inr (0, uring confused_context))"
    by (simp add: small_allocating_def busy_submit_one confused_context_def)
  let ?cqe = "\<lparr>user_data = 0, cqe_res = 0, cqe_flags = 0\<rparr>"
  have user: "user_data ?cqe = 0"
    by simp
  have returned: "Inr (from_value 0) \<in> set [Inr (from_value 0) :: nat result cxx]"
    by simp
  obtain ops1 q' g ops2 where ops: "[(Prep_nop, Inr 43) :: sqe \<times> nat cxx] = ops1 @ (q', Inr g) # ops2"
    and calls: "\<forall>call g' c3. call g ?cqe confused_context = (None, g', c3) \<longrightarrow>
           alloc_complete first_fit 2 call ?cqe confused_context =
             Inr (None, c3\<lparr>heap := (heap c3)\<lparr>objects := (objects (heap c3))(0 := Some g')\<rparr>\<rparr>)"
    using completion_calls_another [OF first_fit.forgiving_allocator_axioms small_accounted new sub first later user,
        of 2, THEN conjunct2, unfolded if_P [OF returned]]
    by (elim exE conjE) (rule that)
  have "g = 43"
    using ops by (auto simp: Cons_eq_append_conv)
  then show ?thesis
    using calls [rule_format, of "\<lambda>f cqe c. (None, f + 1, c)" 44 confused_context]
    by (simp add: confused_context_def)
qed

end
