(* ===== verification/Function_View.thy ===== *)
theory Function_View
  imports Prelude
begin

text \<open>
  \<open>include/tcx/function_view.hpp\<close>: a non-owning reference to a callable object. A view is a pair of an
  object pointer and a function pointer; the objects live in a store of their own, where they can die
  while a view still refers to them. First \<open>function_view<R(Args...)>\<close>, then
  \<open>function_view<R(Args...) const>\<close>, which holds a \<open>void const *\<close> and whose constructor also takes
  temporaries.

  The constructor for a callable has a branch for what converts to a function pointer, under
  \<open>if constexpr (... && !std::is_constant_evaluated())\<close>. The condition of an \<open>if constexpr\<close> is always
  constant-evaluated, so that branch is discarded in every instance and has no model: the view refers
  to the object.
\<close>

section \<open>Views\<close>

text \<open>
  The store maps an address to what lives there; an object has a state \<open>'o\<close>. The static type \<open>F\<close> of
  a callable is its call operator.
\<close>

type_synonym 'o store = "nat \<Rightarrow> 'o option"

type_synonym ('o, 'a, 'r) call_operator = "'o \<Rightarrow> 'a \<Rightarrow> 'r cxx"

record ('o, 'a, 'r) function_view =
  m_data :: "nat option"
  m_func :: "(nat option \<Rightarrow> 'o store \<Rightarrow> 'a \<Rightarrow> 'r cxx) option"

definition view_default :: "('o, 'a, 'r) function_view" where
  "view_default = \<lparr>m_data = None, m_func = None\<rparr>"

text \<open>The lambda that the constructor instantiates for the type \<open>F\<close>: it reads the data as an \<open>F\<close>.\<close>

definition trampoline ::
  "('o, 'a, 'r) call_operator \<Rightarrow> nat option \<Rightarrow> 'o store \<Rightarrow> 'a \<Rightarrow> 'r cxx" where
  "trampoline F data st args =
     (case data of
        None \<Rightarrow> Inl Undefined
      | Some p \<Rightarrow> (case st p of None \<Rightarrow> Inl Undefined | Some f \<Rightarrow> F f args))"

definition view_of :: "('o, 'a, 'r) call_operator \<Rightarrow> nat \<Rightarrow> ('o, 'a, 'r) function_view" where
  "view_of F f = \<lparr>m_data = Some f, m_func = Some (trampoline F)\<rparr>"

text \<open>The move constructor: the new view and the one it is moved from.\<close>

definition view_move ::
  "('o, 'a, 'r) function_view \<Rightarrow> ('o, 'a, 'r) function_view \<times> ('o, 'a, 'r) function_view" where
  "view_move other =
     (\<lparr>m_data = m_data other, m_func = m_func other\<rparr>, other\<lparr>m_data := None, m_func := None\<rparr>)"

definition view_swap ::
  "('o, 'a, 'r) function_view \<Rightarrow> ('o, 'a, 'r) function_view \<Rightarrow>
   ('o, 'a, 'r) function_view \<times> ('o, 'a, 'r) function_view" where
  "view_swap self other =
     (self\<lparr>m_data := m_data other, m_func := m_func other\<rparr>,
      other\<lparr>m_data := m_data self, m_func := m_func self\<rparr>)"

definition view_move_assign ::
  "('o, 'a, 'r) function_view \<Rightarrow> ('o, 'a, 'r) function_view \<Rightarrow>
   ('o, 'a, 'r) function_view \<times> ('o, 'a, 'r) function_view" where
  "view_move_assign self other = view_swap self other"

definition view_call :: "('o, 'a, 'r) function_view \<Rightarrow> 'o store \<Rightarrow> 'a \<Rightarrow> 'r cxx" where
  "view_call v st args =
     (case m_func v of None \<Rightarrow> Inl Bad_function_call | Some g \<Rightarrow> g (m_data v) st args)"

definition view_bool :: "('o, 'a, 'r) function_view \<Rightarrow> bool" where
  "view_bool v = (m_func v \<noteq> None)"

section \<open>Programs over views\<close>

text \<open>
  A pool of views by number. \<open>oper p\<close> is the call operator of the type of the object declared at
  address \<open>p\<close>. Assigning or swapping a view with itself goes through the same code. \<open>View_copy\<close> is copy
  assignment, or copy construction from a \<open>const\<close> view: for a view that is not \<open>const\<close> the constructor for
  callables is the better match, and as its body calls the view as \<open>const\<close>, that does not compile. (The
  views of the second half have a \<open>const\<close> call operator, and their copy constructor is chosen.)
\<close>

datatype view_op =
    View_null nat
  | View_object nat nat
  | View_copy nat nat
  | View_move nat nat
  | View_assign_move nat nat
  | View_swap nat nat

text \<open>Writing back two results, the one of the view that is read first.\<close>

definition both :: "nat \<Rightarrow> nat \<Rightarrow> 'v \<times> 'v \<Rightarrow> (nat \<Rightarrow> 'v) \<Rightarrow> nat \<Rightarrow> 'v" where
  "both i j vw vs = vs(j := snd vw, i := fst vw)"

primrec view_step ::
  "(nat \<Rightarrow> ('o, 'a, 'r) call_operator) \<Rightarrow> view_op \<Rightarrow> (nat \<Rightarrow> ('o, 'a, 'r) function_view) \<Rightarrow>
   nat \<Rightarrow> ('o, 'a, 'r) function_view" where
  "view_step oper (View_null i) vs = vs(i := view_default)"
| "view_step oper (View_object i p) vs = vs(i := view_of (oper p) p)"
| "view_step oper (View_copy i j) vs = vs(i := vs j)"
| "view_step oper (View_move i j) vs = both i j (view_move (vs j)) vs"
| "view_step oper (View_assign_move i j) vs = both i j (view_move_assign (vs i) (vs j)) vs"
| "view_step oper (View_swap i j) vs = both i j (view_swap (vs i) (vs j)) vs"

text \<open>The abstract machine: a view is the object it refers to, if any.\<close>

primrec ref_step :: "view_op \<Rightarrow> (nat \<Rightarrow> nat option) \<Rightarrow> nat \<Rightarrow> nat option" where
  "ref_step (View_null i) r = r(i := None)"
| "ref_step (View_object i p) r = r(i := Some p)"
| "ref_step (View_copy i j) r = r(i := r j)"
| "ref_step (View_move i j) r = r(j := None, i := r j)"
| "ref_step (View_assign_move i j) r = r(j := r i, i := r j)"
| "ref_step (View_swap i j) r = r(j := r i, i := r j)"

definition ref_call ::
  "(nat \<Rightarrow> ('o, 'a, 'r) call_operator) \<Rightarrow> nat option \<Rightarrow> 'o store \<Rightarrow> 'a \<Rightarrow> 'r cxx" where
  "ref_call oper r st args =
     (case r of
        None \<Rightarrow> Inl Bad_function_call
      | Some p \<Rightarrow> (case st p of None \<Rightarrow> Inl Undefined | Some f \<Rightarrow> oper p f args))"

section \<open>Lemmas\<close>

text \<open>The view of a referent; a well-formed view is one of these.\<close>

definition view_to :: "(nat \<Rightarrow> ('o, 'a, 'r) call_operator) \<Rightarrow> nat option \<Rightarrow> ('o, 'a, 'r) function_view" where
  "view_to oper r = (case r of None \<Rightarrow> view_default | Some p \<Rightarrow> view_of (oper p) p)"

lemma view_to_simps [simp]:
  "view_to oper None = view_default" "view_to oper (Some p) = view_of (oper p) p"
  by (simp_all add: view_to_def)

lemma view_call_to: "view_call (view_to oper r) st args = ref_call oper r st args"
  by (cases r) (simp_all add: view_call_def view_default_def view_of_def trampoline_def ref_call_def)

lemma view_bool_to: "view_bool (view_to oper r) = (r \<noteq> None)"
  by (cases r) (simp_all add: view_bool_def view_default_def view_of_def)

lemma view_move_pair: "view_move (v :: ('o, 'a, 'r) function_view) = (v, view_default)"
  by (simp add: view_move_def view_default_def)

lemma view_swap_pair: "view_swap (v :: ('o, 'a, 'r) function_view) w = (w, v)"
  by (simp add: view_swap_def)

lemma view_step_to: "view_step oper op (\<lambda>i. view_to oper (r i)) = (\<lambda>i. view_to oper (ref_step op r i))"
  by (cases op) (auto simp: view_move_assign_def view_move_pair view_swap_pair both_def)

lemma view_steps_to:
  "fold (view_step oper) ops (\<lambda>i. view_to oper (r i)) = (\<lambda>i. view_to oper (fold ref_step ops r i))"
  by (induction ops arbitrary: r) (simp_all add: view_step_to)

section \<open>Properties\<close>

text \<open>
  C26: A pool of function views behaves as a pool of references: after any program of constructions,
  copies, moves and swaps, calling a view calls the object its reference stands for, with that
  object's own operator and in the state the object has at the call; a null reference throws
  \<open>std::bad_function_call\<close>; and calling is undefined once the object is gone. A view converts
  to \<open>true\<close> exactly when its reference is not null.
\<close>

theorem function_view_refines:
  "let vs = fold (view_step oper) ops (\<lambda>_. view_default); r = fold ref_step ops (\<lambda>_. None)
   in view_bool (vs i) = (r i \<noteq> None)
    \<and> view_call (vs i) st args =
        (case r i of
           None \<Rightarrow> Inl Bad_function_call
         | Some p \<Rightarrow> (case st p of None \<Rightarrow> Inl Undefined | Some f \<Rightarrow> oper p f args))"
  using view_steps_to [of oper ops "\<lambda>_. None"]
  by (simp add: Let_def view_bool_to view_call_to ref_call_def)

section \<open>function_view<R(Args...) const>\<close>

record ('o, 'a, 'r) const_view =
  const_data :: "nat option"
  const_func :: "(nat option \<Rightarrow> 'o store \<Rightarrow> 'a \<Rightarrow> 'r cxx) option"

definition const_view_default :: "('o, 'a, 'r) const_view" where
  "const_view_default = \<lparr>const_data = None, const_func = None\<rparr>"

definition const_trampoline ::
  "('o, 'a, 'r) call_operator \<Rightarrow> nat option \<Rightarrow> 'o store \<Rightarrow> 'a \<Rightarrow> 'r cxx" where
  "const_trampoline F data st args =
     (case data of
        None \<Rightarrow> Inl Undefined
      | Some p \<Rightarrow> (case st p of None \<Rightarrow> Inl Undefined | Some f \<Rightarrow> F f args))"

definition const_view_of :: "('o, 'a, 'r) call_operator \<Rightarrow> nat \<Rightarrow> ('o, 'a, 'r) const_view" where
  "const_view_of F f = \<lparr>const_data = Some f, const_func = Some (const_trampoline F)\<rparr>"

text \<open>
  What the argument of the constructor is: an object that lives on, or a temporary, which is created
  before the constructor runs and destroyed at the end of the full expression. The deleted constructor
  is not chosen for a temporary: for a deduced \<open>F\<close> its requirement never holds. The result is the view
  and the store after the expression.
\<close>

datatype 'o view_argument = Lvalue nat | Temporary nat 'o

definition const_view_construct ::
  "(nat \<Rightarrow> ('o, 'a, 'r) call_operator) \<Rightarrow> 'o view_argument \<Rightarrow> 'o store \<Rightarrow> ('o, 'a, 'r) const_view \<times> 'o store" where
  "const_view_construct oper arg st =
     (case arg of
        Lvalue p \<Rightarrow> (const_view_of (oper p) p, st)
      | Temporary p x \<Rightarrow> (let during = st(p := Some x) in (const_view_of (oper p) p, during(p := None))))"

definition const_view_move ::
  "('o, 'a, 'r) const_view \<Rightarrow> ('o, 'a, 'r) const_view \<times> ('o, 'a, 'r) const_view" where
  "const_view_move other =
     (\<lparr>const_data = const_data other, const_func = const_func other\<rparr>, other\<lparr>const_data := None, const_func := None\<rparr>)"

definition const_view_swap ::
  "('o, 'a, 'r) const_view \<Rightarrow> ('o, 'a, 'r) const_view \<Rightarrow> ('o, 'a, 'r) const_view \<times> ('o, 'a, 'r) const_view" where
  "const_view_swap self other =
     (self\<lparr>const_data := const_data other, const_func := const_func other\<rparr>,
      other\<lparr>const_data := const_data self, const_func := const_func self\<rparr>)"

definition const_view_move_assign ::
  "('o, 'a, 'r) const_view \<Rightarrow> ('o, 'a, 'r) const_view \<Rightarrow> ('o, 'a, 'r) const_view \<times> ('o, 'a, 'r) const_view" where
  "const_view_move_assign self other = const_view_swap self other"

definition const_view_call :: "('o, 'a, 'r) const_view \<Rightarrow> 'o store \<Rightarrow> 'a \<Rightarrow> 'r cxx" where
  "const_view_call v st args =
     (case const_func v of None \<Rightarrow> Inl Bad_function_call | Some g \<Rightarrow> g (const_data v) st args)"

definition const_view_bool :: "('o, 'a, 'r) const_view \<Rightarrow> bool" where
  "const_view_bool v = (const_func v \<noteq> None)"

text \<open>Programs over a pool of these views and the store.\<close>

datatype 'o const_op = Construct nat "'o view_argument" | Other view_op

fun const_step ::
  "(nat \<Rightarrow> ('o, 'a, 'r) call_operator) \<Rightarrow> 'o const_op \<Rightarrow> (nat \<Rightarrow> ('o, 'a, 'r) const_view) \<times> 'o store \<Rightarrow>
   (nat \<Rightarrow> ('o, 'a, 'r) const_view) \<times> 'o store" where
  "const_step oper (Construct i arg) (vs, st) =
     (case const_view_construct oper arg st of (v, st') \<Rightarrow> (vs(i := v), st'))"
| "const_step oper (Other (View_null i)) (vs, st) = (vs(i := const_view_default), st)"
| "const_step oper (Other (View_object i p)) (vs, st) = (vs(i := const_view_of (oper p) p), st)"
| "const_step oper (Other (View_copy i j)) (vs, st) = (vs(i := vs j), st)"
| "const_step oper (Other (View_move i j)) (vs, st) = (both i j (const_view_move (vs j)) vs, st)"
| "const_step oper (Other (View_assign_move i j)) (vs, st) = (both i j (const_view_move_assign (vs i) (vs j)) vs, st)"
| "const_step oper (Other (View_swap i j)) (vs, st) = (both i j (const_view_swap (vs i) (vs j)) vs, st)"

text \<open>The abstract machine: a reference to the argument, whatever it is.\<close>

primrec referent :: "'o view_argument \<Rightarrow> nat" where
  "referent (Lvalue p) = p"
| "referent (Temporary p x) = p"

fun const_ref_step :: "'o const_op \<Rightarrow> (nat \<Rightarrow> nat option) \<Rightarrow> nat \<Rightarrow> nat option" where
  "const_ref_step (Construct i arg) r = r(i := Some (referent arg))"
| "const_ref_step (Other op) r = ref_step op r"

definition temporaries :: "'o const_op list \<Rightarrow> nat set" where
  "temporaries ops = {p. \<exists>i x. Construct i (Temporary p x) \<in> set ops}"

definition const_view_to :: "(nat \<Rightarrow> ('o, 'a, 'r) call_operator) \<Rightarrow> nat option \<Rightarrow> ('o, 'a, 'r) const_view" where
  "const_view_to oper r = (case r of None \<Rightarrow> const_view_default | Some p \<Rightarrow> const_view_of (oper p) p)"

lemma const_view_to_simps [simp]:
  "const_view_to oper None = const_view_default" "const_view_to oper (Some p) = const_view_of (oper p) p"
  by (simp_all add: const_view_to_def)

lemma const_view_moves:
  "const_view_move (v :: ('o, 'a, 'r) const_view) = (v, const_view_default)"
  "const_view_swap v (w :: ('o, 'a, 'r) const_view) = (w, v)"
  by (simp_all add: const_view_move_def const_view_swap_def const_view_default_def)

lemma const_step_to:
  "const_step oper op (\<lambda>i. const_view_to oper (r i), st) =
     ((\<lambda>i. const_view_to oper (const_ref_step op r i)),
      case op of Construct i (Temporary p x) \<Rightarrow> st(p := None) | _ \<Rightarrow> st)"
proof (cases op)
  case (Construct i arg)
  then show ?thesis
    by (cases arg) (auto simp: const_view_construct_def Let_def)
next
  case (Other o')
  then show ?thesis
    by (cases o') (auto simp: const_view_move_assign_def const_view_moves both_def)
qed

lemma const_steps_to:
  "fold (const_step oper) ops (\<lambda>i. const_view_to oper (r i), st) =
     ((\<lambda>i. const_view_to oper (fold const_ref_step ops r i)), st |` (- temporaries ops))"
proof (induction ops arbitrary: r st)
  case (Cons op ops)
  have "temporaries (op # ops) = temporaries ops \<union> (case op of Construct i (Temporary p x) \<Rightarrow> {p} | _ \<Rightarrow> {})"
    by (auto simp: temporaries_def split: const_op.splits view_argument.splits)
  then have "(case op of Construct i (Temporary p x) \<Rightarrow> st(p := None) | _ \<Rightarrow> st) |` (- temporaries ops) =
      st |` (- temporaries (op # ops))"
    by (auto simp: restrict_map_def fun_eq_iff split: const_op.splits view_argument.splits)
  then show ?case
    using Cons.IH by (simp add: const_step_to)
qed (simp add: temporaries_def restrict_map_def)

text \<open>
  C27: The views for \<open>const\<close> callables behave as a pool of references too, after any program of
  constructions, copies, moves and swaps; but a view constructed from a temporary refers to an object
  that is gone when the expression ends, so every view that got its reference from there, however far
  it was moved or copied, is undefined to call, and still converts to \<open>true\<close>.
\<close>

theorem const_view_refines:
  assumes "fold (const_step oper) ops (\<lambda>_. const_view_default, st) = (vs, st')"
    and "r = fold const_ref_step ops (\<lambda>_. None)"
  shows "const_view_bool (vs i) = (r i \<noteq> None)
    \<and> const_view_call (vs i) st' args =
        (case r i of
           None \<Rightarrow> Inl Bad_function_call
         | Some p \<Rightarrow> if p \<in> temporaries ops then Inl Undefined
             else (case st p of None \<Rightarrow> Inl Undefined | Some f \<Rightarrow> oper p f args))"
proof -
  have "vs = (\<lambda>i. const_view_to oper (r i))" "st' = st |` (- temporaries ops)"
    using assms const_steps_to [of oper ops "\<lambda>_. None" st] by simp_all
  then show ?thesis
    by (cases "r i") (auto simp: const_view_bool_def const_view_call_def const_view_default_def const_view_of_def
        const_trampoline_def)
qed

theorem const_view_refines_witness:
  "case fold (const_step (\<lambda>p f n. Inr (f + n))) [Construct 0 (Lvalue 7), Construct 1 (Temporary 8 10), Other (View_swap 0 1)]
      (\<lambda>_. const_view_default, [7 \<mapsto> 100 :: nat]) of
     (vs, st') \<Rightarrow> const_view_call (vs 0) st' 5 = Inl Undefined \<and> const_view_call (vs 1) st' 5 = Inr 105"
proof -
  let ?ops = "[Construct 0 (Lvalue 7), Construct 1 (Temporary 8 10), Other (View_swap 0 1)] :: nat const_op list"
  obtain vs st' where run: "fold (const_step (\<lambda>p f n. Inr (f + n))) ?ops (\<lambda>_. const_view_default, [7 \<mapsto> 100]) = (vs, st')"
    by (cases "fold (const_step (\<lambda>p f n. Inr (f + n))) ?ops (\<lambda>_. const_view_default, [7 \<mapsto> 100])")
  have "temporaries ?ops = {8}"
    by (auto simp: temporaries_def)
  then show ?thesis
    using const_view_refines [OF run refl, of 0 5] const_view_refines [OF run refl, of 1 5]
    unfolding run by simp
qed

end
