(* ===== verification/Awaitable.thy ===== *)
theory Awaitable
  imports Prelude
begin

text \<open>
  \<open>include/tcx/awaitable.hpp\<close>: the coroutine type \<open>awaitable\<close>, which owns a coroutine frame through its
  handle, and the promise in that frame. Frames live in a store by address and a destroyed frame
  leaves it. A member that ends in an exception returns the store as it is then, so results are pairs.

  Three members cannot be instantiated as written: \<open>coroutine_handle() const\<close> casts \<open>const\<close> away,
  \<open>awaitable_promise<T>\<close> names a member of the unrelated base \<open>awaitable_promise_base<void>\<close>, and
  \<open>awaitable::is_ready\<close> calls \<open>is_read\<close>. The model is what they do apart from that. \<open>post_into\<close> hands the
  handle to an executor, whose calling it resumes the coroutine.
\<close>

section \<open>The promise\<close>

datatype 'v state_type =
    Not_satisfied
  | Satisfied_value 'v
  | Satisfied_exception nat
  | Value_retrieved

type_synonym 'v frames = "nat \<Rightarrow> 'v state_type option"

text \<open>\<open>coroutine_handle::destroy\<close>: of a frame that is gone it is undefined.\<close>

definition destroy_frame :: "nat \<Rightarrow> 'v frames \<Rightarrow> 'v frames cxx" where
  "destroy_frame h fs = (if fs h = None then Inl Undefined else Inr (fs(h := None)))"

definition promise_is_ready :: "'v state_type \<Rightarrow> bool" where
  "promise_is_ready s = (case s of Satisfied_value v \<Rightarrow> True | Satisfied_exception e \<Rightarrow> True | _ \<Rightarrow> False)"

text \<open>
  \<open>get\<close> of the promise in frame \<open>h\<close>: it retrieves, destroys its own frame, and returns or throws.
\<close>

definition promise_get :: "nat \<Rightarrow> 'v frames \<Rightarrow> 'v cxx \<times> 'v frames" where
  "promise_get h fs =
     (case fs h of
        None \<Rightarrow> (Inl Undefined, fs)
      | Some Not_satisfied \<Rightarrow> (Inl (Future_error No_state), fs)
      | Some (Satisfied_value v) \<Rightarrow>
          (case destroy_frame h (fs(h := Some Value_retrieved)) of
             Inl e \<Rightarrow> (Inl e, fs) | Inr fs' \<Rightarrow> (Inr v, fs'))
      | Some (Satisfied_exception e) \<Rightarrow>
          (case destroy_frame h (fs(h := Some Value_retrieved)) of
             Inl e' \<Rightarrow> (Inl e', fs) | Inr fs' \<Rightarrow> (Inl (Callback_exception e), fs'))
      | Some Value_retrieved \<Rightarrow> (Inl (Future_error Future_already_retrieved), fs))"

definition return_value :: "'v \<Rightarrow> 'v state_type \<Rightarrow> 'v state_type" where
  "return_value v s = Satisfied_value v"

text \<open>\<open>return_void\<close> of a coroutine without a result: its value is the only one of its type.\<close>

definition return_void :: "unit state_type \<Rightarrow> unit state_type" where
  "return_void s = Satisfied_value ()"

lemma return_void_value: "return_void = return_value ()"
  by (rule ext) (simp add: return_void_def return_value_def)

definition unhandled_exception :: "nat \<Rightarrow> 'v state_type \<Rightarrow> 'v state_type" where
  "unhandled_exception e s = Satisfied_exception e"

text \<open>
  Resuming a frame: it was suspended at its start (\<open>initial_suspend\<close>), its body, which awaits nothing,
  runs to the end with a value or an exception \<open>Inl e\<close>, and it stays suspended there
  (\<open>final_suspend\<close>). Resuming it again is undefined.
\<close>

definition resume_frame :: "nat \<Rightarrow> nat + 'v \<Rightarrow> 'v frames \<Rightarrow> 'v frames cxx" where
  "resume_frame h body fs =
     (case fs h of
        Some Not_satisfied \<Rightarrow>
          Inr (fs(h := Some (case body of
             Inl e \<Rightarrow> unhandled_exception e Not_satisfied | Inr v \<Rightarrow> return_value v Not_satisfied)))
      | _ \<Rightarrow> Inl Undefined)"

section \<open>awaitable\<close>

text \<open>An awaitable is its handle.\<close>

type_synonym awaitable = "nat option"

text \<open>\<open>get_return_object\<close> of the frame of a call: \<open>awaitable\<close>'s constructor from a handle.\<close>

definition get_return_object :: "nat \<Rightarrow> awaitable" where
  "get_return_object h = Some h"

definition awaitable_move :: "awaitable \<Rightarrow> awaitable \<times> awaitable" where
  "awaitable_move other = (other, None)"

definition awaitable_move_assign :: "awaitable \<Rightarrow> awaitable \<Rightarrow> awaitable \<times> awaitable" where
  "awaitable_move_assign self other = (other, None)"

definition awaitable_destroy :: "awaitable \<Rightarrow> 'v frames \<Rightarrow> 'v frames cxx" where
  "awaitable_destroy a fs = (case a of None \<Rightarrow> Inr fs | Some h \<Rightarrow> destroy_frame h fs)"

definition awaitable_is_ready :: "awaitable \<Rightarrow> 'v frames \<Rightarrow> bool cxx" where
  "awaitable_is_ready a fs =
     (case a of
        None \<Rightarrow> Inl (Future_error Broken_promise)
      | Some h \<Rightarrow> (case fs h of None \<Rightarrow> Inl Undefined | Some s \<Rightarrow> Inr (promise_is_ready s)))"

definition awaitable_get :: "awaitable \<Rightarrow> 'v frames \<Rightarrow> 'v cxx \<times> 'v frames" where
  "awaitable_get a fs =
     (case a of None \<Rightarrow> (Inl (Future_error Broken_promise), fs) | Some h \<Rightarrow> promise_get h fs)"

definition awaitable_valid :: "awaitable \<Rightarrow> bool" where
  "awaitable_valid a = (a \<noteq> None)"

text \<open>
  \<open>post_into\<close>: the executor is given the handle without a check, a null handle too, and the awaitable
  is empty after it.
\<close>

definition awaitable_post_into :: "('e \<Rightarrow> nat option \<Rightarrow> 'e) \<Rightarrow> 'e \<Rightarrow> awaitable \<Rightarrow> 'e \<times> awaitable" where
  "awaitable_post_into post e a = (post e a, None)"

section \<open>Programs over awaitables\<close>

text \<open>
  The awaitable objects of a program by number, the frames, what an executor still has to resume and
  what it has resumed, and what the calls of \<open>get\<close> returned or threw. The executor holds what it was
  given, null handles among them.
\<close>

record 'v world =
  objects :: "nat \<Rightarrow> awaitable"
  frames :: "'v frames"
  fresh :: nat
  queue :: "nat option list"
  resumed :: "nat list"
  got :: "'v cxx list"

definition empty_world :: "'v world" where
  "empty_world = \<lparr>objects = (\<lambda>_. None), frames = (\<lambda>_. None), fresh = 0, queue = [], resumed = [], got = []\<rparr>"

text \<open>
  \<open>Start i\<close> assigns the awaitable of a new coroutine call to object \<open>i\<close>; \<open>Close i\<close> ends the life of object
  \<open>i\<close> and default-constructs another one; \<open>Post i\<close> posts object \<open>i\<close>, valid or not; \<open>Resume_next body\<close> is
  the executor calling the oldest handle, which is undefined for a null handle.
\<close>

datatype 'v world_op =
    Start nat
  | Assign_move nat nat
  | Close nat
  | Get nat
  | Post nat
  | Resume_next "nat + 'v"

primrec world_step :: "'v world_op \<Rightarrow> 'v world \<Rightarrow> 'v world cxx" where
  "world_step (Start i) w =
     (let h = fresh w
      in Inr (w\<lparr>fresh := Suc h, frames := (frames w)(h := Some Not_satisfied),
           objects := (objects w)(i := fst (awaitable_move_assign (objects w i) (get_return_object h)))\<rparr>))"
| "world_step (Assign_move i j) w =
     (case awaitable_move_assign (objects w i) (objects w j) of (self, other) \<Rightarrow>
        Inr (w\<lparr>objects := (objects w)(j := other, i := self)\<rparr>))"
| "world_step (Close i) w =
     cxx_bind (awaitable_destroy (objects w i) (frames w)) (\<lambda>fs.
     Inr (w\<lparr>frames := fs, objects := (objects w)(i := None)\<rparr>))"
| "world_step (Get i) w =
     (case awaitable_get (objects w i) (frames w) of (r, fs) \<Rightarrow>
        if r = Inl Undefined then Inl Undefined
        else Inr (w\<lparr>frames := fs, got := got w @ [r]\<rparr>))"
| "world_step (Post i) w =
     (case awaitable_post_into (\<lambda>q a. q @ [a]) (queue w) (objects w i) of (q, a) \<Rightarrow>
        Inr (w\<lparr>queue := q, objects := (objects w)(i := a)\<rparr>))"
| "world_step (Resume_next body) w =
     (case queue w of
        [] \<Rightarrow> Inr w
      | None # q \<Rightarrow> Inl Undefined
      | Some h # q \<Rightarrow>
          cxx_bind (resume_frame h body (frames w)) (\<lambda>fs.
          Inr (w\<lparr>frames := fs, queue := q, resumed := resumed w @ [h]\<rparr>)))"

primrec world_run :: "'v world_op list \<Rightarrow> 'v world \<Rightarrow> 'v world cxx" where
  "world_run [] w = Inr w"
| "world_run (op # ops) w = cxx_bind (world_step op w) (world_run ops)"

section \<open>Lemmas\<close>

text \<open>
  \<open>get\<close> of a finished coroutine destroys its frame and leaves the handle, so that the destructor of
  the awaitable destroys it again.
\<close>

lemma get_then_destroy:
  "fs h = Some (Satisfied_value v) \<Longrightarrow>
   awaitable_get (Some h) fs = (Inr v, fs(h := None))
   \<and> awaitable_destroy (Some h) (fs(h := None)) = Inl Undefined"
  by (simp add: awaitable_get_def promise_get_def awaitable_destroy_def destroy_frame_def)

text \<open>The frames that the executor holds.\<close>

definition handles :: "nat option list \<Rightarrow> nat list" where
  "handles q = List.map_filter id q"

lemma handles_simps [simp]:
  "handles [] = []"
  "handles (None # q) = handles q"
  "handles (Some h # q) = h # handles q"
  "handles (q @ q') = handles q @ handles q'"
  by (simp_all add: handles_def List.map_filter_def)

text \<open>
  What an object holds has not started and is held by no other object or executor; what the executor
  has resumed is finished.
\<close>

definition world_ok :: "'v world \<Rightarrow> bool" where
  "world_ok w \<longleftrightarrow>
     (\<forall>i h. objects w i = Some h \<longrightarrow> h < fresh w \<and> frames w h = Some Not_satisfied \<and> h \<notin> set (handles (queue w)))
   \<and> (\<forall>i j h. objects w i = Some h \<longrightarrow> objects w j = Some h \<longrightarrow> i = j)
   \<and> distinct (handles (queue w))
   \<and> (\<forall>h \<in> set (handles (queue w)). h < fresh w \<and> frames w h = Some Not_satisfied)
   \<and> (\<forall>h \<in> set (resumed w). h < fresh w \<and> (\<exists>s. frames w h = Some s \<and> promise_is_ready s))
   \<and> set (got w) \<subseteq> {Inl (Future_error Broken_promise), Inl (Future_error No_state)}"

lemma world_okI:
  assumes "\<And>i h. objects w i = Some h \<Longrightarrow> h < fresh w \<and> frames w h = Some Not_satisfied \<and> h \<notin> set (handles (queue w))"
    and "\<And>i j h. objects w i = Some h \<Longrightarrow> objects w j = Some h \<Longrightarrow> i = j"
    and "distinct (handles (queue w))"
    and "\<And>h. h \<in> set (handles (queue w)) \<Longrightarrow> h < fresh w \<and> frames w h = Some Not_satisfied"
    and "\<And>h. h \<in> set (resumed w) \<Longrightarrow> h < fresh w \<and> (\<exists>s. frames w h = Some s \<and> promise_is_ready s)"
    and "set (got w) \<subseteq> {Inl (Future_error Broken_promise), Inl (Future_error No_state)}"
  shows "world_ok w"
  unfolding world_ok_def
  by (intro conjI; (intro allI ballI impI)?; (rule assms, assumption, assumption | rule assms, assumption | rule assms))

lemma world_okD:
  assumes "world_ok w"
  shows "objects w i = Some h \<Longrightarrow> h < fresh w \<and> frames w h = Some Not_satisfied \<and> h \<notin> set (handles (queue w))"
    and "objects w i = Some h \<Longrightarrow> objects w j = Some h \<Longrightarrow> i = j"
    and "distinct (handles (queue w))"
    and "h \<in> set (handles (queue w)) \<Longrightarrow> h < fresh w \<and> frames w h = Some Not_satisfied"
    and "h \<in> set (resumed w) \<Longrightarrow> h < fresh w \<and> (\<exists>s. frames w h = Some s \<and> promise_is_ready s)"
    and "set (got w) \<subseteq> {Inl (Future_error Broken_promise), Inl (Future_error No_state)}"
  using assms unfolding world_ok_def by (elim conjE; metis)+

lemma not_ready [simp]: "\<not> promise_is_ready Not_satisfied"
  by (simp add: promise_is_ready_def)

lemma start_ok:
  assumes "world_ok w"
  shows "world_ok (w\<lparr>fresh := Suc (fresh w), frames := (frames w)(fresh w := Some Not_satisfied),
    objects := (objects w)(i := Some (fresh w))\<rparr>)" (is "world_ok ?w")
proof (rule world_okI)
  note ok = world_okD [OF assms]
  show "h < fresh ?w \<and> frames ?w h = Some Not_satisfied \<and> h \<notin> set (handles (queue ?w))"
    if "objects ?w x = Some h" for x h
    using that ok(1) [of x h] ok(4) [of "fresh w"] by (cases "x = i") auto
  show "x = y" if "objects ?w x = Some h" "objects ?w y = Some h" for x y h
    using that ok(1) [of x h] ok(1) [of y h] ok(2) [of x h y]
    by (cases "x = i"; cases "y = i") (simp_all split: if_splits)
  show "distinct (handles (queue ?w))"
    using ok(3) by simp
  show "h < fresh ?w \<and> frames ?w h = Some Not_satisfied" if "h \<in> set (handles (queue ?w))" for h
    using that ok(4) [of h] by auto
  show "h < fresh ?w \<and> (\<exists>s. frames ?w h = Some s \<and> promise_is_ready s)" if "h \<in> set (resumed ?w)" for h
    using that ok(5) [of h] by auto
  show "set (got ?w) \<subseteq> {Inl (Future_error Broken_promise), Inl (Future_error No_state)}"
    using ok(6) by simp
qed

lemma assign_ok:
  assumes "world_ok w"
  shows "world_ok (w\<lparr>objects := (objects w)(j := None, i := objects w j)\<rparr>)" (is "world_ok ?w")
proof (rule world_okI)
  note ok = world_okD [OF assms]
  show "h < fresh ?w \<and> frames ?w h = Some Not_satisfied \<and> h \<notin> set (handles (queue ?w))"
    if "objects ?w x = Some h" for x h
    using that ok(1) [of x h] ok(1) [of j h] by (cases "x = i"; cases "x = j") auto
  show "x = y" if "objects ?w x = Some h" "objects ?w y = Some h" for x y h
    using that ok(2) [of j h y] ok(2) [of x h j] ok(2) [of x h y]
    by (cases "x = i"; cases "y = i"; cases "x = j"; cases "y = j") (simp_all split: if_splits)
qed (use world_okD(3-6) [OF assms] in simp_all)

text \<open>An object gives its handle up: it is destroyed, or the executor takes it.\<close>

lemma close_ok:
  assumes "world_ok w" and "objects w i = Some h"
  shows "world_ok (w\<lparr>frames := (frames w)(h := None), objects := (objects w)(i := None)\<rparr>)" (is "world_ok ?w")
proof (rule world_okI)
  note ok = world_okD [OF assms(1)]
  show "k < fresh ?w \<and> frames ?w k = Some Not_satisfied \<and> k \<notin> set (handles (queue ?w))"
    if "objects ?w x = Some k" for x k
  proof -
    have at: "x \<noteq> i" "objects w x = Some k"
      using that by (simp_all split: if_splits)
    then have "k \<noteq> h"
      using ok(2) [of x h i] assms(2) by blast
    then show ?thesis
      using ok(1) [OF at(2)] by simp
  qed
  show "x = y" if "objects ?w x = Some k" "objects ?w y = Some k" for x y k
    using that ok(2) [of x k y] by (cases "x = i"; cases "y = i") simp_all
  show "k < fresh ?w \<and> frames ?w k = Some Not_satisfied" if "k \<in> set (handles (queue ?w))" for k
    using that ok(4) [of k] ok(1) [OF assms(2)] by auto
  show "k < fresh ?w \<and> (\<exists>s. frames ?w k = Some s \<and> promise_is_ready s)" if "k \<in> set (resumed ?w)" for k
    using that ok(5) [of k] ok(1) [OF assms(2)] by auto
qed (use world_okD(3,6) [OF assms(1)] in simp_all)

lemma post_ok:
  assumes "world_ok w" and "objects w i = Some h"
  shows "world_ok (w\<lparr>queue := queue w @ [Some h], objects := (objects w)(i := None)\<rparr>)" (is "world_ok ?w")
proof (rule world_okI)
  note ok = world_okD [OF assms(1)]
  show "k < fresh ?w \<and> frames ?w k = Some Not_satisfied \<and> k \<notin> set (handles (queue ?w))"
    if "objects ?w x = Some k" for x k
  proof -
    have at: "x \<noteq> i" "objects w x = Some k"
      using that by (simp_all split: if_splits)
    then have "k \<noteq> h"
      using ok(2) [of x h i] assms(2) by blast
    then show ?thesis
      using ok(1) [OF at(2)] by simp
  qed
  show "x = y" if "objects ?w x = Some k" "objects ?w y = Some k" for x y k
    using that ok(2) [of x k y] by (cases "x = i"; cases "y = i") simp_all
  show "distinct (handles (queue ?w))"
    using ok(3) ok(1) [OF assms(2)] by simp
  show "k < fresh ?w \<and> frames ?w k = Some Not_satisfied" if "k \<in> set (handles (queue ?w))" for k
    using that ok(4) [of k] ok(1) [OF assms(2)] by auto
qed (use world_okD(5,6) [OF assms(1)] in simp_all)

lemma resume_ok:
  assumes "world_ok w" and "queue w = Some h # q" and "promise_is_ready s"
  shows "world_ok (w\<lparr>frames := (frames w)(h := Some s), queue := q, resumed := resumed w @ [h]\<rparr>)"
    (is "world_ok ?w")
proof (rule world_okI)
  note ok = world_okD [OF assms(1)]
  show "k < fresh ?w \<and> frames ?w k = Some Not_satisfied \<and> k \<notin> set (handles (queue ?w))"
    if "objects ?w x = Some k" for x k
    using that ok(1) [of x k] assms(2) by (cases "k = h") auto
  show "x = y" if "objects ?w x = Some k" "objects ?w y = Some k" for x y k
    using that ok(2) [of x k y] by simp
  show "distinct (handles (queue ?w))"
    using ok(3) assms(2) by simp
  show "k < fresh ?w \<and> frames ?w k = Some Not_satisfied" if "k \<in> set (handles (queue ?w))" for k
    using that ok(4) [of k] ok(3) assms(2) by auto
  show "k < fresh ?w \<and> (\<exists>s. frames ?w k = Some s \<and> promise_is_ready s)" if "k \<in> set (resumed ?w)" for k
    using that ok(5) [of k] ok(4) [of h] assms(2,3) by (cases "k = h") auto
qed (use world_okD(6) [OF assms(1)] in simp)

lemma get_ok:
  assumes "world_ok w"
  shows "\<exists>w'. world_step (Get i) w = Inr w' \<and> world_ok w' \<and> resumed w' = resumed w \<and> queue w' = queue w"
proof -
  note ok = world_okD [OF assms]
  define r :: "'a cxx" where
    "r = (if objects w i = None then Inl (Future_error Broken_promise) else Inl (Future_error No_state))"
  have "awaitable_get (objects w i) (frames w) = (r, frames w)"
    using ok(1) [of i] by (cases "objects w i") (simp_all add: awaitable_get_def promise_get_def r_def)
  moreover have "world_ok (w\<lparr>frames := frames w, got := got w @ [r]\<rparr>)"
    using ok(1,4,5,6) by (intro world_okI) (auto simp: r_def ok(3) intro: ok(2))
  ultimately show ?thesis
    by (simp add: r_def)
qed

lemma post_null_ok: "world_ok w \<Longrightarrow> world_ok (w\<lparr>queue := queue w @ [None]\<rparr>)"
  by (simp add: world_ok_def)

text \<open>A step keeps the invariant, unless it resumes a null handle.\<close>

definition resumes_null :: "'v world_op \<Rightarrow> 'v world \<Rightarrow> bool" where
  "resumes_null op w =
     ((case op of Resume_next body \<Rightarrow> True | _ \<Rightarrow> False) \<and> (case queue w of None # q \<Rightarrow> True | _ \<Rightarrow> False))"

lemma world_step_ok:
  assumes "world_ok w"
  shows "if resumes_null op w then world_step op w = Inl Undefined
         else \<exists>w'. world_step op w = Inr w' \<and> world_ok w'"
proof (cases op)
  case (Start i)
  then show ?thesis
    using start_ok [OF assms]
    by (simp add: awaitable_move_assign_def get_return_object_def Let_def resumes_null_def)
next
  case (Assign_move i j)
  then show ?thesis
    using assign_ok [OF assms] by (simp add: awaitable_move_assign_def resumes_null_def)
next
  case (Close i)
  show ?thesis
  proof (cases "objects w i")
    case None
    then have "w\<lparr>frames := frames w, objects := (objects w)(i := None)\<rparr> = w"
      by (simp add: fun_upd_idem)
    then show ?thesis
      using assms None by (simp add: Close awaitable_destroy_def resumes_null_def)
  next
    case (Some h)
    then show ?thesis
      using close_ok [OF assms Some] world_okD(1) [OF assms Some]
      by (simp add: Close awaitable_destroy_def destroy_frame_def resumes_null_def)
  qed
next
  case (Get i)
  then show ?thesis
    using get_ok [OF assms, of i] by (auto simp: resumes_null_def simp del: world_step.simps)
next
  case (Post i)
  have "w\<lparr>queue := queue w @ [None], objects := (objects w)(i := None)\<rparr> = w\<lparr>queue := queue w @ [None]\<rparr>"
    if "objects w i = None"
    using that by (simp add: fun_upd_idem)
  then show ?thesis
    using post_ok [OF assms, of i] post_null_ok [OF assms]
    by (cases "objects w i") (simp_all add: Post awaitable_post_into_def resumes_null_def)
next
  case (Resume_next body)
  show ?thesis
  proof (cases "queue w")
    case Nil
    then show ?thesis
      using assms by (simp add: Resume_next resumes_null_def)
  next
    case (Cons a q)
    show ?thesis
    proof (cases a)
      case None
      then show ?thesis
        using Cons by (simp add: Resume_next resumes_null_def)
    next
      case (Some h)
      then show ?thesis
        using resume_ok [OF assms, of h q] world_okD(4) [OF assms, of h] Cons
        by (simp add: Resume_next resumes_null_def resume_frame_def promise_is_ready_def
            unhandled_exception_def return_value_def split: sum.split)
    qed
  qed
qed

lemma world_run_append: "world_run (xs @ ys) w = cxx_bind (world_run xs w) (world_run ys)"
  by (induction xs arbitrary: w) (simp_all add: cxx_bind_def split: sum.split)

text \<open>A program either keeps the invariant or has resumed a null handle.\<close>

lemma world_run_ok:
  assumes "world_ok w"
  shows "(\<exists>w'. world_run ops w = Inr w' \<and> world_ok w')
     \<or> (world_run ops w = Inl Undefined
        \<and> (\<exists>before body after w'. ops = before @ Resume_next body # after \<and> world_run before w = Inr w'
             \<and> queue w' \<noteq> [] \<and> hd (queue w') = None))"
  using assms
proof (induction ops arbitrary: w)
  case (Cons op ops)
  show ?case
  proof (cases "resumes_null op w")
    case True
    then obtain body where "op = Resume_next body" and "queue w \<noteq> [] \<and> hd (queue w) = None"
      by (auto simp: resumes_null_def split: world_op.splits list.splits option.splits)
    moreover have "world_step op w = Inl Undefined"
      using world_step_ok [OF Cons.prems, of op] True by simp
    ultimately show ?thesis
      by (intro disjI2 conjI exI [of _ "[]"]) auto
  next
    case False
    then obtain w1 where w1: "world_step op w = Inr w1" "world_ok w1"
      using world_step_ok [OF Cons.prems, of op] by auto
    show ?thesis
      using Cons.IH [OF w1(2)]
    proof (elim disjE conjE exE)
      fix before body after w'
      assume "world_run ops w1 = Inl Undefined" "ops = before @ Resume_next body # after"
        "world_run before w1 = Inr w'" "queue w' \<noteq> []" "hd (queue w') = None"
      then show ?thesis
        using w1(1) by (intro disjI2 conjI exI [of _ "op # before"] exI [of _ body] exI [of _ after] exI [of _ w']) simp_all
    qed (use w1(1) in simp)
  qed
qed simp

text \<open>A null handle reaches the executor only from an empty awaitable.\<close>

lemma step_queues_null:
  assumes "world_step op w = Inr w'" and "None \<in> set (queue w')"
  shows "None \<in> set (queue w) \<or> (\<exists>i. op = Post i \<and> objects w i = None)"
  using assms
  by (cases op)
    (auto simp: Let_def cxx_bind_eq_Inr awaitable_move_assign_def awaitable_post_into_def
      split: prod.splits if_splits list.splits option.splits)

lemma run_queues_null:
  assumes "world_run ops w = Inr w'" and "None \<in> set (queue w')" and "None \<notin> set (queue w)"
  shows "\<exists>before i after v. ops = before @ Post i # after \<and> world_run before w = Inr v \<and> objects v i = None"
  using assms
proof (induction ops arbitrary: w' rule: rev_induct)
  case (snoc op ops)
  then obtain v where v: "world_run ops w = Inr v" "world_step op v = Inr w'"
    by (auto simp: world_run_append cxx_bind_eq_Inr)
  from step_queues_null [OF v(2) snoc.prems(2)] show ?case
  proof (elim disjE exE conjE)
    assume "None \<in> set (queue v)"
    then obtain before i after u where
      "ops = before @ Post i # after" "world_run before w = Inr u" "objects u i = None"
      using snoc.IH [OF v(1)] snoc.prems(3) by blast
    then show ?thesis
      by (intro exI [of _ before] exI [of _ i] exI [of _ "after @ [op]"]) auto
  next
    fix i
    assume "op = Post i" "objects v i = None"
    then show ?thesis
      using v(1) by (intro exI [of _ ops] exI [of _ i] exI [of _ "[]"]) auto
  qed
qed simp

lemma empty_world_ok: "world_ok empty_world"
  by (simp add: world_ok_def empty_world_def)

section \<open>Properties\<close>

text \<open>
  C28: Whatever a program does with these operations and an executor that resumes what is posted, it
  never gets the result of a coroutine: \<open>post_into\<close>, the only way to start one, empties the awaitable,
  so every call of \<open>get\<close> throws that the promise is broken or has no state; and a coroutine that has
  run is finished, is held by no awaitable, and its frame is never destroyed. The one undefined
  behaviour on the way is the executor calling a null handle, and such a handle was posted from an
  awaitable that was empty: never assigned to, moved from, or posted before.
\<close>

theorem awaitable_never_delivers:
  "case world_run ops empty_world of
     Inr w \<Rightarrow>
       list_all (\<lambda>r. r \<in> {Inl (Future_error Broken_promise), Inl (Future_error No_state)}) (got w)
     \<and> list_all (\<lambda>h. \<exists>s. frames w h = Some s \<and> promise_is_ready s \<and> (\<forall>i. objects w i \<noteq> Some h)) (resumed w)
   | Inl e \<Rightarrow>
       e = Undefined
     \<and> (\<exists>posted i between body after w w'. ops = posted @ Post i # between @ Resume_next body # after
          \<and> world_run posted empty_world = Inr w \<and> objects w i = None
          \<and> world_run (posted @ Post i # between) empty_world = Inr w' \<and> hd (queue w') = None)"
  using world_run_ok [OF empty_world_ok, of ops]
proof (elim disjE conjE exE)
  fix w :: "'a world"
  assume w: "world_run ops empty_world = Inr w" and ok: "world_ok w"
  have "\<exists>s. frames w h = Some s \<and> promise_is_ready s \<and> (\<forall>i. objects w i \<noteq> Some h)" if h: "h \<in> set (resumed w)" for h
  proof -
    obtain s where s: "frames w h = Some s" "promise_is_ready s"
      using world_okD(5) [OF ok h] by blast
    then have "objects w i \<noteq> Some h" for i
      using world_okD(1) [OF ok, of i h] by auto
    then show ?thesis
      using s by blast
  qed
  then show ?thesis
    using w world_okD(6) [OF ok] unfolding list_all_iff by auto
next
  fix before body after and w' :: "'a world"
  assume u: "world_run ops empty_world = Inl Undefined" and ops: "ops = before @ Resume_next body # after"
    and b: "world_run before empty_world = Inr w'" and q: "queue w' \<noteq> []" "hd (queue w') = None"
  have "None \<in> set (queue w')"
    using hd_in_set [OF q(1)] q(2) by simp
  then obtain posted i between w where
    "before = posted @ Post i # between" "world_run posted empty_world = Inr w" "objects w i = None"
    using run_queues_null [OF b] by (auto simp: empty_world_def)
  then have "ops = posted @ Post i # between @ Resume_next body # after
      \<and> world_run posted empty_world = Inr w \<and> objects w i = None
      \<and> world_run (posted @ Post i # between) empty_world = Inr w' \<and> hd (queue w') = None"
    using ops b q(2) by simp
  then show ?thesis
    unfolding u by (simp only: sum.case) blast
qed

end
