(* ===== verification/Main_Program.thy ===== *)
theory Main_Program
  imports Prelude
begin

text \<open>
  \<open>src/src/main.cpp\<close>: the reads that \<open>read_everything\<close> starts, what their completions do to the counter and
  the buffer they share, and the loop \<open>run_until_complete\<close>. Progress output is not modelled.
\<close>

section \<open>read_everything\<close>

text \<open>
  One call of \<open>tcx::async_read\<close>: where in the buffer, how many bytes, and the offset in the file.
\<close>

record read_request =
  buff_offset :: u64
  len :: u64
  file_offset :: u64

fun read_loop :: "nat \<Rightarrow> u64 \<Rightarrow> u64 \<Rightarrow> u64 \<Rightarrow> read_request list" where
  "read_loop 0 i counter chunk_size = []"
| "read_loop (Suc n) i counter chunk_size =
     (if i < counter
      then \<lparr>buff_offset = i * chunk_size, len = chunk_size, file_offset = i\<rparr>
        # read_loop n (i + 1) counter chunk_size
      else [])"

text \<open>
  The counter, the size of the buffer, and the requests. The loop runs at most \<open>counter\<close> times.
\<close>

definition read_everything :: "u64 \<Rightarrow> u64 \<Rightarrow> (u64 \<times> u64 \<times> read_request list) cxx" where
  "read_everything file_size chunk_size =
     (if chunk_size = 0 then Inl Undefined
      else
        let counter = file_size div chunk_size
        in Inr (counter, counter * chunk_size, read_loop (unat counter) 0 counter chunk_size))"

text \<open>
  What the completions share: the counter and the buffer are deleted together, and \<open>closed\<close> counts the
  calls of \<open>tcx::async_close\<close>.
\<close>

record shared =
  counter :: "u64 option"
  closed :: nat

text \<open>A completion, with an error code or a number of bytes, which it does not look at.\<close>

definition read_completed :: "int + u64 \<Rightarrow> shared \<Rightarrow> shared cxx" where
  "read_completed result s =
     (case result of
        Inl ec \<Rightarrow> Inl (System_error ec)
      | Inr bytes \<Rightarrow>
          (case counter s of
             None \<Rightarrow> Inl Undefined
           | Some c \<Rightarrow>
               let count = c - 1
               in if count = 0 then Inr (s\<lparr>counter := None, closed := Suc (closed s)\<rparr>)
                  else Inr (s\<lparr>counter := Some count\<rparr>)))"

text \<open>A completion that throws leaves what is shared; the others go on.\<close>

primrec completions :: "(int + u64) list \<Rightarrow> shared \<Rightarrow> shared cxx" where
  "completions [] s = Inr s"
| "completions (r # rs) s =
     (case read_completed r s of
        Inr s' \<Rightarrow> completions rs s'
      | Inl (System_error ec) \<Rightarrow> completions rs s
      | Inl e \<Rightarrow> Inl e)"

section \<open>run_until_complete\<close>

text \<open>
  What \<open>pending\<close> of each runner returns or throws at its \<open>n\<close>-th call is an argument; the loop calls
  nothing else. \<open>None\<close>: the loop does not end.
\<close>

definition keep_running :: "bool cxx list \<Rightarrow> bool" where
  "keep_running rs = list_ex (\<lambda>r. case r of Inl e \<Rightarrow> True | Inr p \<Rightarrow> p) rs"

partial_function (option) run_loop :: "(nat \<Rightarrow> bool cxx list) \<Rightarrow> nat \<Rightarrow> nat option" where
  "run_loop pendings n = (if \<not> keep_running (pendings n) then Some n else run_loop pendings (Suc n))"

definition run_until_complete :: "(nat \<Rightarrow> bool cxx list) \<Rightarrow> nat option" where
  "run_until_complete pendings = run_loop pendings 0"

section \<open>Lemmas\<close>

lemma read_loop_map:
  "unat i + n = unat c \<Longrightarrow>
   read_loop n i c chunk = map (\<lambda>k. \<lparr>buff_offset = word_of_nat k * chunk, len = chunk, file_offset = word_of_nat k\<rparr>)
     [unat i..<unat c]"
proof (induction n arbitrary: i)
  case (Suc n)
  then have lt: "i < c" by (simp add: word_less_nat_alt)
  then have "Suc (unat i) < 2 ^ 64"
    using unsigned_less [where 'a = nat, of c] by (simp add: word_less_nat_alt)
  then have "unat (i + 1) = Suc (unat i)"
    by (simp add: unat_word_ariths)
  with Suc lt show ?case by (simp add: upt_conv_Cons word_less_nat_alt)
qed simp

text \<open>As long as the counter is above the number of successes, they only count down.\<close>

definition successes :: "(int + u64) list \<Rightarrow> nat" where
  "successes rs = length (filter (\<lambda>r. case r of Inl e \<Rightarrow> False | Inr b \<Rightarrow> True) rs)"

lemma completions_count:
  "counter s = Some c \<Longrightarrow> 0 < unat c \<Longrightarrow> successes rs \<le> unat c \<Longrightarrow>
   completions rs s = Inr (if successes rs = unat c
     then s\<lparr>counter := None, closed := Suc (closed s)\<rparr> else s\<lparr>counter := Some (c - word_of_nat (successes rs))\<rparr>)"
proof (induction rs arbitrary: s c)
  case Nil
  then show ?case by (auto simp: successes_def)
next
  case (Cons r rs)
  show ?case
  proof (cases r)
    case (Inl e)
    then show ?thesis using Cons by (simp add: read_completed_def successes_def)
  next
    case (Inr b)
    have c1: "unat (c - 1) = unat c - 1"
      using Cons.prems(2) by (simp add: unat_minus_one unat_gt_0)
    have sc: "successes (r # rs) = Suc (successes rs)"
      using Inr by (simp add: successes_def)
    show ?thesis
    proof (cases "c = 1")
      case True
      then have rs: "list_all (\<lambda>r. \<exists>e. r = Inl e) rs"
        using Cons.prems(3) sc by (auto simp: successes_def list_all_iff filter_empty_conv split: sum.splits)
          (metis obj_sumE)
      have "completions rs t = Inr t" for t
        using rs by (induction rs) (auto simp: read_completed_def)
      then show ?thesis
        using True Inr Cons.prems sc by (simp add: read_completed_def)
    next
      case False
      then have pos: "0 < unat (c - 1)"
        using c1 Cons.prems(2) by (metis unat_gt_0 right_minus_eq)
      have "completions rs (s\<lparr>counter := Some (c - 1)\<rparr>) = Inr (if successes rs = unat (c - 1)
          then (s\<lparr>counter := Some (c - 1)\<rparr>)\<lparr>counter := None, closed := Suc (closed s)\<rparr>
          else (s\<lparr>counter := Some (c - 1)\<rparr>)\<lparr>counter := Some (c - 1 - word_of_nat (successes rs))\<rparr>)"
        using Cons.IH [of "s\<lparr>counter := Some (c - 1)\<rparr>" "c - 1"] pos Cons.prems(3) sc c1 by simp
      then show ?thesis
        using False Inr Cons.prems sc c1 by (auto simp: read_completed_def algebra_simps)
    qed
  qed
qed

text \<open>The loop ends at the first round in which every runner reports that nothing is pending.\<close>

lemma run_loop_Some:
  assumes "run_loop pendings k = Some n"
  shows "\<not> keep_running (pendings n) \<and> k \<le> n"
proof (rule run_loop.raw_induct [where P = "\<lambda>pendings k n. \<not> keep_running (pendings n) \<and> k \<le> n", OF _ assms])
  fix rec pendings k n
  assume IH: "\<And>pendings k n. rec pendings k = Some n \<Longrightarrow> \<not> keep_running (pendings n) \<and> k \<le> n"
    and step: "(if \<not> keep_running (pendings k) then Some k else rec pendings (Suc k)) = Some n"
  show "\<not> keep_running (pendings n) \<and> k \<le> n"
    using IH [of pendings "Suc k" n] step by (auto split: if_splits)
qed

lemma run_until_complete_spins:
  "(\<And>n. keep_running (pendings n)) \<Longrightarrow> run_until_complete pendings = None"
  using run_loop_Some [of pendings 0] by (cases "run_until_complete pendings") (auto simp: run_until_complete_def)

text \<open>No product of a chunk number and the size of a chunk wraps around.\<close>

lemma chunk_products:
  fixes file_size chunk_size :: u64
  assumes "k \<le> unat file_size div unat chunk_size"
  shows "unat (word_of_nat k * chunk_size) = k * unat chunk_size" and "unat (word_of_nat k :: u64) = k"
proof -
  have size: "unat file_size < 2 ^ 64"
    using unsigned_less [where 'a = nat, of file_size] by simp
  have "k * unat chunk_size \<le> unat file_size div unat chunk_size * unat chunk_size"
    using assms by simp
  also have "\<dots> \<le> unat file_size"
    by simp
  finally have "k * unat chunk_size < 2 ^ 64" using size by simp
  moreover have "k < 2 ^ 64"
    using assms size div_le_dividend [of "unat file_size" "unat chunk_size"] by linarith
  ultimately show "unat (word_of_nat k * chunk_size) = k * unat chunk_size" "unat (word_of_nat k :: u64) = k"
    by (simp_all add: unat_word_ariths unat_of_nat)
qed

text \<open>All reads complete: what is shared afterwards depends on the number of failures.\<close>

definition failures :: "(int + u64) list \<Rightarrow> nat" where
  "failures rs = length (filter (\<lambda>r. case r of Inl e \<Rightarrow> True | Inr b \<Rightarrow> False) rs)"

lemma successes_failures: "successes rs + failures rs = length rs"
  by (induction rs) (auto simp: successes_def failures_def split: sum.splits)

lemma completions_all:
  assumes "length rs = unat n" and "0 < unat n"
  shows "completions rs \<lparr>counter = Some n, closed = 0\<rparr> =
    Inr (if failures rs = 0 then \<lparr>counter = None, closed = 1\<rparr>
         else \<lparr>counter = Some (word_of_nat (failures rs)), closed = 0\<rparr>)"
proof -
  have "n = word_of_nat (failures rs + successes rs)"
    using successes_failures [of rs] assms(1) by (simp add: add.commute)
  then have "n - word_of_nat (successes rs) = word_of_nat (failures rs)"
    by simp
  then show ?thesis
    using completions_count [of "\<lparr>counter = Some n, closed = 0\<rparr>" n rs] assms successes_failures [of rs]
    by auto
qed

section \<open>Properties\<close>

text \<open>
  C38: For a file of at least one chunk, \<open>read_everything\<close> starts one read for each whole chunk; their
  buffers are consecutive and fill the allocated buffer exactly, but the offsets in the file are the
  numbers \<open>0, 1, 2, ...\<close> of the chunks, not their positions. In whatever order the reads complete, the
  counter and the buffer are deleted and the file is closed exactly once, by the last one, if none
  fails, and nothing is used after its deletion; one failure is enough that neither ever happens.
\<close>

theorem read_everything_completes:
  assumes "chunk_size \<noteq> 0" and "chunk_size \<le> file_size"
  shows "\<exists>n reqs. read_everything file_size chunk_size = Inr (n, n * chunk_size, reqs)
    \<and> unat n = unat file_size div unat chunk_size \<and> unat (n * chunk_size) = unat n * unat chunk_size
    \<and> map (\<lambda>r. (unat (buff_offset r), unat (len r))) reqs =
        map (\<lambda>k. (k * unat chunk_size, unat chunk_size)) [0..<unat n]
    \<and> map (\<lambda>r. unat (file_offset r)) reqs = [0..<unat n]
    \<and> (\<forall>rs. length rs = unat n \<longrightarrow> completions rs \<lparr>counter = Some n, closed = 0\<rparr> =
        Inr (if failures rs = 0 then \<lparr>counter = None, closed = 1\<rparr>
             else \<lparr>counter = Some (word_of_nat (failures rs)), closed = 0\<rparr>))"
proof -
  define n where "n = file_size div chunk_size"
  have un: "unat n = unat file_size div unat chunk_size"
    by (simp add: n_def unat_div)
  note prod = chunk_products [where file_size = file_size and chunk_size = chunk_size, folded un]
  have pos: "0 < unat n"
    using assms by (simp add: un div_greater_zero_iff word_le_nat_alt unat_gt_0)
  define reqs where "reqs = map (\<lambda>k. \<lparr>buff_offset = word_of_nat k * chunk_size,
      len = chunk_size, file_offset = word_of_nat k\<rparr>) [0..<unat n]"
  have "read_everything file_size chunk_size = Inr (n, n * chunk_size, reqs)"
    using assms(1) read_loop_map [of 0 "unat n" n chunk_size]
    by (simp add: read_everything_def n_def [symmetric] Let_def reqs_def)
  moreover have "unat (n * chunk_size) = unat n * unat chunk_size"
    using prod(1) [of "unat n"] by simp
  moreover have "map (\<lambda>r. unat (file_offset r)) reqs = [0..<unat n]"
    unfolding reqs_def map_map o_def by (intro map_idI) (simp add: prod(2))
  moreover have "map (\<lambda>r. (unat (buff_offset r), unat (len r))) reqs =
      map (\<lambda>k. (k * unat chunk_size, unat chunk_size)) [0..<unat n]"
    using prod(1) by (simp add: reqs_def)
  ultimately show ?thesis
    using completions_all [OF _ pos] un by blast
qed

theorem read_everything_completes_witness:
  "\<exists>n reqs. read_everything 10000 4096 = Inr (n, n * 4096, reqs) \<and> unat n = 2
    \<and> map (\<lambda>r. unat (file_offset r)) reqs = [0, 1]"
  using read_everything_completes [of 4096 10000] by (auto simp: upt_rec)

end
