(* ===== verification/Main_Flow.thy ===== *)
theory Main_Flow
  imports Main_Program Ioring_End_To_End
begin

text \<open>
  \<open>src/src/main.cpp\<close> as a whole: \<open>main\<close> up to the end of \<open>run_until_complete\<close>, over the model of the
  io_uring context; and the handlers that \<open>main\<close> chains (open, stat, the reads, close), over a service
  that completes every operation once.
\<close>

section \<open>The handlers\<close>

text \<open>The completion objects that \<open>main\<close> passes, with the variables they capture.\<close>

datatype main_handler =
    Opened
  | Statted handle_type addr     \<comment> \<open>the file and the \<open>stat\<close> buffer, which it owns\<close>
  | Chunk_read handle_type
  | Detached

text \<open>
  What comes from outside: the constants of the system headers, the addresses that allocation returns,
  and what the kernel puts into the \<open>statx\<close> buffer.
\<close>

record main_env =
  at_empty_path :: int
  stat_address :: addr
  statx_address :: addr
  statx_contents :: statx
  buff_address :: addr

text \<open>
  \<open>in_flight\<close> are the operations started and not completed, each with its handler, and \<open>thrown\<close> what
  the handlers ended with other than by returning.
\<close>

record main_world =
  memory :: "addr \<Rightarrow> stat"
  in_flight :: "(ring_operation \<times> main_handler) list"
  shared :: shared
  thrown :: "fault list"

definition launch :: "(ring_operation \<times> main_handler) list \<Rightarrow> main_world \<Rightarrow> main_world" where
  "launch ops w = w\<lparr>in_flight := in_flight w @ ops\<rparr>"

definition stat_request :: "main_env \<Rightarrow> handle_type \<Rightarrow> ring_operation" where
  "stat_request env h = Stat_operation (statx_address env) (statx_contents env) (sint h) '''' (stat_address env) (at_empty_path env)"

definition chunk_request :: "main_env \<Rightarrow> handle_type \<Rightarrow> read_request \<Rightarrow> ring_operation" where
  "chunk_request env h r =
     Read_operation (sint h) (buff_address env + unat (buff_offset r)) (uint (len r)) (sint (file_offset r))"

primrec main_call :: "main_env \<Rightarrow> main_handler \<Rightarrow> outcome \<Rightarrow> main_world \<Rightarrow> main_world \<times> fault option" where
  "main_call env Opened result w =
     (case result of
        Inl code \<Rightarrow> (w, Some (System_error (sint code)))
      | Inr v \<Rightarrow>
          (case v of
             Handle h \<Rightarrow> (launch [(stat_request env h, Statted h (stat_address env))] w, None)
           | _ \<Rightarrow> (w, None)))"
| "main_call env (Statted h p) result w =
     (case result of
        Inl code \<Rightarrow> (w, Some (System_error (sint code)))
      | Inr _ \<Rightarrow>
          (case read_everything (st_size (memory w p)) (st_blksize (memory w p)) of
             Inl e \<Rightarrow> (w, Some e)
           | Inr (n, allocated, reqs) \<Rightarrow>
               (launch (map (\<lambda>r. (chunk_request env h r, Chunk_read h)) reqs)
                  (w\<lparr>shared := (shared w)\<lparr>counter := Some n\<rparr>\<rparr>), None)))"
| "main_call env (Chunk_read h) result w =
     (case read_completed (case result of Inl code \<Rightarrow> Inl (sint code) | Inr v \<Rightarrow> Inr (case v of Count n \<Rightarrow> n | _ \<Rightarrow> 0))
        (shared w) of
        Inl e \<Rightarrow> (w, Some e)
      | Inr s \<Rightarrow>
          (launch (if closed s = Suc (closed (shared w)) then [(Close_operation (sint h), Detached)] else [])
             (w\<lparr>shared := s\<rparr>), None))"
| "main_call env Detached result w = (w, None)"

text \<open>A handler called by \<open>run()\<close>; it posts nothing itself.\<close>

definition main_exec ::
  "main_env \<Rightarrow> (main_handler handler_call, main_handler handler_call unsync_context, main_world) exec" where
  "main_exec env c x =
     (case x of (ctx, w) \<Rightarrow>
        case main_call env (handler c) (as_variant c) w of
          (w', None) \<Rightarrow> ((ctx, w'), None)
        | (w', Some e) \<Rightarrow> ((ctx, w'\<lparr>thrown := thrown w' @ [e]\<rparr>), Some 0))"

text \<open>The callback that \<open>start\<close> hands to the service (lemma \<open>start_callback\<close>).\<close>

primrec callback_of :: "ring_operation \<Rightarrow> 'f \<Rightarrow> 'f ring_cb" where
  "callback_of (Open_operation path flags mode) f = On_open f"
| "callback_of (Close_operation h) f = On_close f"
| "callback_of (Read_operation h buf n offset) f = On_read f"
| "callback_of (Stat_operation p buf dir_fd path statbuf flags) f = On_stat buf statbuf f"

text \<open>
  The kernel completes the \<open>i\<close>-th operation in flight with a result, then \<open>run()\<close> of the executor. An
  exception is caught and reported, and the program goes on, as \<open>run_until_complete\<close> does.
\<close>

definition main_event ::
  "main_env \<Rightarrow> nat \<times> c_int \<Rightarrow> main_handler handler_call unsync_context \<times> main_world \<Rightarrow>
   (main_handler handler_call unsync_context \<times> main_world) option" where
  "main_event env e x =
     (case e of (i, result) \<Rightarrow>
      case x of (ctx, w) \<Rightarrow>
        if length (in_flight w) \<le> i then Some (ctx, w)
        else
          let (op, h) = in_flight w ! i;
              a = ring_callback uec_post (callback_of op h) result \<lparr>exec = ctx, stats = memory w\<rparr>
          in map_option fst (uec_run (main_exec env) (exec a)
               (w\<lparr>memory := stats a, in_flight := List.take i (in_flight w) @ drop (Suc i) (in_flight w)\<rparr>)))"

fun main_events ::
  "main_env \<Rightarrow> (nat \<times> c_int) list \<Rightarrow> main_handler handler_call unsync_context \<times> main_world \<Rightarrow>
   (main_handler handler_call unsync_context \<times> main_world) option" where
  "main_events env [] x = Some x"
| "main_events env (e # es) x =
     (case main_event env e x of None \<Rightarrow> None | Some y \<Rightarrow> main_events env es y)"

section \<open>main\<close>

text \<open>
  The first line: \<open>create(1024).value()\<close>. \<open>init\<close> is what \<open>io_uring_queue_init_params\<close> returns and
  leaves.
\<close>

definition main_context :: "bool \<Rightarrow> c_int \<times> io_uring \<Rightarrow> io_uring cxx" where
  "main_context debug init =
     cxx_bind (context_create debug init []) (\<lambda>(r, closed_rings). result_value debug r)"

text \<open>
  The rest, on a context: \<open>async_open\<close>, then the loop, in which every round asks both runners for
  what is pending. Nothing happens between the rounds, so each sees the same.
\<close>

definition main_body ::
  "fcntl \<Rightarrow> int \<Rightarrow> ('s, main_handler ring_cb, 'r) super \<Rightarrow> string \<Rightarrow> ('s \<Rightarrow> nat) \<Rightarrow> 's \<Rightarrow> 's run" where
  "main_body k deffilemode super path uring_pending c =
     run_bind (open_by_mode k deffilemode super path ''rb'' Opened c) (\<lambda>(r, c').
       let ctx = uec_init :: main_handler handler_call unsync_context
       in case run_until_complete (\<lambda>n. [Inr (uec_pending ctx \<noteq> 0), Inr (uring_pending c' \<noteq> 0)]) of
            None \<Rightarrow> None
          | Some n \<Rightarrow> Some (Inr c'))"

definition main_program ::
  "bool \<Rightarrow> c_int \<times> io_uring \<Rightarrow> (io_uring \<Rightarrow> 'u) \<Rightarrow> fcntl \<Rightarrow> int \<Rightarrow>
   (('u, main_handler ring_cb) uring_context, main_handler ring_cb, 'r) super \<Rightarrow> string \<Rightarrow>
   ('u, main_handler ring_cb) uring_context run" where
  "main_program debug init ring_of k deffilemode super path =
     cxx_then (main_context debug init) (\<lambda>u.
       main_body k deffilemode super path unsync_uring_pending
         \<lparr>ring = ring_of u, completions = (\<lambda>_. None), next_completion = 0, m_pending = 0\<rparr>)"

section \<open>Lemmas\<close>

lemma start_callback: "\<exists>q. start False basic super f op c = submit super q (callback_of op f) c"
proof (cases op)
  case (Read_operation h buf n offset)
  then show ?thesis
    using clamp_length_total [of n] by (force simp: read_call_def async_defs)
qed (force simp: open_call_def close_call_def statat_call_def async_defs)+

text \<open>One event, once the handler is known.\<close>

lemma main_event_step:
  fixes result :: c_int and w :: main_world
  assumes "i < length (in_flight w)" and "in_flight w ! i = (op, h)"
  defines "a \<equiv> ring_callback uec_post (callback_of op h) result \<lparr>exec = uec_init, stats = memory w\<rparr>"
    and "c \<equiv> callback_call (callback_of op h) result"
  defines "w1 \<equiv> w\<lparr>memory := stats a, in_flight := List.take i (in_flight w) @ drop (Suc i) (in_flight w)\<rparr>"
  shows "main_event env (i, result) (uec_init, w) =
    Some (uec_init, case main_call env (handler c) (as_variant c) w1 of
       (w', None) \<Rightarrow> w' | (w', Some e) \<Rightarrow> w'\<lparr>thrown := thrown w' @ [e]\<rparr>)"
proof -
  have "exec a = \<lparr>m_function_queue = [c]\<rparr>"
    by (simp add: a_def c_def ring_callback_exec uec_post_def uec_init_def queue_emplace_def)
  then have "uec_run (main_exec env) (exec a) w1 =
     (case main_exec env c (uec_init, w1) of
        ((ctx', w'), Some x) \<Rightarrow> Some ((ctx', w'), Inl (Callback_exception x))
      | ((ctx', w'), None) \<Rightarrow> uec_run_loop (main_exec env) (0 + 1) ctx' w')"
    by (simp add: uec_run_def uec_loop_Cons uec_init_def)
  moreover have "map_option fst (case main_exec env c (uec_init, w1) of
        ((ctx', w'), Some x) \<Rightarrow> Some ((ctx', w'), Inl (Callback_exception x))
      | ((ctx', w'), None) \<Rightarrow> uec_run_loop (main_exec env) (0 + 1) ctx' w') =
    Some (uec_init, case main_call env (handler c) (as_variant c) w1 of
       (w', None) \<Rightarrow> w' | (w', Some e) \<Rightarrow> w'\<lparr>thrown := thrown w' @ [e]\<rparr>)"
    by (auto simp: main_exec_def uec_loop_empty uec_init_def split: prod.splits option.splits)
  ultimately show ?thesis
    using assms(1,2) unfolding main_event_def a_def w1_def by (simp add: Let_def)
qed

text \<open>Each of \<open>n\<close> operations in flight completes once, in the order that the positions give.\<close>

primrec each_once :: "nat \<Rightarrow> (nat \<times> c_int) list \<Rightarrow> bool" where
  "each_once n [] \<longleftrightarrow> n = 0"
| "each_once n (e # es) \<longleftrightarrow> fst e < n \<and> each_once (n - 1) es"

definition failed :: "(nat \<times> c_int) list \<Rightarrow> fault list" where
  "failed es = map (\<lambda>(i, r). System_error (sint (- r))) (filter (\<lambda>(i, r). r <s 0) es)"

lemma failed_simps [simp]:
  "failed [] = []"
  "failed ((i, r) # es) = (if r <s 0 then System_error (sint (- r)) # failed es else failed es)"
  by (simp_all add: failed_def)

definition is_read :: "ring_operation \<Rightarrow> bool" where
  "is_read op \<longleftrightarrow> (\<exists>h buf n offset. op = Read_operation h buf n offset)"

lemma unat_small: "m < 2 ^ 64 \<Longrightarrow> unat (word_of_nat m :: u64) = m"
  by (simp add: unat_of_nat)

text \<open>The completion of one read, with \<open>k\<close> failures so far and \<open>length ops\<close> reads in flight.\<close>

lemma main_event_read:
  assumes reads: "in_flight w = map (\<lambda>op. (op, Chunk_read h)) ops" "list_all is_read ops"
    and i: "i < length ops" and c: "counter (shared w) = Some (word_of_nat (length ops + k))" "length ops + k < 2 ^ 64"
  shows "main_event env (i, r) (uec_init, w) = Some (uec_init,
     if r <s 0 then w\<lparr>in_flight := map (\<lambda>op. (op, Chunk_read h)) (List.take i ops @ drop (Suc i) ops),
         thrown := thrown w @ [System_error (sint (- r))]\<rparr>
     else if length ops = 1 \<and> k = 0 then w\<lparr>in_flight := [(Close_operation (sint h), Detached)],
         shared := \<lparr>counter = None, closed = Suc (closed (shared w))\<rparr>\<rparr>
     else w\<lparr>in_flight := map (\<lambda>op. (op, Chunk_read h)) (List.take i ops @ drop (Suc i) ops),
         shared := (shared w)\<lparr>counter := Some (word_of_nat (length ops - 1 + k))\<rparr>\<rparr>)"
proof -
  obtain a b n off where op: "ops ! i = Read_operation a b n off"
    using reads(2) i by (auto simp: list_all_length is_read_def)
  have at: "i < length (in_flight w)" "in_flight w ! i = (ops ! i, Chunk_read h)"
    using reads(1) i by simp_all
  have count: "word_of_nat (length ops + k) - 1 = (word_of_nat (length ops - 1 + k) :: u64)"
    using i by (simp add: of_nat_diff)
  have zero: "word_of_nat (length ops - 1 + k) = (0 :: u64) \<longleftrightarrow> length ops = 1 \<and> k = 0"
  proof -
    have "unat (word_of_nat (length ops - 1 + k) :: u64) = length ops - 1 + k"
      using c(2) by (intro unat_small) linarith
    then show ?thesis
      using i unat_eq_0 [of "word_of_nat (length ops - 1 + k) :: u64"] by auto
  qed
  show ?thesis
    using main_event_step [OF at, where env = env and result = r] c(1) count zero i
    by (auto simp: op callback_call_def read_outcome_def read_completed_def launch_def reads(1) take_map drop_map
        length_Suc_conv)
qed

text \<open>All the reads: the last success closes the file and frees the counter, unless a read has failed.\<close>

lemma main_events_reads:
  assumes "in_flight w = map (\<lambda>op. (op, Chunk_read h)) ops" "list_all is_read ops" "each_once (length ops) es"
    and "counter (shared w) = Some (word_of_nat (length ops + k))" "length ops + k < 2 ^ 64"
  shows "\<exists>w'. main_events env es (uec_init, w) = Some (uec_init, w') \<and> thrown w' = thrown w @ failed es
    \<and> (if ops \<noteq> [] \<and> k = 0 \<and> failed es = []
       then in_flight w' = [(Close_operation (sint h), Detached)] \<and> shared w' = \<lparr>counter = None, closed = Suc (closed (shared w))\<rparr>
       else in_flight w' = [] \<and> shared w' = (shared w)\<lparr>counter := Some (word_of_nat (k + length (failed es)))\<rparr>)"
  using assms
proof (induction es arbitrary: w ops k)
  case Nil
  then show ?case by (intro exI [of _ w]) (auto simp: failed_def)
next
  case (Cons e es)
  obtain i r where e: "e = (i, r)" by (cases e)
  define ops' where "ops' = List.take i ops @ drop (Suc i) ops"
  have i: "i < length ops" and once: "each_once (length ops - 1) es"
    using Cons.prems(3) e by simp_all
  have len: "length ops' = length ops - 1"
    using i by (simp add: ops'_def)
  have reads': "list_all is_read ops'"
    using Cons.prems(2) by (auto simp: ops'_def list_all_iff dest: in_set_takeD in_set_dropD)
  note step = main_event_read [OF Cons.prems(1,2) i Cons.prems(4,5), of env r, folded ops'_def]
  note IH = Cons.IH [OF _ reads', unfolded len, OF _ once]
  show ?case
  proof (cases "r <s 0")
    case True
    have "\<exists>w'. main_events env es (uec_init, w\<lparr>in_flight := map (\<lambda>op. (op, Chunk_read h)) ops',
          thrown := thrown w @ [System_error (sint (- r))]\<rparr>) = Some (uec_init, w')
      \<and> thrown w' = (thrown w @ [System_error (sint (- r))]) @ failed es
      \<and> in_flight w' = [] \<and> shared w' = (shared w)\<lparr>counter := Some (word_of_nat (Suc k + length (failed es)))\<rparr>"
      using IH [of "w\<lparr>in_flight := map (\<lambda>op. (op, Chunk_read h)) ops',
          thrown := thrown w @ [System_error (sint (- r))]\<rparr>" "Suc k"] Cons.prems(4,5) i
      by simp
    then show ?thesis
      using True step e by (simp add: Cons.prems)
  next
    case False
    show ?thesis
    proof (cases "length ops = 1 \<and> k = 0")
      case True
      then have "es = []"
        using once by (cases es) simp_all
      with True False show ?thesis
        using step e by auto
    next
      case last: False
      let ?w = "w\<lparr>in_flight := map (\<lambda>op. (op, Chunk_read h)) ops',
          shared := (shared w)\<lparr>counter := Some (word_of_nat (length ops - 1 + k))\<rparr>\<rparr>"
      have w: "main_event env (i, r) (uec_init, w) = Some (uec_init, ?w)"
        using step False last by auto
      have nonempty: "ops' \<noteq> []" if "k = 0"
        using last i len that by auto
      have small: "length ops - 1 + k < 2 ^ 64" "in_flight ?w = map (\<lambda>op. (op, Chunk_read h)) ops'"
        "counter (shared ?w) = Some (word_of_nat (length ops - 1 + k))"
        using Cons.prems(5) by simp_all
      obtain w' where w': "main_events env es (uec_init, ?w) = Some (uec_init, w')" "thrown w' = thrown ?w @ failed es"
        "if ops' \<noteq> [] \<and> k = 0 \<and> failed es = []
         then in_flight w' = [(Close_operation (sint h), Detached)] \<and> shared w' = \<lparr>counter = None, closed = Suc (closed (shared ?w))\<rparr>
         else in_flight w' = [] \<and> shared w' = (shared ?w)\<lparr>counter := Some (word_of_nat (k + length (failed es)))\<rparr>"
        using IH [OF small(2,3,1)] by (elim exE conjE)
      have "ops \<noteq> []"
        using i by auto
      with w' show ?thesis
        using w False e nonempty by (intro exI [of _ w']) (cases "k = 0 \<and> failed es = []"; auto)
    qed
  qed
qed

lemma main_event_open:
  assumes "in_flight w = [(Open_operation path flags mode, Opened)]" and "\<not> h <s 0"
  shows "main_event env (0, h) (uec_init, w) =
    Some (uec_init, w\<lparr>in_flight := [(stat_request env h, Statted h (stat_address env))]\<rparr>)"
  using main_event_step [of 0 w "Open_operation path flags mode" Opened env h] assms
  by (simp add: callback_call_def open_outcome_def launch_def)

text \<open>How many whole chunks the file has.\<close>

definition chunks :: "statx \<Rightarrow> nat" where
  "chunks x = unat (stx_size x) div unat (stx_blksize x)"

lemma main_event_stat:
  assumes "in_flight w = [(stat_request env h, Statted h (stat_address env))]" and "\<not> r <s 0"
    and "stx_blksize (statx_contents env) \<noteq> 0"
  shows "\<exists>ops w'. main_event env (0, r) (uec_init, w) = Some (uec_init, w')
    \<and> length ops = chunks (statx_contents env) \<and> list_all is_read ops
    \<and> in_flight w' = map (\<lambda>op. (op, Chunk_read h)) ops \<and> thrown w' = thrown w
    \<and> shared w' = (shared w)\<lparr>counter := Some (word_of_nat (chunks (statx_contents env)))\<rparr>"
proof -
  define x where "x = statx_contents env"
  define n :: u64 where "n = stx_size x div ucast (stx_blksize x)"
  have block: "ucast (stx_blksize x) \<noteq> (0 :: u64)"
    using assms(3) ucast_back(1) [of "stx_blksize x"] by (auto simp: x_def)
  have "unat (ucast (stx_blksize x) :: u64) = unat (stx_blksize x)"
    using unsigned_less [where 'a = nat, of "stx_blksize x"]
    by (simp add: unsigned_ucast_eq take_bit_nat_eq_self)
  then have n: "unat n = chunks x"
    by (simp add: n_def chunks_def unat_div)
  define ops where "ops = map (chunk_request env h) (read_loop (unat n) 0 n (ucast (stx_blksize x)))"
  define w' where "w' = w\<lparr>memory := (memory w)(stat_address env := stat_of_statx x),
      in_flight := map (\<lambda>op. (op, Chunk_read h)) ops, shared := (shared w)\<lparr>counter := Some n\<rparr>\<rparr>"
  have "main_event env (0, r) (uec_init, w) = Some (uec_init, w')"
    using main_event_step [of 0 w "stat_request env h" "Statted h (stat_address env)" env r] assms(1,2) block
    by (simp add: stat_request_def callback_call_def stat_outcome_def read_everything_def stat_of_statx_def Let_def
        launch_def w'_def ops_def n_def x_def)
  moreover have "length ops = chunks x"
    using read_loop_map [of 0 "unat n" n] n by (simp add: ops_def)
  moreover have "list_all is_read ops"
    by (auto simp: ops_def list_all_iff is_read_def chunk_request_def)
  moreover have "n = word_of_nat (chunks x)"
    by (simp add: n [symmetric])
  ultimately show ?thesis
    by (intro exI [of _ ops] exI [of _ w']) (simp add: w'_def x_def)
qed

lemma main_context_fails:
  "main_context debug (err, u) = Inl (if \<not> err <s 0 \<and> debug then Assert_failed else Undefined)"
  by (simp add: main_context_def create_never_succeeds result_value_def has_value_def read_member_def)

lemma run_nothing_pending: "run_until_complete (\<lambda>n. [Inr False, Inr False]) = Some 0"
  by (simp add: run_until_complete_def run_loop.simps keep_running_def)

lemma open_read_binary:
  "\<exists>q. open_by_mode k deffilemode super path ''rb'' f c = submit super q (On_open f) c"
proof -
  have "open_mode_flags k ''rb'' = Inr (o_rdonly k)"
    by (simp add: open_mode_flags_def mode_char_def no_mode_def Let_def)
  then show ?thesis
    using start_callback [of undefined super f "Open_operation path (sint (o_rdonly k)) deffilemode" c]
    by (simp add: open_by_mode_def)
qed

section \<open>Properties\<close>

text \<open>
  C18: What \<open>main\<close> is meant to do, on a service that completes each operation once: when the open
  gives a descriptor, the stat succeeds and the file has a block size, then in whatever order the reads
  complete, and whichever of them fail, no handler touches the counter or the buffer after they are
  deleted, the exceptions are exactly those of the failed reads, in order, and everything that was
  started has completed, except that a close of the descriptor is in flight, once, if no read failed and
  the file has at least one whole block. Otherwise the file is never closed and counter and buffer are
  never freed; this includes every file shorter than a block.
\<close>

theorem main_reads_the_file:
  assumes "\<not> h <s 0" and "\<not> r <s 0" and "stx_blksize (statx_contents env) \<noteq> 0"
    and "each_once (chunks (statx_contents env)) es"
  shows "\<exists>w. main_events env ((0, h) # (0, r) # es) (uec_init, \<lparr>memory = m,
        in_flight = [(Open_operation path flags mode, Opened)], shared = \<lparr>counter = None, closed = 0\<rparr>, thrown = []\<rparr>) =
      Some (uec_init, w)
    \<and> thrown w = map (\<lambda>(i, r). System_error (sint (- r))) (filter (\<lambda>(i, r). r <s 0) es)
    \<and> (if 0 < chunks (statx_contents env) \<and> thrown w = []
       then in_flight w = [(Close_operation (sint h), Detached)] \<and> shared w = \<lparr>counter = None, closed = 1\<rparr>
       else in_flight w = [] \<and> shared w = \<lparr>counter = Some (word_of_nat (length (thrown w))), closed = 0\<rparr>)"
proof -
  define w1 where "w1 = \<lparr>memory = m, in_flight = [(stat_request env h, Statted h (stat_address env))],
      shared = \<lparr>counter = None, closed = 0\<rparr>, thrown = []\<rparr>"
  have one: "main_event env (0, h) (uec_init, \<lparr>memory = m, in_flight = [(Open_operation path flags mode, Opened)],
      shared = \<lparr>counter = None, closed = 0\<rparr>, thrown = []\<rparr>) = Some (uec_init, w1)"
    using main_event_open assms(1) by (simp add: w1_def)
  obtain ops w2 where two: "main_event env (0, r) (uec_init, w1) = Some (uec_init, w2)"
    and ops: "length ops = chunks (statx_contents env)" "list_all is_read ops"
    and w2: "in_flight w2 = map (\<lambda>op. (op, Chunk_read h)) ops" "thrown w2 = []"
      "shared w2 = \<lparr>counter = Some (word_of_nat (length ops + 0)), closed = 0\<rparr>"
    using main_event_stat [of w1 env h r] assms(2,3) by (auto simp: w1_def)
  have bound: "length ops + 0 < 2 ^ 64"
  proof -
    have "unat (stx_size (statx_contents env)) < 2 ^ 64"
      using unsigned_less [where 'a = nat, of "stx_size (statx_contents env)"] by simp
    then show ?thesis
      using le_less_trans [OF div_le_dividend] by (simp add: ops(1) chunks_def)
  qed
  have counter: "counter (shared w2) = Some (word_of_nat (length ops + 0))"
    using w2(3) by simp
  obtain w where "main_events env es (uec_init, w2) = Some (uec_init, w)" "thrown w = failed es"
    "if ops \<noteq> [] \<and> failed es = []
     then in_flight w = [(Close_operation (sint h), Detached)] \<and> shared w = \<lparr>counter = None, closed = 1\<rparr>
     else in_flight w = [] \<and> shared w = \<lparr>counter = Some (word_of_nat (length (failed es))), closed = 0\<rparr>"
    using main_events_reads [OF w2(1) ops(2) assms(4) [folded ops(1)] counter bound, of env]
    by (auto simp: w2(2,3) cong: if_cong)
  moreover have "ops \<noteq> [] \<longleftrightarrow> 0 < chunks (statx_contents env)"
    by (simp add: ops(1) [symmetric])
  ultimately show ?thesis
    using one two by (intro exI [of _ w]) (simp add: failed_def)
qed

definition iso_env :: main_env where
  "iso_env = \<lparr>at_empty_path = 4096, stat_address = 500, statx_address = 600,
     statx_contents = \<lparr>stx_dev_major = 0, stx_dev_minor = 0, stx_ino = 0, stx_nlink = 1, stx_mode = 0, stx_uid = 0,
       stx_gid = 0, stx_rdev_major = 0, stx_rdev_minor = 0, stx_size = 9000, stx_blksize = 4096, stx_blocks = 0,
       stx_atime = \<lparr>ts_sec = 0, ts_nsec = 0\<rparr>, stx_mtime = \<lparr>ts_sec = 0, ts_nsec = 0\<rparr>,
       stx_ctime = \<lparr>ts_sec = 0, ts_nsec = 0\<rparr>\<rparr>, buff_address = 700\<rparr>"

lemma iso_env_chunks: "chunks (statx_contents iso_env) = 2" "stx_blksize (statx_contents iso_env) \<noteq> 0"
  by (simp_all add: iso_env_def chunks_def)

text \<open>Two chunks, the second read completing first.\<close>

theorem main_reads_the_file_witness:
  "\<forall>m. \<exists>w. main_events iso_env [(0, 3), (0, 0), (1, 4096), (0, 4096)] (uec_init, \<lparr>memory = m,
        in_flight = [(Open_operation ''file'' 0 438, Opened)], shared = \<lparr>counter = None, closed = 0\<rparr>, thrown = []\<rparr>) =
      Some (uec_init, w) \<and> in_flight w = [(Close_operation 3, Detached)] \<and> thrown w = []"
proof
  fix m
  show "\<exists>w. main_events iso_env [(0, 3), (0, 0), (1, 4096), (0, 4096)] (uec_init, \<lparr>memory = m,
        in_flight = [(Open_operation ''file'' 0 438, Opened)], shared = \<lparr>counter = None, closed = 0\<rparr>, thrown = []\<rparr>) =
      Some (uec_init, w) \<and> in_flight w = [(Close_operation 3, Detached)] \<and> thrown w = []"
    using main_reads_the_file [of 3 0 iso_env "[(1, 4096), (0, 4096)]" m "''file''" 0 438]
    by (auto simp: iso_env_chunks word_sless_alt)
qed

text \<open>
  C19: What \<open>main\<close> does. No result of \<open>io_uring_queue_init_params\<close> gets it past its first line: \<open>value()\<close>
  fails an assertion in a debug build after a success, and otherwise reads a value that was never
  constructed. And on a context that had somehow been created, with room in its ring, \<open>main\<close> would end
  with the open request unsubmitted in the ring, its handler already destroyed: \<open>pending()\<close> of the
  context is 0 whatever is in flight, so \<open>run_until_complete\<close> returns in its first round.
\<close>

theorem main_ends_at_once:
  "main_program debug (err, u) ring_of k deffilemode super path =
     Some (Inl (if \<not> err <s 0 \<and> debug then Assert_failed else Undefined))
   \<and> (submit super' = context_submit debug (unsync_submit_one lu) \<and> m_pending c = 0
        \<and> get_sqe lu (ring c) = Some (slot, v) \<longrightarrow>
      (\<exists>q c'. main_body k deffilemode super' path unsync_uring_pending c = Some (Inr c')
        \<and> ring c' = put_sqe lu slot (q, next_completion c) v \<and> completions c' (next_completion c) = None))"
proof (rule conjI)
  show "main_program debug (err, u) ring_of k deffilemode super path =
     Some (Inl (if \<not> err <s 0 \<and> debug then Assert_failed else Undefined))"
    by (simp add: main_program_def main_context_fails)
next
  show "submit super' = context_submit debug (unsync_submit_one lu) \<and> m_pending c = 0
        \<and> get_sqe lu (ring c) = Some (slot, v) \<longrightarrow>
      (\<exists>q c'. main_body k deffilemode super' path unsync_uring_pending c = Some (Inr c')
        \<and> ring c' = put_sqe lu slot (q, next_completion c) v \<and> completions c' (next_completion c) = None)"
  proof (intro impI, elim conjE)
    assume sub: "submit super' = context_submit debug (unsync_submit_one lu)" and pend: "m_pending c = 0"
      and room: "get_sqe lu (ring c) = Some (slot, v)"
    obtain q where q: "open_by_mode k deffilemode super' path ''rb'' Opened c = submit super' q (On_open Opened) c"
      using open_read_binary [of k deffilemode super' path Opened c] by (elim exE)
    have one: "unsync_submit_one lu (q, next_completion c) (ring c) = Some (Inr (0, put_sqe lu slot (q, next_completion c) v))"
      using room by (subst unsync_submit_one_stop) simp_all
    note start = context_submit_accepted [where submit_one = "unsync_submit_one lu" and c = c and q = q, OF one,
        of debug "On_open Opened"]
    show "\<exists>q c'. main_body k deffilemode super' path unsync_uring_pending c = Some (Inr c')
        \<and> ring c' = put_sqe lu slot (q, next_completion c) v \<and> completions c' (next_completion c) = None"
      unfolding main_body_def q sub start
      using pend
      by (auto simp: Let_def uec_pending_def uec_init_def unsync_uring_pending_def run_nothing_pending)
  qed
qed

definition main_super :: "((small_ring, main_handler ring_cb) uring_context, main_handler ring_cb, nat result) super" where
  "main_super = \<lparr>submit = context_submit False (unsync_submit_one small_lu), has_rw_cur_pos = True,
     at_fdcwd = - 100, timeout_abs = 1\<rparr>"

definition linux_fcntl :: fcntl where
  "linux_fcntl = \<lparr>o_rdonly = 0, o_wronly = 1, o_rdwr = 2, o_creat = 64, o_trunc = 512, o_append = 1024,
     o_cloexec = 524288, o_excl = 128\<rparr>"

theorem main_ends_at_once_witness:
  "\<exists>c'. main_body linux_fcntl 438 main_super ''file'' unsync_uring_pending
     \<lparr>ring = \<lparr>cap = 4, queue = [], finished = []\<rparr>, completions = (\<lambda>_. None), next_completion = 0, m_pending = 0\<rparr> = Some (Inr c')
   \<and> completions c' 0 = None \<and> length (queue (ring c')) = 1"
proof -
  let ?c = "\<lparr>ring = \<lparr>cap = 4, queue = [], finished = []\<rparr>, completions = (\<lambda>_. None), next_completion = 0, m_pending = 0\<rparr>
    :: (small_ring, main_handler ring_cb) uring_context"
  let ?v = "\<lparr>cap = 4, queue = [(Prep_nop, 0)], finished = []\<rparr>"
  have room: "get_sqe small_lu (ring ?c) = Some (0, ?v)"
    by (simp add: small_lu_def)
  have one: "length (queue (put_sqe small_lu 0 e ?v)) = 1" for e
    by (simp add: small_lu_def)
  have sub: "submit main_super = context_submit False (unsync_submit_one small_lu)"
    by (simp add: main_super_def)
  obtain q c' where "main_body linux_fcntl 438 main_super ''file'' unsync_uring_pending ?c = Some (Inr c')"
    "ring c' = put_sqe small_lu 0 (q, 0) ?v" "completions c' 0 = None"
    using main_ends_at_once [of False 0 default_uring "\<lambda>u. ring ?c" linux_fcntl 438 main_super "''file''" main_super
        small_lu ?c 0 ?v] sub room by auto
  then show ?thesis
    using one by (intro exI [of _ c']) simp
qed

end
