(* ===== verification/Spec2Isabelle.thy ===== *)
theory Spec2Isabelle
  imports Native_Result Clamp Task_Queue Execution_Context Sync_Context Semaphore Semaphore_Exceptions Semaphore_Concurrent
    Locks Poll_Service Unique_Function Stored_Callables Uring_Storage Uring_Ops Uring_Context Ioring_Async
    Uring_Threads Ioring_End_To_End Ioring_Transfer Completion_Tokens Token_Composition Epoll_Service Epoll_Nested
    Epoll_Threads Uring_Allocation Function_View Awaitable Allocator_Aware Main_Program Main_Flow
begin

text \<open>
  A model of \<open>bad_io\<close>, a C++20 library for asynchronous, event-based input and output. This theory only
  collects the others. Paths are below \<open>src/include/tcx/\<close> where they do not start with \<open>src/\<close>.

  \<^bold>\<open>The program.\<close> A user starts an operation on a \<^emph>\<open>service\<close> (io_uring, epoll, poll) and gives an
  \<^emph>\<open>executor\<close> and a completion object. \<open>wrap_op\<close> turns the completion object into a handler, and into a
  future or an awaitable for the caller; the operation hands a callback to the service; when the
  kernel reports the result, the service calls the callback, which posts the handler to the executor;
  \<open>run()\<close> of the executor calls it. Completions are stored in move-only \<open>unique_function\<close>s, a semaphore
  queues those that wait for a unit, and fallible calls return a \<open>native::result\<close>.

  \<^bold>\<open>Conventions.\<close> A call that can fail has type \<open>'a cxx\<close> (\<open>Prelude\<close>): a value, or the assertion, the
  exception, the \<open>abort\<close> or the undefined behaviour it ends in. A call that may also not return is an
  \<open>'a run\<close>; its loops are \<open>partial_function\<close>s without fuel, so that \<open>None\<close> means that it does not return.
  A parameter \<open>debug\<close> says whether \<open>NDEBUG\<close> is undefined. Integers are words or integers with the wrap-around
  written out where the width matters. Third-party code (liburing, the kernel, the concurrent queues)
  is an argument of the definitions, and what is assumed of it a named predicate or a locale.

  \<^bold>\<open>Theories.\<close>

  \<^item> \<open>Prelude\<close>: faults, sequencing, integer types, lemmas on lists and multisets. \<open>Task_Queue\<close>: the
    interfaces \<open>task_queue\<close> and \<open>executor\<close> (and \<open>fifo_executor\<close>) through which the components meet; the
    contexts interpret them, the semaphore and the io_uring wrappers rely on them.
  \<^item> \<open>Native_Result\<close> (\<open>native/result.hpp\<close>, \<open>native/handle.hpp\<close>): the result type, its queries and the life
    of its value. \<open>Clamp\<close> (\<open>utilities/clamp.hpp\<close>): both templates over all integer types.
  \<^item> \<open>Execution_Context\<close> and \<open>Sync_Context\<close> (\<open>src/src/execution_context.cpp\<close> and the two headers): the order
    of calls, termination and exceptions of \<open>run\<close>; for the synchronised context, that every
    interleaving calls each posted callable at most once and loses none.
  \<^item> \<open>Semaphore\<close> and \<open>Semaphore_Concurrent\<close> (\<open>semaphore.hpp\<close>): the operations one at a time, with the
    conservation of completions and which releases wake whom; and as interleaved atomic steps, with
    the invariant that no unit is granted twice and the race between \<open>async_acquire\<close> and \<open>release\<close>.
    \<open>Semaphore_Exceptions\<close>: the operations when posting or storing a completion fails.
    \<open>Locks\<close> (\<open>async/locks/\<close>): the owner of one unit.
  \<^item> \<open>Unique_Function\<close> (\<open>unique_function.hpp\<close>): all members over an explicit memory of objects, and a
    refinement to an abstract machine of held callables. \<open>Function_View\<close> (\<open>function_view.hpp\<close>): a
    refinement to references. \<open>Allocator_Aware\<close> (\<open>allocator_aware.hpp\<close>): creation and deletion against the
    contract of an allocator. \<open>Stored_Callables\<close>: the execution contexts over the \<open>unique_function\<close>s in
    memory that their queues hold, refined to the queues of callables of \<open>Execution_Context\<close>, exceptions
    of the callables included.
  \<^item> \<open>Poll_Service\<close> (\<open>services/poll_service.hpp\<close>) and \<open>Epoll_Service\<close> (\<open>services/epoll_service.hpp\<close>,
    \<open>src/src/epoll_service.cpp\<close>, \<open>async/epoll/accept.hpp\<close>): registration, removal and delivery, and what
    happens to each callback. \<open>Epoll_Nested\<close>: callbacks that call the epoll service again, when that is
    safe and how it breaks. \<open>Epoll_Threads\<close>: the epoll service used by any number of threads, as
    interleaved steps; what happens to each callback, and the entries that a race or an exception leaves.
  \<^item> \<open>Uring_Storage\<close>, \<open>Uring_Ops\<close>, \<open>Uring_Context\<close> (\<open>services/uring_service.hpp\<close>): the owner of a ring; the
    operations, proved against the entry and callback that each hands to \<open>submit\<close>; \<open>submit\<close>, \<open>complete\<close>,
    and submission and waiting of both contexts, one call at a time. \<open>Uring_Threads\<close>: the synchronised
    context with its mutexes, as interleaved steps of any number of threads; its calls serialise, do not
    deadlock and do not keep the submission queue while they wait for the kernel, and starve when the
    ring is idle. \<open>Uring_Allocation\<close>: \<open>submit\<close> and \<open>complete\<close> over the
    allocator, refined to those of \<open>Uring_Context\<close>, and what follows when an address is handed out again;
    the locale \<open>forgiving_allocator\<close> is what they need of an allocator. The locale \<open>submitter\<close> is the
    interface between the operations and the contexts.
  \<^item> \<open>Ioring_Async\<close> (\<open>async/ioring/\<close>): open, close, read, stat and the durations of sleep on top of
    them, down to the call of the user's handler. \<open>Ioring_End_To_End\<close>: the whole way from a completion
    entry to the handler, and from the operation to the ring. \<open>Ioring_Transfer\<close>: write, send, recv, poll
    and accept, against the older interface of a completion that their callbacks are written for.
  \<^item> \<open>Completion_Tokens\<close> (\<open>async/wrap_op.hpp\<close>, \<open>detached.hpp\<close>, \<open>detached_throw.hpp\<close>, \<open>use_future.hpp\<close>,
    \<open>use_awaitable.hpp\<close>) and \<open>Awaitable\<close> (\<open>awaitable.hpp\<close>): what the caller gets and when.
    \<open>Token_Composition\<close> (\<open>async/concepts.hpp\<close>): which completion objects with a single call operator the
    operations accept and whether their calls fit, and the way from a kernel result to the coroutine that awaits it.
  \<^item> \<open>Main_Program\<close> (\<open>src/src/main.cpp\<close>): the reads of \<open>read_everything\<close> and the loop of \<open>run_until_complete\<close>.
    \<open>Main_Flow\<close>: \<open>main\<close> over the model of the context, and the handlers it chains over a service that
    completes each operation once.

  \<^bold>\<open>What does not hold.\<close> Several theorems state defects as they are: inverted queries of results, which
  make the io_uring contexts free what the kernel still refers to; a wait that reports successful
  submissions as errors; lost wake-ups in \<open>release\<close> and in \<open>use_awaitable\<close>, and units lost to exceptions; a \<open>poll\<close> that cannot deliver, and
  epoll entries that no call reaches; awaitables that never deliver; a \<open>main\<close> that stops at its first line.
  They describe the code, and are the statements to change with it.

  \<^bold>\<open>Bounds.\<close> No definition needs fuel except \<open>read_loop\<close>, whose bound is the number of iterations that
  its own condition admits. The interleavings of the semaphore cover executions in which its counter
  stays in the range of \<open>ptrdiff_t\<close>. The durations of sleep count in the 64 bits of \<open>std::chrono\<close>, whose
  overflow is undefined, for signed integer representations; the seconds and nanoseconds that \<open>stat\<close>
  copies are integers. A coroutine of \<open>Awaitable\<close> runs to its end when it is resumed.

  \<^bold>\<open>Not modelled.\<close> Members that no program can instantiate: \<open>async_epoll_ctl\<close>, the copy constructor
  of \<open>result\<close>, and the wrapper connect (but for what its completions post), the posting of sleep and
  recv without flags, whose arguments do not fit the operations they call. (\<open>async_poll_add\<close> of the
  epoll service, \<open>wait_one\<close>, three members of \<open>awaitable\<close> and the callbacks in \<open>Ioring_Transfer\<close> do not
  compile either, but what they do is clear and is modelled; so are the constructors of
  \<open>unique_function\<close> from a reference and from a function pointer and the copies of a \<open>function_view\<close>, which
  compile for some arguments only, as their theories say.) Waiting of the synchronised context for
  completions is atomic with the check that there are enough. Constructors of user callables that throw
  and failing allocation are modelled in \<open>Allocator_Aware\<close>, \<open>Uring_Allocation\<close>, \<open>Semaphore_Exceptions\<close> and
  the \<open>post\<close> of \<open>Stored_Callables\<close> only. Addresses of completions are not reused, so that a freed one
  stays recognisable, except in \<open>Uring_Allocation\<close>. \<open>native/string.hpp\<close>, \<open>is_service.hpp\<close> and
  \<open>src/src/ioring_service.cpp\<close> hold no code that runs.
\<close>

end
